(* ===== verification/Novaio_Prelude.thy ===== *)
theory Novaio_Prelude
  imports Main "HOL-Library.Word" "HOL-Library.Multiset"
begin

text \<open>
  Shared vocabulary of the development: the types every component uses (64-bit addresses,
  coroutine handles, the unsigned integers of the C++ code), the collections of facts the
  component proofs draw on, and the generic lemmas on words, masks, lists and ring windows.
\<close>

unbundle bit_operations_syntax

section \<open>Types\<close>

text \<open>
  The target is x86-64 Linux: \<open>size_t\<close>, \<open>uintptr_t\<close> and pointers are 64 bits wide.
  A \<open>std::coroutine_handle<>\<close> is the address of its frame; the null handle is address 0.
\<close>

type_synonym u8 = "8 word"
type_synonym u16 = "16 word"
type_synonym u32 = "32 word"
type_synonym u64 = "64 word"
type_synonym addr = "64 word"
type_synonym handle = "64 word"

abbreviation nullptr :: addr where
  "nullptr \<equiv> 0"

named_theorems effect_simps "projections of the state after one operation"

section \<open>Masks and power-of-two indices\<close>

lemma unat_pow2:
  assumes "k < LENGTH('a)"
  shows "unat ((2 :: 'a::len word) ^ k) = 2 ^ k"
proof -
  have "(2 :: 'a word) ^ k = of_nat (2 ^ k)"
    by simp
  moreover have "(2::nat) ^ k < 2 ^ LENGTH('a)"
    using assms by (rule power_strict_increasing) simp
  ultimately show ?thesis
    by (metis mod_less unat_of_nat)
qed

lemma and_mask_unat:
  fixes w :: "'a::len word"
  assumes "k < LENGTH('a)"
  shows "unat (w AND (2 ^ k - 1)) = unat w mod 2 ^ k"
proof -
  have "w AND (2 ^ k - 1) = take_bit k w"
    by (simp only: take_bit_eq_mask mask_eq_exp_minus_1)
  then show ?thesis
    by (metis take_bit_eq_mod unsigned_take_bit_eq)
qed

lemma unat_ucast_up:
  fixes w :: "'a::len word"
  assumes "LENGTH('a) \<le> LENGTH('b::len)"
  shows "unat (ucast w :: 'b word) = unat w"
  by (metis assms unsigned_less unsigned_ucast_eq take_bit_nat_eq_self order_less_le_trans
      power_increasing one_le_numeral)

lemma unat_Suc_mod_pow2:
  fixes w :: "'a::len word"
  assumes "k \<le> LENGTH('a)"
  shows "unat (w + 1) mod 2 ^ k = Suc (unat w) mod 2 ^ k"
proof -
  have "unat (w + 1) = Suc (unat w) mod 2 ^ LENGTH('a)"
    by (simp add: unat_word_ariths)
  moreover have "(2::nat) ^ k dvd 2 ^ LENGTH('a)"
    using assms by (rule le_imp_power_dvd)
  ultimately show ?thesis
    by (simp add: mod_mod_cancel)
qed

lemma unat_add_mod_pow2:
  fixes w v :: "'a::len word"
  assumes "k \<le> LENGTH('a)"
  shows "unat (w + v) mod 2 ^ k = (unat w + unat v) mod 2 ^ k"
proof -
  have "unat (w + v) = (unat w + unat v) mod 2 ^ LENGTH('a)"
    by (simp add: unat_word_ariths)
  moreover have "(2::nat) ^ k dvd 2 ^ LENGTH('a)"
    using assms by (rule le_imp_power_dvd)
  ultimately show ?thesis
    by (simp add: mod_mod_cancel)
qed

lemma unat_Suc_less:
  fixes a b :: "'a::len word"
  assumes "a < b"
  shows "unat (a + 1) = Suc (unat a)"
proof -
  have "unat a < unat b"
    using assms by (simp add: word_less_nat_alt)
  moreover have "unat b < 2 ^ LENGTH('a)"
    by simp
  ultimately have "Suc (unat a) < 2 ^ LENGTH('a)"
    by linarith
  then show ?thesis
    by (metis add.commute mod_less plus_1_eq_Suc unat_1 unat_word_ariths(1))
qed

text \<open>The distance of two counters after one of them moves, while it does not wrap.\<close>

lemma unat_diff_Suc_left:
  fixes t h :: "'a::len word"
  assumes "unat (t - h) < n" and "n < 2 ^ LENGTH('a)"
  shows "unat (t + 1 - h) = Suc (unat (t - h))"
proof -
  have "t + 1 - h = (t - h) + 1"
    by simp
  moreover have "Suc (unat (t - h)) < 2 ^ LENGTH('a)"
    using assms by simp
  ultimately show ?thesis
    by (metis add.commute mod_less plus_1_eq_Suc unat_1 unat_word_ariths(1))
qed

lemma unat_diff_Suc_right:
  fixes t h :: "'a::len word"
  assumes "t \<noteq> h"
  shows "unat (t - (h + 1)) = unat (t - h) - 1" and "0 < unat (t - h)"
proof -
  have nz: "t - h \<noteq> 0"
    using assms by simp
  then show "0 < unat (t - h)"
    by (simp add: unat_gt_0)
  have "t - (h + 1) = (t - h) - 1"
    by simp
  with nz show "unat (t - (h + 1)) = unat (t - h) - 1"
    by (metis unat_minus_one)
qed

section \<open>Ring windows\<close>

text \<open>
  The \<open>n\<close> elements of a circular buffer that start at position \<open>h\<close> (a counter that is
  never reduced), read in order.
\<close>

definition ring_window :: "'a list \<Rightarrow> nat \<Rightarrow> nat \<Rightarrow> 'a list" where
  "ring_window buf h n = map (\<lambda>i. buf ! ((h + i) mod length buf)) [0..<n]"

lemma ring_window_0 [simp]: "ring_window buf h 0 = []"
  by (simp add: ring_window_def)

lemma length_ring_window [simp]: "length (ring_window buf h n) = n"
  by (simp add: ring_window_def)

lemma ring_window_eq_Nil [simp]: "ring_window buf h n = [] \<longleftrightarrow> n = 0"
  by (metis length_0_conv length_ring_window)

lemma ring_window_cong_mod:
  assumes "h mod length buf = h' mod length buf"
  shows "ring_window buf h n = ring_window buf h' n"
  using assms unfolding ring_window_def by (metis mod_add_left_eq)

lemma ring_window_Suc:
  "ring_window buf h (Suc n) = buf ! (h mod length buf) # ring_window buf (Suc h) n"
proof -
  have "[0..<Suc n] = 0 # map Suc [0..<n]"
    by (simp add: map_Suc_upt upt_conv_Cons del: upt_Suc)
  then show ?thesis
    by (simp add: ring_window_def del: upt_Suc)
qed

lemma ring_index_neq:
  assumes "i < n" and "n < (c::nat)"
  shows "(h + i) mod c \<noteq> (h + n) mod c"
proof
  assume eq: "(h + i) mod c = (h + n) mod c"
  then have "c dvd (h + n) - (h + i)"
    using assms by (metis add_le_cancel_left less_imp_le mod_eq_dvd_iff_nat)
  with assms show False
    by (simp add: nat_dvd_not_less)
qed

lemma ring_window_push:
  assumes "n < length buf"
  shows "ring_window (buf[(h + n) mod length buf := x]) h (Suc n) = ring_window buf h n @ [x]"
proof -
  have idx: "(h + n) mod length buf < length buf"
    using assms by (intro mod_less_divisor) linarith
  have "(buf[(h + n) mod length buf := x]) ! ((h + i) mod length buf)
      = buf ! ((h + i) mod length buf)" if "i < n" for i
    using ring_index_neq [OF that assms, of h] by simp
  with idx show ?thesis
    by (simp add: ring_window_def)
qed

lemma ring_window_update_outside:
  assumes "n \<le> m" and "m < length buf"
  shows "ring_window (buf[(h + m) mod length buf := x]) h n = ring_window buf h n"
proof -
  have "(h + m) mod length buf \<noteq> (h + i) mod length buf" if "i < n" for i
    using ring_index_neq [of i m "length buf" h] that assms by simp
  then show ?thesis
    by (simp add: ring_window_def)
qed

lemma nth_ring_window:
  "i < n \<Longrightarrow> ring_window buf h n ! i = buf ! ((h + i) mod length buf)"
  by (simp add: ring_window_def)

section \<open>Popping several elements\<close>

text \<open>The elements the first \<open>n\<close> calls of a dequeue operation return, and the queue left.\<close>

fun deq_n :: "('q \<Rightarrow> 'a \<times> 'q) \<Rightarrow> nat \<Rightarrow> 'q \<Rightarrow> 'a list \<times> 'q" where
  "deq_n deq 0 q = ([], q)"
| "deq_n deq (Suc n) q =
     (let (x, q1) = deq q; (xs, q2) = deq_n deq n q1 in (x # xs, q2))"

text \<open>
  A client's sequence of calls, run on a queue and on a plain list, with what the dequeues return.
  \<open>fits r n ops\<close>: from \<open>n\<close> elements and room for \<open>r\<close> more, no enqueue of \<open>ops\<close> exceeds the room.
\<close>

datatype 'a queue_op = Enqueue 'a | Dequeue

fun run_ops :: "('a \<Rightarrow> 'q \<Rightarrow> 'q) \<Rightarrow> ('q \<Rightarrow> 'a \<times> 'q) \<Rightarrow> 'a queue_op list \<Rightarrow> 'q \<Rightarrow> 'a list \<times> 'q" where
  "run_ops enq deq [] q = ([], q)"
| "run_ops enq deq (Enqueue x # ops) q = run_ops enq deq ops (enq x q)"
| "run_ops enq deq (Dequeue # ops) q =
     (let (x, q1) = deq q; (xs, q2) = run_ops enq deq ops q1 in (x # xs, q2))"

fun list_ops :: "'a \<Rightarrow> 'a queue_op list \<Rightarrow> 'a list \<Rightarrow> 'a list \<times> 'a list" where
  "list_ops none [] xs = ([], xs)"
| "list_ops none (Enqueue x # ops) xs = list_ops none ops (xs @ [x])"
| "list_ops none (Dequeue # ops) [] = (let (ys, zs) = list_ops none ops [] in (none # ys, zs))"
| "list_ops none (Dequeue # ops) (x # xs) = (let (ys, zs) = list_ops none ops xs in (x # ys, zs))"

fun fits :: "nat \<Rightarrow> nat \<Rightarrow> 'a queue_op list \<Rightarrow> bool" where
  "fits r n [] \<longleftrightarrow> True"
| "fits r n (Enqueue x # ops) \<longleftrightarrow> 0 < r \<and> fits (r - 1) (Suc n) ops"
| "fits r n (Dequeue # ops) \<longleftrightarrow> (if n = 0 then fits r 0 ops else fits (Suc r) (n - 1) ops)"

section \<open>Values of a finite map\<close>

lemma finite_dom_upd: "finite (dom m) \<Longrightarrow> finite (dom (m(v := x)))"
  by (cases x) simp_all

text \<open>The values of a finite map, with multiplicity.\<close>

definition values_of :: "(nat \<Rightarrow> 'r option) \<Rightarrow> 'r multiset" where
  "values_of m = image_mset (\<lambda>v. the (m v)) (mset_set (dom m))"

lemma values_of_none: "finite (dom m) \<Longrightarrow> m v = None \<Longrightarrow> values_of (m(v := x)) = (case x of None \<Rightarrow> {#} | Some r \<Rightarrow> {# r #}) + values_of m"
proof (cases x)
  case (Some r)
  assume m: "finite (dom m)" "m v = None"
  have "image_mset (\<lambda>w. the ((m(v \<mapsto> r)) w)) (mset_set (dom m)) = values_of m"
    unfolding values_of_def using m by (intro image_mset_cong) auto
  moreover have "v \<notin> dom m"
    using m(2) by blast
  ultimately show ?thesis
    using Some m(1) by (simp add: values_of_def)
qed (simp add: fun_upd_idem)

lemma values_of_remove:
  assumes "finite (dom m)"
  shows "(case m v of None \<Rightarrow> {#} | Some r \<Rightarrow> {# r #}) + values_of (m(v := None)) = values_of m"
proof (cases "m v")
  case (Some r)
  have "values_of ((m(v := None))(v := Some r)) = {# r #} + values_of (m(v := None))"
    using assms by (subst values_of_none) simp_all
  moreover have "(m(v := None))(v := Some r) = m"
    using Some by (simp add: fun_upd_idem)
  ultimately show ?thesis
    using Some by simp
qed (simp add: fun_upd_idem)

section \<open>Sums of records\<close>

text \<open>A record of counters is summed field by field; the empty rest of a record sums to itself.\<close>

instantiation unit :: comm_monoid_add
begin

definition zero_unit :: unit where
  "zero_unit = ()"

definition plus_unit :: "unit \<Rightarrow> unit \<Rightarrow> unit" where
  "plus_unit a b = ()"

instance
  by standard simp_all

end

section \<open>The queue interface\<close>

text \<open>
  What the scheduler needs of its queues: an invariant, a test for room, and the two operations,
  with the list of queued elements as the abstract value. An operation that is not covered by a
  law (enqueue without room) is free to do anything: the laws are exactly what clients may use.
\<close>

locale fifo_queue =
  fixes inv :: "'q \<Rightarrow> bool"
    and room :: "'q \<Rightarrow> nat"
    and enq :: "'a \<Rightarrow> 'q \<Rightarrow> 'q"
    and deq :: "'q \<Rightarrow> 'a \<times> 'q"
    and contents :: "'q \<Rightarrow> 'a list"
    and none :: 'a
  assumes inv_enq: "inv q \<Longrightarrow> 0 < room q \<Longrightarrow> inv (enq x q)"
    and contents_enq: "inv q \<Longrightarrow> 0 < room q \<Longrightarrow> contents (enq x q) = contents q @ [x]"
    and room_enq: "inv q \<Longrightarrow> 0 < room q \<Longrightarrow> room (enq x q) = room q - 1"
    and inv_deq: "inv q \<Longrightarrow> contents q \<noteq> [] \<Longrightarrow> inv (snd (deq q))"
    and contents_deq: "inv q \<Longrightarrow> contents q \<noteq> [] \<Longrightarrow> contents q = fst (deq q) # contents (snd (deq q))"
    and room_deq: "inv q \<Longrightarrow> contents q \<noteq> [] \<Longrightarrow> room (snd (deq q)) = Suc (room q)"
    and deq_empty: "inv q \<Longrightarrow> contents q = [] \<Longrightarrow> deq q = (none, q)"
begin

lemma fst_deq: "inv q \<Longrightarrow> contents q \<noteq> [] \<Longrightarrow> fst (deq q) = hd (contents q)"
  by (metis contents_deq list.sel(1))

lemma contents_snd_deq: "inv q \<Longrightarrow> contents q \<noteq> [] \<Longrightarrow> contents (snd (deq q)) = tl (contents q)"
  by (metis contents_deq list.sel(3))

lemma enq_list:
  assumes "inv q" and "length xs \<le> room q"
  shows "inv (fold enq xs q) \<and> contents (fold enq xs q) = contents q @ xs
       \<and> room (fold enq xs q) = room q - length xs"
  using assms
proof (induction xs arbitrary: q)
  case Nil
  then show ?case by simp
next
  case (Cons x xs)
  then have "inv (enq x q)" and "length xs \<le> room (enq x q)"
    by (auto simp: inv_enq room_enq)
  from Cons.IH [OF this] Cons.prems show ?case
    by (auto simp: contents_enq room_enq)
qed

lemma deq_list:
  assumes "inv q" and "n \<le> length (contents q)"
  shows "fst (deq_n deq n q) = take n (contents q)
       \<and> contents (snd (deq_n deq n q)) = drop n (contents q)
       \<and> inv (snd (deq_n deq n q))"
  using assms
proof (induction n arbitrary: q)
  case 0
  then show ?case by simp
next
  case (Suc n)
  then have ne: "contents q \<noteq> []"
    by auto
  have c: "contents q = fst (deq q) # contents (snd (deq q))"
    by (rule contents_deq [OF Suc.prems(1) ne])
  have "n \<le> length (contents (snd (deq q)))"
    using Suc.prems(2) c by (metis Suc_le_mono length_Cons)
  from Suc.IH [OF inv_deq [OF Suc.prems(1) ne] this] show ?case
    by (subst c, subst c) (auto simp: split_beta Let_def)
qed

text \<open>Every sequence of calls that keeps within the room behaves as on a list.\<close>

lemma run_ops_list:
  assumes "inv q" and "fits (room q) (length (contents q)) ops"
  shows "fst (run_ops enq deq ops q) = fst (list_ops none ops (contents q))
       \<and> contents (snd (run_ops enq deq ops q)) = snd (list_ops none ops (contents q))
       \<and> inv (snd (run_ops enq deq ops q))"
  using assms
proof (induction ops arbitrary: q)
  case Nil
  then show ?case by simp
next
  case (Cons op ops)
  show ?case
  proof (cases op)
    case (Enqueue x)
    then show ?thesis
      using Cons.prems Cons.IH [of "enq x q"] by (simp add: inv_enq contents_enq room_enq)
  next
    case Dequeue
    show ?thesis
    proof (cases "contents q")
      case Nil
      then show ?thesis
        using Cons.prems Cons.IH [of q] Dequeue by (simp add: deq_empty split_beta)
    next
      case (Cons y ys)
      then have ne: "contents q \<noteq> []"
        by simp
      have "fst (deq q) = y" and "contents (snd (deq q)) = ys"
        using Cons fst_deq [OF Cons.prems(1) ne] contents_snd_deq [OF Cons.prems(1) ne] by simp_all
      then show ?thesis
        using Cons Cons.prems Dequeue Cons.IH [of "snd (deq q)"] inv_deq [OF Cons.prems(1) ne]
          room_deq [OF Cons.prems(1) ne]
        by (simp add: split_beta)
    qed
  qed
qed

text \<open>Whatever is enqueued within the room comes out in order: a full round trip.\<close>

lemma enq_deq_all:
  assumes "inv q" and "contents q = []" and "length xs \<le> room q"
  shows "fst (deq_n deq (length xs) (fold enq xs q)) = xs"
  using enq_list [OF assms(1,3)] deq_list [of "fold enq xs q" "length xs"] assms(2)
  by simp

end

end
