(* ===== verification/Local_Queue.thy ===== *)
theory Local_Queue
  imports Novaio_Prelude
begin

text \<open>
  \<open>LocalQueue\<close> of \<open>include/novaio/concurrent_queues.hpp\<close>: the scheduler's private ring of
  coroutine handles. The cursors are 32-bit counters that are never reduced; they index the
  buffer through the 64-bit mask. \<open>push\<close> has no test for a full ring.
\<close>

section \<open>State and operations\<close>

record local_queue =
  lq_capacity :: u64
  lq_mask :: u64
  lq_head :: u32
  lq_tail :: u32
  lq_buffer :: "handle list"

datatype queue_error = InvalidArgument

definition local_queue_new :: "u64 \<Rightarrow> queue_error + local_queue" where
  "local_queue_new cap =
     (if cap AND (cap - 1) \<noteq> 0 then Inl InvalidArgument
      else Inr \<lparr> lq_capacity = cap, lq_mask = cap - 1, lq_head = 0, lq_tail = 0,
                 lq_buffer = replicate (unat cap) nullptr \<rparr>)"

definition lq_index :: "local_queue \<Rightarrow> u32 \<Rightarrow> nat" where
  "lq_index q c = unat ((ucast c :: u64) AND lq_mask q)"

definition lq_push :: "handle \<Rightarrow> local_queue \<Rightarrow> local_queue" where
  "lq_push item q =
     q\<lparr> lq_buffer := (lq_buffer q)[lq_index q (lq_tail q) := item], lq_tail := lq_tail q + 1 \<rparr>"

definition lq_pop :: "local_queue \<Rightarrow> handle \<times> local_queue" where
  "lq_pop q =
     (if lq_head q = lq_tail q then (nullptr, q)
      else (lq_buffer q ! lq_index q (lq_head q), q\<lparr> lq_head := lq_head q + 1 \<rparr>))"

definition lq_empty :: "local_queue \<Rightarrow> bool" where
  "lq_empty q \<longleftrightarrow> lq_head q = lq_tail q"

section \<open>Invariant and abstract value\<close>

definition lq_size :: "local_queue \<Rightarrow> nat" where
  "lq_size q = unat (lq_tail q - lq_head q)"

definition lq_contents :: "local_queue \<Rightarrow> handle list" where
  "lq_contents q = ring_window (lq_buffer q) (unat (lq_head q)) (lq_size q)"

text \<open>
  The shape part fixes the capacity to a power of two below \<open>2^32\<close> (so that it divides the range
  of the cursors and a full ring is not read as an empty one); the bound says that at most
  \<open>capacity\<close> elements are queued.
\<close>

definition lq_shape :: "nat \<Rightarrow> local_queue \<Rightarrow> bool" where
  "lq_shape k q \<longleftrightarrow> k < 32 \<and> lq_capacity q = 2 ^ k \<and> lq_mask q = 2 ^ k - 1
     \<and> length (lq_buffer q) = 2 ^ k"

definition lq_inv :: "local_queue \<Rightarrow> bool" where
  "lq_inv q \<longleftrightarrow> (\<exists>k. lq_shape k q \<and> lq_size q \<le> 2 ^ k)"

definition lq_room :: "local_queue \<Rightarrow> nat" where
  "lq_room q = length (lq_buffer q) - lq_size q"

lemma lq_shapeD:
  assumes "lq_shape k q"
  shows "k < 32" and "lq_mask q = 2 ^ k - 1" and "length (lq_buffer q) = 2 ^ k"
    and "lq_capacity q = 2 ^ k"
  using assms by (auto simp: lq_shape_def)

lemma pow2_less_2p32: "k < 32 \<Longrightarrow> (2::nat) ^ k < 2 ^ 32"
  by (rule power_strict_increasing) simp_all

lemma lq_index_mod:
  assumes "lq_shape k q"
  shows "lq_index q c = unat c mod 2 ^ k"
proof -
  have "unat ((ucast c :: u64) AND (2 ^ k - 1)) = unat (ucast c :: u64) mod 2 ^ k"
    using lq_shapeD(1) [OF assms] by (intro and_mask_unat) simp
  moreover have "unat (ucast c :: u64) = unat c"
    by (simp add: unat_ucast_up)
  ultimately show ?thesis
    by (simp add: lq_index_def lq_shapeD [OF assms])
qed

text \<open>The mask keeps every access inside the buffer.\<close>

lemma lq_index_bound:
  assumes "lq_shape k q"
  shows "lq_index q c < length (lq_buffer q)"
  by (simp add: lq_index_mod [OF assms] lq_shapeD [OF assms])

lemma lq_tail_index:
  assumes "lq_shape k q"
  shows "unat (lq_tail q) mod 2 ^ k = (unat (lq_head q) + lq_size q) mod 2 ^ k"
proof -
  have "lq_tail q = lq_head q + (lq_tail q - lq_head q)"
    by simp
  then have "unat (lq_tail q) mod 2 ^ k
      = unat (lq_head q + (lq_tail q - lq_head q)) mod 2 ^ k"
    by simp
  also have "\<dots> = (unat (lq_head q) + lq_size q) mod 2 ^ k"
    unfolding lq_size_def
    using lq_shapeD(1) [OF assms] by (intro unat_add_mod_pow2) simp
  finally show ?thesis .
qed

lemma lq_shape_push [simp]: "lq_shape k (lq_push x q) = lq_shape k q"
  by (simp add: lq_shape_def lq_push_def)

lemma lq_shape_pop [simp]: "lq_shape k (snd (lq_pop q)) = lq_shape k q"
  by (simp add: lq_shape_def lq_pop_def)

lemma lq_size_push:
  assumes "lq_shape k q" and "lq_size q \<le> 2 ^ k"
  shows "lq_size (lq_push x q) = Suc (lq_size q)"
proof -
  have "unat (lq_tail q - lq_head q) < Suc (2 ^ k)"
    using assms(2) by (simp add: lq_size_def)
  moreover have "Suc (2 ^ k) < 2 ^ LENGTH(32)"
  proof -
    have "(2::nat) ^ k \<le> 2 ^ 31"
      using lq_shapeD(1) [OF assms(1)] by (intro power_increasing) simp_all
    then show ?thesis by simp
  qed
  ultimately show ?thesis
    unfolding lq_size_def lq_push_def
    by (simp add: unat_diff_Suc_left)
qed

lemma lq_contents_push:
  assumes "lq_shape k q" and "lq_size q < 2 ^ k"
  shows "lq_contents (lq_push x q) = lq_contents q @ [x]"
proof -
  have idx: "lq_index q (lq_tail q)
      = (unat (lq_head q) + lq_size q) mod length (lq_buffer q)"
    by (simp add: lq_index_mod [OF assms(1)] lq_tail_index [OF assms(1)] lq_shapeD [OF assms(1)])
  have size: "lq_size (lq_push x q) = Suc (lq_size q)"
    using assms(1) less_imp_le [OF assms(2)] by (rule lq_size_push)
  have "lq_contents (lq_push x q)
      = ring_window (lq_buffer (lq_push x q)) (unat (lq_head q)) (Suc (lq_size q))"
    by (simp add: lq_contents_def size) (simp add: lq_push_def)
  also have "\<dots> = lq_contents q @ [x]"
    using assms(2) lq_shapeD(3) [OF assms(1)]
      ring_window_push [of "lq_size q" "lq_buffer q" "unat (lq_head q)" x]
    by (simp add: lq_push_def lq_contents_def idx)
  finally show ?thesis .
qed

lemma lq_contents_Nil_iff: "lq_contents q = [] \<longleftrightarrow> lq_empty q"
  by (simp add: lq_contents_def lq_size_def lq_empty_def unat_eq_zero) auto

lemma lq_pop_nonempty:
  assumes "lq_shape k q" and "\<not> lq_empty q"
  shows "lq_contents q = fst (lq_pop q) # lq_contents (snd (lq_pop q))"
    and "Suc (lq_size (snd (lq_pop q))) = lq_size q"
proof -
  have ne: "lq_tail q \<noteq> lq_head q"
    using assms(2) by (auto simp: lq_empty_def)
  have sz: "lq_size (snd (lq_pop q)) = lq_size q - 1" and pos: "0 < lq_size q"
    using unat_diff_Suc_right [OF ne] ne by (auto simp: lq_size_def lq_pop_def)
  then show "Suc (lq_size (snd (lq_pop q))) = lq_size q"
    by simp
  have "lq_contents q
      = lq_buffer q ! (unat (lq_head q) mod length (lq_buffer q))
        # ring_window (lq_buffer q) (Suc (unat (lq_head q))) (lq_size q - 1)"
    using pos ring_window_Suc [of "lq_buffer q" "unat (lq_head q)" "lq_size q - 1"]
    by (simp add: lq_contents_def)
  also have "ring_window (lq_buffer q) (Suc (unat (lq_head q))) (lq_size q - 1)
      = ring_window (lq_buffer q) (unat (lq_head q + 1)) (lq_size q - 1)"
    using lq_shapeD(1,3) [OF assms(1)] unat_Suc_mod_pow2 [of k "lq_head q"]
    by (intro ring_window_cong_mod) simp
  also have "lq_buffer q ! (unat (lq_head q) mod length (lq_buffer q)) = fst (lq_pop q)"
    using ne by (simp add: lq_pop_def lq_index_mod [OF assms(1)] lq_shapeD(3) [OF assms(1)])
  finally show "lq_contents q = fst (lq_pop q) # lq_contents (snd (lq_pop q))"
    using ne sz by (simp add: lq_contents_def lq_pop_def)
qed

section \<open>The queue laws hold\<close>

lemma lq_pop_empty: "lq_contents q = [] \<Longrightarrow> lq_pop q = (nullptr, q)"
  by (simp add: lq_contents_Nil_iff lq_empty_def lq_pop_def)

interpretation lq: fifo_queue lq_inv lq_room lq_push lq_pop lq_contents nullptr
proof (unfold_locales)
  fix q x
  assume inv: "lq_inv q" and room: "0 < lq_room q"
  from inv obtain k where k: "lq_shape k q"
    by (auto simp: lq_inv_def)
  have lt: "lq_size q < 2 ^ k"
    using room k by (simp add: lq_room_def lq_shapeD)
  have size: "lq_size (lq_push x q) = Suc (lq_size q)"
    using k less_imp_le [OF lt] by (rule lq_size_push)
  show "lq_inv (lq_push x q)"
    using k lt by (auto simp: lq_inv_def size intro!: exI [of _ k])
  show "lq_contents (lq_push x q) = lq_contents q @ [x]"
    by (rule lq_contents_push [OF k lt])
  show "lq_room (lq_push x q) = lq_room q - 1"
    using size by (simp add: lq_room_def) (simp add: lq_push_def)
next
  fix q
  assume inv: "lq_inv q" and "lq_contents q \<noteq> []"
  then have ne: "\<not> lq_empty q"
    by (simp add: lq_contents_Nil_iff)
  from inv obtain k where k: "lq_shape k q" and le: "lq_size q \<le> 2 ^ k"
    by (auto simp: lq_inv_def)
  note pop = lq_pop_nonempty [OF k ne]
  show "lq_inv (snd (lq_pop q))"
    using k le pop(2) by (auto simp: lq_inv_def intro!: exI [of _ k])
  show "lq_contents q = fst (lq_pop q) # lq_contents (snd (lq_pop q))"
    by (rule pop(1))
  have "length (lq_buffer (snd (lq_pop q))) = length (lq_buffer q)"
    by (simp add: lq_pop_def)
  then show "lq_room (snd (lq_pop q)) = Suc (lq_room q)"
    using pop(2) le lq_shapeD(3) [OF k] by (simp add: lq_room_def)
qed (rule lq_pop_empty)

section \<open>Construction\<close>

lemma pow2_and_pred:
  assumes "k < LENGTH('a)"
  shows "((2 :: 'a::len word) ^ k) AND (2 ^ k - 1) = 0"
proof -
  have "unat (((2 :: 'a word) ^ k) AND (2 ^ k - 1)) = 0"
    by (simp add: and_mask_unat [OF assms] unat_pow2 [OF assms])
  then show ?thesis
    by (simp add: unat_eq_zero)
qed

lemma local_queue_new_pow2:
  assumes "k < 32"
  shows "\<exists>q. local_queue_new (2 ^ k) = Inr q \<and> lq_shape k q \<and> lq_inv q \<and> lq_contents q = []
     \<and> lq_room q = 2 ^ k"
proof -
  have k64: "k < LENGTH(64)"
    using assms by simp
  have len: "unat ((2 :: u64) ^ k) = 2 ^ k"
    by (rule unat_pow2 [OF k64])
  define q where "q = \<lparr> lq_capacity = 2 ^ k, lq_mask = 2 ^ k - 1, lq_head = 0, lq_tail = 0,
                 lq_buffer = replicate (unat ((2 :: u64) ^ k)) nullptr \<rparr>"
  have "local_queue_new (2 ^ k) = Inr q"
    using pow2_and_pred [OF k64] by (simp add: local_queue_new_def q_def)
  moreover have "lq_shape k q"
    using assms len by (simp add: q_def lq_shape_def)
  moreover have "lq_size q = 0"
    by (simp add: q_def lq_size_def)
  ultimately show ?thesis
    using len by (auto simp: lq_inv_def lq_contents_def lq_room_def q_def)
qed

section \<open>A full ring\<close>

text \<open>
  When the ring is full, \<open>push\<close> overwrites the oldest element: the next \<open>pop\<close> returns the new
  handle, and so does the pop \<open>capacity\<close> pops later, because the cursors are now
  \<open>capacity + 1\<close> apart.
\<close>

lemma lq_push_full_effect:
  assumes "lq_shape k q" and "lq_size q = 2 ^ k"
  shows "lq_size (lq_push x q) = Suc (2 ^ k)"
    and "lq_contents (lq_push x q) = x # tl (lq_contents q) @ [x]"
proof -
  have le: "lq_size q \<le> 2 ^ k"
    using assms(2) by simp
  show size: "lq_size (lq_push x q) = Suc (2 ^ k)"
    using lq_size_push [OF assms(1) le, of x] assms(2) by simp
  let ?h = "unat (lq_head q)" and ?buf = "lq_buffer q"
  have len: "length ?buf = 2 ^ k"
    by (rule lq_shapeD(3) [OF assms(1)])
  have idx: "lq_index q (lq_tail q) = ?h mod 2 ^ k"
    using assms(2) by (simp add: lq_index_mod [OF assms(1)] lq_tail_index [OF assms(1)])
  have buf': "lq_buffer (lq_push x q) = ?buf[?h mod 2 ^ k := x]"
    by (simp add: lq_push_def idx)
  have elem: "?buf[?h mod 2 ^ k := x] ! ((?h + i) mod 2 ^ k)
      = (if i = 0 \<or> i = 2 ^ k then x else ?buf ! ((?h + i) mod 2 ^ k))" if "i \<le> 2 ^ k" for i
  proof (cases "i = 0 \<or> i = 2 ^ k")
    case True
    then show ?thesis using len by auto
  next
    case False
    then have "(?h + 0) mod 2 ^ k \<noteq> (?h + i) mod 2 ^ k"
      using that by (intro ring_index_neq) auto
    then show ?thesis using False by simp
  qed
  show "lq_contents (lq_push x q) = x # tl (lq_contents q) @ [x]"
  proof (rule nth_equalityI)
    show "length (lq_contents (lq_push x q)) = length (x # tl (lq_contents q) @ [x])"
      using assms(2) by (simp add: lq_contents_def size)
  next
    fix i
    assume i: "i < length (lq_contents (lq_push x q))"
    then have i': "i \<le> 2 ^ k"
      by (simp add: lq_contents_def size)
    have "lq_contents (lq_push x q) ! i
        = (if i = 0 \<or> i = 2 ^ k then x else ?buf ! ((?h + i) mod 2 ^ k))"
      using i elem [OF i'] len
      by (simp add: lq_contents_def size nth_ring_window buf') (simp add: lq_push_def)
    also have "\<dots> = (x # tl (lq_contents q) @ [x]) ! i"
      using i' assms(2) len
      by (cases i) (auto simp: lq_contents_def nth_append nth_tl nth_ring_window)
    finally show "lq_contents (lq_push x q) ! i = (x # tl (lq_contents q) @ [x]) ! i" .
  qed
qed

text \<open>Pops on any queue of the right shape, overfull or not.\<close>

lemma lq_pops:
  assumes "j \<le> length (lq_contents p)" and "lq_shape k p"
  shows "fst (deq_n lq_pop j p) = take j (lq_contents p)
      \<and> lq_contents (snd (deq_n lq_pop j p)) = drop j (lq_contents p)
      \<and> lq_shape k (snd (deq_n lq_pop j p))"
  using assms
proof (induction j arbitrary: p)
  case 0
  then show ?case by simp
next
  case (Suc j)
  then have "\<not> lq_empty p"
    using lq_contents_Nil_iff [of p] by auto
  note c = lq_pop_nonempty(1) [OF Suc.prems(2) this]
  have "j \<le> length (lq_contents (snd (lq_pop p)))"
    using Suc.prems(1) c by (metis Suc_le_mono length_Cons)
  with Suc.IH [of "snd (lq_pop p)"] Suc.prems(2) show ?case
    by (subst c, subst c) (auto simp: split_beta Let_def)
qed

section \<open>Properties\<close>

lemma bit_between:
  assumes "2 ^ k \<le> n" and "n < 2 ^ Suc k"
  shows "bit (n::nat) k"
proof -
  have "n div 2 ^ k = 1"
    using assms by (intro div_nat_eqI) (simp_all add: mult.commute)
  then show ?thesis
    by (simp add: bit_iff_odd)
qed

text \<open>The constructors' test accepts exactly the powers of two, and zero.\<close>

lemma pow2_test_iff:
  fixes cap :: "'a::len word"
  shows "cap AND (cap - 1) = 0 \<longleftrightarrow> cap = 0 \<or> (\<exists>k < LENGTH('a). cap = 2 ^ k)"
proof
  assume zero: "cap AND (cap - 1) = 0"
  show "cap = 0 \<or> (\<exists>k < LENGTH('a). cap = 2 ^ k)"
  proof (cases "cap = 0")
    case False
    let ?n = "unat cap"
    have pos: "1 \<le> ?n" and pred: "unat (cap - 1) = ?n - 1"
      using False by (simp_all add: Suc_leI unat_gt_0 unat_minus_one)
    obtain k where k: "2 ^ k \<le> ?n" "?n < 2 ^ Suc k"
      using ex_power_ivl1 [of 2 ?n] pos by auto
    then have "(2::nat) ^ k < 2 ^ LENGTH('a)"
      using unsigned_less [of cap, where 'a = nat] by linarith
    then have klen: "k < LENGTH('a)"
      by simp
    have "?n = 2 ^ k"
    proof (rule ccontr)
      assume "?n \<noteq> 2 ^ k"
      then have "bit ?n k" and "bit (unat (cap - 1)) k"
        using k bit_between [of k ?n] bit_between [of k "?n - 1"] by (auto simp: pred)
      then have "bit (cap AND (cap - 1)) k"
        by (simp add: bit_and_iff bit_unsigned_iff)
      then show False
        by (simp add: zero)
    qed
    then have "cap = 2 ^ k"
      using unat_pow2 [OF klen] by (simp add: word_unat_eq_iff)
    then show ?thesis
      using klen by blast
  qed simp
qed (use pow2_and_pred in auto)

text \<open>
  \<open>LocalQueue\<close>'s constructor rejects every capacity that is neither zero nor a power of two
  and accepts all the others; capacity zero passes although no element can be stored.
\<close>

lemma local_queue_new_accepts:
  "(case local_queue_new cap of
      Inl e \<Rightarrow> e = InvalidArgument \<and> \<not> (cap = 0 \<or> (\<exists>k < 64. cap = 2 ^ k))
    | Inr q \<Rightarrow> (cap = 0 \<or> (\<exists>k < 64. cap = 2 ^ k)) \<and> length (lq_buffer q) = unat cap \<and> lq_empty q)"
  using pow2_test_iff [of cap] by (auto simp: local_queue_new_def lq_empty_def)

text \<open>
  C25: a \<open>LocalQueue\<close> of capacity \<open>2^k\<close> (\<open>k < 32\<close>) behaves as a first-in first-out list, with a
  null handle for a pop from the empty queue, under every sequence of calls that never holds more
  than the capacity; the sequence may be arbitrarily long, so the 32-bit cursors may wrap around.
\<close>

theorem local_queue_fifo:
  assumes "k < 32" and "local_queue_new (2 ^ k) = Inr q" and "fits (2 ^ k) 0 ops"
  shows "fst (run_ops lq_push lq_pop ops q) = fst (list_ops nullptr ops [])
     \<and> lq_contents (snd (run_ops lq_push lq_pop ops q)) = snd (list_ops nullptr ops [])"
proof -
  have "lq_inv q" and "lq_contents q = []" and "lq_room q = 2 ^ k"
    using local_queue_new_pow2 [OF assms(1)] assms(2) by auto
  then show ?thesis
    using lq.run_ops_list [of q ops] assms(3) by simp
qed

definition example_lq :: local_queue where
  "example_lq = \<lparr> lq_capacity = 2, lq_mask = 1, lq_head = 0, lq_tail = 0, lq_buffer = [0, 0] \<rparr>"

lemma example_lq_new: "local_queue_new (2 ^ 1) = Inr example_lq"
  by code_simp

theorem local_queue_fifo_witness:
  "fst (run_ops lq_push lq_pop [Enqueue 5, Dequeue, Enqueue 6, Enqueue 7, Dequeue, Dequeue, Dequeue]
     example_lq) = [5, 6, 7, nullptr]"
  using local_queue_fifo [OF _ example_lq_new,
      of "[Enqueue 5, Dequeue, Enqueue 6, Enqueue 7, Dequeue, Dequeue, Dequeue]"]
  by simp

text \<open>
  \<open>push\<close> does not test for a full ring. With \<open>capacity\<close> handles queued it overwrites the
  oldest of them: that handle is never popped, the new one comes out both first and last.
\<close>

lemma local_queue_push_full:
  assumes "k < 32" and "local_queue_new (2 ^ k) = Inr q" and "length hs = 2 ^ k"
  shows "fst (deq_n lq_pop (2 ^ k) (lq_push h (fold lq_push hs q))) = h # tl hs
     \<and> fst (lq_pop (snd (deq_n lq_pop (2 ^ k) (lq_push h (fold lq_push hs q))))) = h"
proof -
  have start: "lq_inv q" "lq_contents q = []" "lq_room q = 2 ^ k" "lq_shape k q"
    using local_queue_new_pow2 [OF assms(1)] assms(2) by auto
  let ?f = "fold lq_push hs q"
  have full: "lq_contents ?f = hs"
    using lq.enq_list [OF start(1), of hs] start(2,3) assms(3) by simp
  have shape: "lq_shape k (fold lq_push xs q)" for xs
    using start(4) by (induction xs arbitrary: q) simp_all
  have "lq_size ?f = 2 ^ k"
    using full assms(3) by (metis lq_contents_def length_ring_window)
  note over = lq_push_full_effect [OF shape this, of h]
  let ?o = "lq_push h ?f"
  have shape_o: "lq_shape k ?o"
    using shape by simp
  have c: "lq_contents ?o = h # tl hs @ [h]"
    using over(2) full by simp
  have len: "2 ^ k = length (h # tl hs)"
    using assms(3) by (cases hs) auto
  note p = lq_pops [of "2 ^ k" ?o, OF _ shape_o]
  have "fst (deq_n lq_pop (2 ^ k) ?o) = h # tl hs"
    and rest: "lq_contents (snd (deq_n lq_pop (2 ^ k) ?o)) = [h]"
    and sh: "lq_shape k (snd (deq_n lq_pop (2 ^ k) ?o))"
    using p by (simp_all only: c len) simp_all
  moreover have "fst (lq_pop (snd (deq_n lq_pop (2 ^ k) ?o))) = h"
    using lq_pop_nonempty(1) [OF sh] rest by (simp add: lq_contents_Nil_iff [symmetric])
  ultimately show ?thesis
    by blast
qed

lemma local_queue_push_full_instance:
  "fst (deq_n lq_pop 2 (lq_push 9 (fold lq_push [5, 6] example_lq))) = [9, 6]"
  using local_queue_push_full [OF _ example_lq_new, of "[5, 6]" 9] by (simp add: numeral_2_eq_2)

end
