(* ===== verification/Spsc_Queue.thy ===== *)
theory Spsc_Queue
  imports Local_Queue
begin

text \<open>
  \<open>SpscQueue<T>\<close> of \<open>include/novaio/concurrent_queues.hpp\<close>: the bounded ring behind every
  scheduler's inbox. A slot of the buffer is raw storage (\<open>None\<close>) or holds a constructed
  object (\<open>Some x\<close>). The operations are given twice: as whole calls, for the sequential laws,
  and cut into their atomic accesses, for the interleavings of producers and the consumer.
\<close>

section \<open>State and whole operations\<close>

record 'a spsc_queue =
  sq_capacity :: u64
  sq_mask :: u64
  sq_tail :: u64
  sq_head :: u64
  sq_buffer :: "'a option list"

definition spsc_new :: "u64 \<Rightarrow> queue_error + 'a spsc_queue" where
  "spsc_new cap =
     (if cap AND (cap - 1) \<noteq> 0 then Inl InvalidArgument
      else Inr \<lparr> sq_capacity = cap, sq_mask = cap - 1, sq_tail = 0, sq_head = 0,
                 sq_buffer = replicate (unat cap) None \<rparr>)"

definition sq_index :: "'a spsc_queue \<Rightarrow> u64 \<Rightarrow> nat" where
  "sq_index q c = unat (c AND sq_mask q)"

text \<open>The test of \<open>push\<close> for a full ring, on the tail and the head it has loaded.\<close>

definition sq_full :: "'a spsc_queue \<Rightarrow> u64 \<Rightarrow> u64 \<Rightarrow> bool" where
  "sq_full q tail head \<longleftrightarrow> tail + 1 - head > sq_capacity q"

definition spsc_push :: "'a \<Rightarrow> 'a spsc_queue \<Rightarrow> bool \<times> 'a spsc_queue" where
  "spsc_push item q =
     (let tail = sq_tail q; next_tail = tail + 1 in
      if sq_full q tail (sq_head q) then (False, q)
      else (True, q\<lparr> sq_buffer := (sq_buffer q)[sq_index q tail := Some item],
                     sq_tail := next_tail \<rparr>))"

text \<open>
  \<open>pop\<close> returns whether there was an element and the object moved out of the slot; an object
  of \<open>None\<close> with \<open>True\<close> would be a read of raw storage.
\<close>

definition spsc_pop :: "'a spsc_queue \<Rightarrow> (bool \<times> 'a option) \<times> 'a spsc_queue" where
  "spsc_pop q =
     (let head = sq_head q in
      if head = sq_tail q then ((False, None), q)
      else ((True, sq_buffer q ! sq_index q head),
            q\<lparr> sq_buffer := (sq_buffer q)[sq_index q head := None], sq_head := head + 1 \<rparr>))"

text \<open>The destructor: every element still queued is destroyed, then the storage is freed.\<close>

function spsc_destroy :: "'a spsc_queue \<Rightarrow> 'a spsc_queue" where
  "spsc_destroy q =
     (if sq_head q \<noteq> sq_tail q
      then spsc_destroy (q\<lparr> sq_buffer := (sq_buffer q)[sq_index q (sq_head q) := None],
                            sq_head := sq_head q + 1 \<rparr>)
      else q)"
  by pat_completeness auto
termination
proof (relation "measure (\<lambda>q. unat (sq_tail q - sq_head q))")
  fix q :: "'a spsc_queue"
  assume "sq_head q \<noteq> sq_tail q"
  then show "(q\<lparr> sq_buffer := (sq_buffer q)[sq_index q (sq_head q) := None],
                 sq_head := sq_head q + 1 \<rparr>, q)
      \<in> measure (\<lambda>q. unat (sq_tail q - sq_head q))"
    using unat_diff_Suc_right [of "sq_tail q" "sq_head q"] by auto
qed simp

declare spsc_destroy.simps [simp del]

section \<open>Shape, size and the sequential laws\<close>

definition sq_shape :: "nat \<Rightarrow> 'a spsc_queue \<Rightarrow> bool" where
  "sq_shape k q \<longleftrightarrow> k < 64 \<and> sq_capacity q = 2 ^ k \<and> sq_mask q = 2 ^ k - 1
     \<and> length (sq_buffer q) = 2 ^ k"

definition sq_size :: "'a spsc_queue \<Rightarrow> nat" where
  "sq_size q = unat (sq_tail q - sq_head q)"

abbreviation sq_slot :: "'a spsc_queue \<Rightarrow> nat \<Rightarrow> 'a option" where
  "sq_slot q i \<equiv> sq_buffer q ! ((unat (sq_head q) + i) mod length (sq_buffer q))"

lemma sq_shapeD:
  assumes "sq_shape k q"
  shows "k < 64" and "sq_mask q = 2 ^ k - 1" and "length (sq_buffer q) = 2 ^ k"
    and "sq_capacity q = 2 ^ k"
  using assms by (auto simp: sq_shape_def)

lemma sq_index_mod:
  assumes "sq_shape k q"
  shows "sq_index q c = unat c mod 2 ^ k"
  unfolding sq_index_def sq_shapeD(2) [OF assms]
  using sq_shapeD(1) [OF assms] by (intro and_mask_unat) simp

lemma sq_tail_index:
  assumes "sq_shape k q"
  shows "sq_index q (sq_tail q) = (unat (sq_head q) + sq_size q) mod length (sq_buffer q)"
proof -
  have "sq_tail q = sq_head q + (sq_tail q - sq_head q)"
    by simp
  then have "unat (sq_tail q) mod 2 ^ k
      = unat (sq_head q + (sq_tail q - sq_head q)) mod 2 ^ k"
    by simp
  also have "\<dots> = (unat (sq_head q) + sq_size q) mod 2 ^ k"
    unfolding sq_size_def using sq_shapeD(1) [OF assms] by (intro unat_add_mod_pow2) simp
  finally show ?thesis
    by (simp add: sq_index_mod [OF assms] sq_shapeD(3) [OF assms])
qed

lemma sq_head_index:
  "sq_shape k q \<Longrightarrow> sq_index q (sq_head q) = unat (sq_head q) mod length (sq_buffer q)"
  by (simp add: sq_index_mod sq_shapeD(3))

lemma pow2_63: "k < 64 \<Longrightarrow> (2::nat) ^ k \<le> 2 ^ 63"
  by (rule power_increasing) simp_all

text \<open>The test for a full ring is exact while no more than \<open>capacity\<close> elements are queued.\<close>

lemma sq_full_iff:
  assumes "sq_shape k q" and "sq_size q \<le> 2 ^ k"
  shows "sq_full q (sq_tail q) (sq_head q) \<longleftrightarrow> sq_size q = 2 ^ k"
proof -
  have "unat (sq_tail q - sq_head q) < Suc (2 ^ k)" and "Suc (2 ^ k) < 2 ^ LENGTH(64)"
    using assms(2) pow2_63 [OF sq_shapeD(1) [OF assms(1)]] by (simp_all add: sq_size_def)
  then have "unat (sq_tail q + 1 - sq_head q) = Suc (sq_size q)"
    by (simp add: unat_diff_Suc_left sq_size_def)
  moreover have "unat (sq_capacity q) = 2 ^ k"
    using sq_shapeD(1) [OF assms(1)] by (simp add: sq_shapeD(4) [OF assms(1)] unat_pow2)
  ultimately show ?thesis
    using assms(2) by (auto simp: sq_full_def word_less_nat_alt)
qed

lemma sq_size_tail_Suc:
  assumes "sq_shape k q" and "sq_size q \<le> 2 ^ k"
  shows "unat (sq_tail q + 1 - sq_head q) = Suc (sq_size q)"
proof -
  have "unat (sq_tail q - sq_head q) < Suc (2 ^ k)" and "Suc (2 ^ k) < 2 ^ LENGTH(64)"
    using assms(2) pow2_63 [OF sq_shapeD(1) [OF assms(1)]] by (simp_all add: sq_size_def)
  then show ?thesis
    by (simp add: unat_diff_Suc_left sq_size_def)
qed

lemma sq_size_0_iff: "sq_size q = 0 \<longleftrightarrow> sq_head q = sq_tail q"
  by (simp add: sq_size_def unat_eq_zero) auto

lemma sq_size_head_Suc:
  assumes "sq_head q \<noteq> sq_tail q"
  shows "unat (sq_tail q - (sq_head q + 1)) = sq_size q - 1" and "0 < sq_size q"
  using assms unat_diff_Suc_right [of "sq_tail q" "sq_head q"] by (auto simp: sq_size_def)

text \<open>A slot counted from the head, after the head has moved by one.\<close>

lemma sq_slot_head_Suc:
  assumes "sq_shape k q"
  shows "(unat (sq_head q + 1) + i) mod length (sq_buffer q)
       = (unat (sq_head q) + Suc i) mod length (sq_buffer q)"
proof -
  have "unat (sq_head q + 1) mod 2 ^ k = Suc (unat (sq_head q)) mod 2 ^ k"
    using sq_shapeD(1) [OF assms] by (intro unat_Suc_mod_pow2) simp
  then show ?thesis
    unfolding sq_shapeD(3) [OF assms] by (metis add_Suc add_Suc_right mod_add_left_eq)
qed

section \<open>The sequential invariant\<close>

text \<open>
  Exactly the slots between the cursors hold objects, the others are raw storage: no object is
  leaked by \<open>pop\<close>, none is constructed over another by \<open>push\<close>.
\<close>

definition sq_live :: "'a spsc_queue \<Rightarrow> bool" where
  "sq_live q \<longleftrightarrow> (\<forall>i < length (sq_buffer q). (sq_slot q i \<noteq> None) = (i < sq_size q))"

definition sq_inv :: "'a spsc_queue \<Rightarrow> bool" where
  "sq_inv q \<longleftrightarrow> (\<exists>k. sq_shape k q \<and> sq_size q \<le> 2 ^ k) \<and> sq_live q"

definition sq_contents :: "'a spsc_queue \<Rightarrow> 'a list" where
  "sq_contents q = map the (ring_window (sq_buffer q) (unat (sq_head q)) (sq_size q))"

definition sq_room :: "'a spsc_queue \<Rightarrow> nat" where
  "sq_room q = length (sq_buffer q) - sq_size q"

definition spsc_enq :: "'a \<Rightarrow> 'a spsc_queue \<Rightarrow> 'a spsc_queue" where
  "spsc_enq x q = snd (spsc_push x q)"

definition spsc_deq :: "'a spsc_queue \<Rightarrow> 'a \<times> 'a spsc_queue" where
  "spsc_deq q = (the (snd (fst (spsc_pop q))), snd (spsc_pop q))"

lemma sq_invE:
  assumes "sq_inv q"
  obtains k where "sq_shape k q" and "sq_size q \<le> 2 ^ k" and "sq_live q"
  using assms by (auto simp: sq_inv_def)

lemma spsc_push_full:
  assumes "sq_inv q" and "sq_room q = 0"
  shows "spsc_push x q = (False, q)"
proof -
  from assms(1) obtain k where k: "sq_shape k q" and le: "sq_size q \<le> 2 ^ k"
    by (rule sq_invE)
  with assms(2) have "sq_size q = 2 ^ k"
    by (simp add: sq_room_def sq_shapeD)
  then show ?thesis
    by (simp add: spsc_push_def sq_full_iff [OF k le])
qed

lemma sq_size_cong_buffer [simp]: "sq_size (q\<lparr>sq_buffer := b\<rparr>) = sq_size q"
  by (simp add: sq_size_def)

lemma sq_shape_cong:
  "sq_shape k (q\<lparr>sq_buffer := b\<rparr>) \<longleftrightarrow> sq_shape k q"
    if "length b = length (sq_buffer q)" for b
  using that by (simp add: sq_shape_def)

lemma sq_shape_cursor [simp]:
  "sq_shape k (q\<lparr>sq_tail := t\<rparr>) = sq_shape k q"
  "sq_shape k (q\<lparr>sq_head := h\<rparr>) = sq_shape k q"
  by (simp_all add: sq_shape_def)

lemma ring_index_inj:
  assumes "i < (c::nat)" and "j < c" and "(h + i) mod c = (h + j) mod c"
  shows "i = j"
proof (rule ccontr)
  assume "i \<noteq> j"
  then consider "i < j" | "j < i" by linarith
  then show False
    using ring_index_neq [of i j c h] ring_index_neq [of j i c h] assms by cases auto
qed

lemma spsc_push_room:
  assumes k: "sq_shape k q" and lt: "sq_size q < 2 ^ k" and live: "sq_live q"
  shows "fst (spsc_push x q)"
    and "sq_shape k (snd (spsc_push x q))"
    and "sq_size (snd (spsc_push x q)) = Suc (sq_size q)"
    and "sq_live (snd (spsc_push x q))"
    and "sq_contents (snd (spsc_push x q)) = sq_contents q @ [x]"
proof -
  let ?n = "sq_size q" and ?h = "unat (sq_head q)" and ?buf = "sq_buffer q"
  let ?buf' = "?buf[(?h + ?n) mod length ?buf := Some x]"
  have le: "sq_size q \<le> 2 ^ k"
    using lt by (rule less_imp_le)
  have len: "length ?buf = 2 ^ k"
    by (rule sq_shapeD(3) [OF k])
  have push: "spsc_push x q = (True, q\<lparr>sq_buffer := ?buf', sq_tail := sq_tail q + 1\<rparr>)"
    using lt by (simp add: spsc_push_def sq_full_iff [OF k le] sq_tail_index [OF k] Let_def)
  show "fst (spsc_push x q)"
    by (simp add: push)
  show "sq_shape k (snd (spsc_push x q))"
    using k by (simp add: push sq_shape_def)
  show size: "sq_size (snd (spsc_push x q)) = Suc ?n"
    by (simp add: push) (simp add: sq_size_def sq_size_tail_Suc [OF k le, unfolded sq_size_def])
  have slot: "?buf' ! ((?h + i) mod length ?buf)
      = (if i = ?n then Some x else ?buf ! ((?h + i) mod length ?buf))" if "i < length ?buf" for i
    using that lt len ring_index_inj [OF that, of ?n ?h] by (auto simp: nth_list_update)
  show "sq_live (snd (spsc_push x q))"
    using live lt len slot size by (auto simp: sq_live_def push)
  have "ring_window ?buf' ?h (Suc ?n) = ring_window ?buf ?h ?n @ [Some x]"
    using lt len by (intro ring_window_push) simp
  then show "sq_contents (snd (spsc_push x q)) = sq_contents q @ [x]"
    by (simp add: sq_contents_def size) (simp add: push)
qed

lemma spsc_pop_nonempty:
  assumes k: "sq_shape k q" and le: "sq_size q \<le> 2 ^ k" and live: "sq_live q"
    and ne: "sq_head q \<noteq> sq_tail q"
  shows "fst (fst (spsc_pop q))" and "snd (fst (spsc_pop q)) = Some (fst (spsc_deq q))"
    and "sq_shape k (snd (spsc_pop q))"
    and "Suc (sq_size (snd (spsc_pop q))) = sq_size q"
    and "sq_live (snd (spsc_pop q))"
    and "sq_contents q = fst (spsc_deq q) # sq_contents (snd (spsc_pop q))"
proof -
  let ?n = "sq_size q" and ?h = "unat (sq_head q)" and ?buf = "sq_buffer q"
  let ?buf' = "?buf[?h mod length ?buf := None]"
  have len: "length ?buf = 2 ^ k"
    by (rule sq_shapeD(3) [OF k])
  have pop: "spsc_pop q = ((True, ?buf ! (?h mod length ?buf)),
      q\<lparr>sq_buffer := ?buf', sq_head := sq_head q + 1\<rparr>)"
    using ne by (simp add: spsc_pop_def sq_head_index [OF k] Let_def)
  have size: "sq_size (snd (spsc_pop q)) = ?n - 1" and pos: "0 < ?n"
    using sq_size_head_Suc [OF ne] by (simp_all add: pop sq_size_def)
  show "fst (fst (spsc_pop q))"
    by (simp add: pop)
  have "sq_slot q 0 \<noteq> None"
    using live pos len unfolding sq_live_def by (metis zero_less_numeral zero_less_power)
  then show some: "snd (fst (spsc_pop q)) = Some (fst (spsc_deq q))"
    by (simp add: spsc_deq_def pop)
  show "sq_shape k (snd (spsc_pop q))"
    using k by (simp add: pop sq_shape_def)
  show "Suc (sq_size (snd (spsc_pop q))) = sq_size q"
    using size pos by simp
  have slot: "?buf' ! ((unat (sq_head q + 1) + i) mod length ?buf)
      = (if Suc i = length ?buf then None else ?buf ! ((?h + Suc i) mod length ?buf))"
    if "i < length ?buf" for i
  proof (cases "Suc i = length ?buf")
    case True
    then have "(unat (sq_head q + 1) + i) mod length ?buf = ?h mod length ?buf"
      unfolding sq_slot_head_Suc [OF k] by simp
    then show ?thesis
      using True len by simp
  next
    case False
    then have "(?h + 0) mod length ?buf \<noteq> (?h + Suc i) mod length ?buf"
      using that by (intro ring_index_neq) simp_all
    then show ?thesis
      using False by (simp add: sq_slot_head_Suc [OF k])
  qed
  show "sq_live (snd (spsc_pop q))"
    unfolding sq_live_def
  proof (intro allI impI)
    fix i
    assume "i < length (sq_buffer (snd (spsc_pop q)))"
    then have i: "i < length ?buf"
      by (simp add: pop)
    have "sq_slot (snd (spsc_pop q)) i
        = (if Suc i = length ?buf then None else ?buf ! ((?h + Suc i) mod length ?buf))"
      using slot [OF i] by (simp add: pop)
    moreover have "Suc i < length ?buf \<Longrightarrow> (sq_slot q (Suc i) \<noteq> None) = (Suc i < ?n)"
      using live unfolding sq_live_def by blast
    ultimately show "(sq_slot (snd (spsc_pop q)) i \<noteq> None) = (i < sq_size (snd (spsc_pop q)))"
      using i le len size by (cases "Suc i = length ?buf") auto
  qed
  have "ring_window ?buf' (unat (sq_head q + 1)) (?n - 1) = ring_window ?buf (Suc ?h) (?n - 1)"
    using slot pos le len by (auto simp: ring_window_def)
  moreover have "ring_window ?buf ?h ?n
      = ?buf ! (?h mod length ?buf) # ring_window ?buf (Suc ?h) (?n - 1)"
    using pos ring_window_Suc [of ?buf ?h "?n - 1"] by simp
  ultimately show "sq_contents q = fst (spsc_deq q) # sq_contents (snd (spsc_pop q))"
    by (simp add: sq_contents_def size) (simp add: pop spsc_deq_def)
qed

lemma sq_contents_Nil_iff: "sq_contents q = [] \<longleftrightarrow> sq_head q = sq_tail q"
  by (simp add: sq_contents_def sq_size_0_iff)

interpretation sq: fifo_queue sq_inv sq_room spsc_enq spsc_deq sq_contents "the None"
proof (unfold_locales)
  fix q :: "'a spsc_queue" and x
  assume "sq_inv q" and room: "0 < sq_room q"
  then obtain k where k: "sq_shape k q" and live: "sq_live q"
    by (auto elim: sq_invE)
  then have lt: "sq_size q < 2 ^ k"
    using room by (simp add: sq_room_def sq_shapeD)
  note push = spsc_push_room [OF k lt live, of x]
  show "sq_inv (spsc_enq x q)"
    using push lt by (auto simp: sq_inv_def spsc_enq_def intro!: exI [of _ k])
  show "sq_contents (spsc_enq x q) = sq_contents q @ [x]"
    using push by (simp add: spsc_enq_def)
  show "sq_room (spsc_enq x q) = sq_room q - 1"
    using push k sq_shapeD(3) [OF push(2)] by (simp add: sq_room_def spsc_enq_def sq_shapeD(3))
next
  fix q :: "'a spsc_queue"
  assume "sq_inv q" and "sq_contents q \<noteq> []"
  then obtain k where k: "sq_shape k q" and le: "sq_size q \<le> 2 ^ k" and live: "sq_live q"
    and ne: "sq_head q \<noteq> sq_tail q"
    by (auto simp: sq_contents_Nil_iff elim: sq_invE)
  note pop = spsc_pop_nonempty [OF k le live ne]
  show "sq_inv (snd (spsc_deq q))"
    using pop le by (auto simp: sq_inv_def spsc_deq_def intro!: exI [of _ k])
  show "sq_contents q = fst (spsc_deq q) # sq_contents (snd (spsc_deq q))"
    using pop by (simp add: spsc_deq_def)
  show "sq_room (snd (spsc_deq q)) = Suc (sq_room q)"
    using pop le sq_shapeD(3) [OF k] sq_shapeD(3) [OF pop(3)]
    by (simp add: sq_room_def spsc_deq_def)
next
  fix q :: "'a spsc_queue"
  assume "sq_contents q = []"
  then show "spsc_deq q = (the None, q)"
    by (simp add: sq_contents_Nil_iff spsc_deq_def spsc_pop_def)
qed

section \<open>Construction and destruction\<close>

lemma spsc_new_pow2:
  assumes "k < 64"
  shows "\<exists>q :: 'a spsc_queue. spsc_new (2 ^ k) = Inr q \<and> sq_shape k q \<and> sq_inv q
     \<and> sq_contents q = [] \<and> sq_room q = 2 ^ k"
proof -
  have k64: "k < LENGTH(64)"
    using assms by simp
  have len: "unat ((2 :: u64) ^ k) = 2 ^ k"
    by (rule unat_pow2 [OF k64])
  define q :: "'a spsc_queue" where "q = \<lparr> sq_capacity = 2 ^ k, sq_mask = 2 ^ k - 1, sq_tail = 0,
      sq_head = 0, sq_buffer = replicate (unat ((2 :: u64) ^ k)) None \<rparr>"
  have "spsc_new (2 ^ k) = Inr q"
    using pow2_and_pred [OF k64] by (simp add: spsc_new_def q_def)
  moreover have "sq_shape k q"
    using assms len by (simp add: q_def sq_shape_def)
  moreover have "sq_size q = 0"
    by (simp add: q_def sq_size_def)
  moreover have "sq_live q"
    using \<open>sq_size q = 0\<close> by (simp add: sq_live_def) (simp add: q_def len)
  ultimately show ?thesis
    using len by (auto simp: sq_inv_def sq_contents_def sq_room_def q_def)
qed

text \<open>The destructor runs every element's destructor once and leaves only raw storage.\<close>

lemma spsc_destroy_step:
  "sq_head q \<noteq> sq_tail q \<Longrightarrow> spsc_destroy q = spsc_destroy (snd (spsc_pop q))"
  by (subst spsc_destroy.simps) (simp add: spsc_pop_def Let_def)

lemma spsc_destroy_raw:
  "sq_inv q \<Longrightarrow> sq_inv (spsc_destroy q) \<and> sq_contents (spsc_destroy q) = []
     \<and> (\<forall>i < length (sq_buffer q). sq_slot (spsc_destroy q) i = None)"
proof (induction "sq_size q" arbitrary: q)
  case 0
  then have "sq_head q = sq_tail q"
    by (simp add: sq_size_0_iff)
  then have "spsc_destroy q = q"
    by (simp add: spsc_destroy.simps)
  moreover have "\<forall>i < length (sq_buffer q). sq_slot q i = None"
    using "0.prems" "0.hyps" by (auto simp: sq_inv_def sq_live_def)
  ultimately show ?case
    using "0.prems" "0.hyps" by (simp add: sq_contents_def)
next
  case (Suc n)
  then have ne: "sq_head q \<noteq> sq_tail q"
    using sq_size_0_iff [of q] by auto
  from Suc.prems obtain k where k: "sq_shape k q" and le: "sq_size q \<le> 2 ^ k" and live: "sq_live q"
    by (rule sq_invE)
  note pop = spsc_pop_nonempty [OF k le live ne]
  have inv': "sq_inv (snd (spsc_pop q))"
    using pop le by (auto simp: sq_inv_def intro!: exI [of _ k])
  have "n = sq_size (snd (spsc_pop q))"
    using pop(4) Suc.hyps(2) by simp
  from Suc.hyps(1) [OF this inv'] show ?case
    using sq_shapeD(3) [OF k] sq_shapeD(3) [OF pop(3)] by (simp add: spsc_destroy_step [OF ne])
qed

end
