(* ===== verification/Spsc_Concurrent.thy ===== *)
theory Spsc_Concurrent
  imports Spsc_Queue
begin

text \<open>
  The interleavings of \<open>SpscQueue::push\<close> and \<open>pop\<close>. Each call is cut at its accesses to shared
  memory (the two cursors and the slots); a system state holds the queue, what every producer
  and the consumer have loaded so far, and three histories: what was pushed (in the order of the
  tail stores), what was taken, what was rejected. Steps interleave freely. Atomic accesses are
  sequentially consistent here: these interleavings are among the executions the C++ program has, which
  is what the theorem on two producers needs. \<open>Spsc_Weak\<close> shows the same of one producer and one consumer
  on a memory with release and acquire, where a load may see an old store.
\<close>

section \<open>Atomic steps\<close>

datatype 'a producer_pc =
    PIdle
  | PHasTail 'a u64     \<comment> \<open>\<open>tail_\<close> loaded\<close>
  | PHasRoom 'a u64     \<comment> \<open>\<open>head_\<close> loaded, the ring was not full\<close>
  | PWritten 'a u64     \<comment> \<open>object constructed in the slot\<close>

datatype consumer_pc =
    CIdle
  | CHasHead u64        \<comment> \<open>\<open>head_\<close> loaded\<close>
  | CNonEmpty u64       \<comment> \<open>\<open>tail_\<close> loaded, the ring was not empty\<close>
  | CTaken u64          \<comment> \<open>object moved out and destroyed\<close>

record 'a spsc_sys =
  sys_q :: "'a spsc_queue"
  producer_at :: "nat \<Rightarrow> 'a producer_pc"
  consumer_at :: consumer_pc
  pushed :: "'a list"
  taken :: "'a list"
  rejected :: "'a list"
  raw_access :: bool    \<comment> \<open>an object was constructed over a live one, or raw storage was read\<close>

definition spsc_init :: "'a spsc_queue \<Rightarrow> 'a spsc_sys" where
  "spsc_init q = \<lparr> sys_q = q, producer_at = (\<lambda>_. PIdle), consumer_at = CIdle, pushed = [], taken = [],
     rejected = [], raw_access = False \<rparr>"

text \<open>The next access of producer \<open>i\<close>; an idle producer starts \<open>push(x)\<close>.\<close>

definition producer_step :: "'a \<Rightarrow> nat \<Rightarrow> 'a spsc_sys \<Rightarrow> 'a spsc_sys" where
  "producer_step x i s =
     (let q = sys_q s in
      case producer_at s i of
        PIdle \<Rightarrow> s\<lparr> producer_at := (producer_at s)(i := PHasTail x (sq_tail q)) \<rparr>
      | PHasTail y t \<Rightarrow>
          (if sq_full q t (sq_head q)
           then s\<lparr> producer_at := (producer_at s)(i := PIdle), rejected := rejected s @ [y] \<rparr>
           else s\<lparr> producer_at := (producer_at s)(i := PHasRoom y t) \<rparr>)
      | PHasRoom y t \<Rightarrow>
          s\<lparr> sys_q := q\<lparr> sq_buffer := (sq_buffer q)[sq_index q t := Some y] \<rparr>,
             producer_at := (producer_at s)(i := PWritten y t),
             raw_access := (raw_access s \<or> sq_buffer q ! sq_index q t \<noteq> None) \<rparr>
      | PWritten y t \<Rightarrow>
          s\<lparr> sys_q := q\<lparr> sq_tail := t + 1 \<rparr>, producer_at := (producer_at s)(i := PIdle),
             pushed := pushed s @ [y] \<rparr>)"

definition consumer_step :: "'a spsc_sys \<Rightarrow> 'a spsc_sys" where
  "consumer_step s =
     (let q = sys_q s in
      case consumer_at s of
        CIdle \<Rightarrow> s\<lparr> consumer_at := CHasHead (sq_head q) \<rparr>
      | CHasHead h \<Rightarrow>
          (if h = sq_tail q then s\<lparr> consumer_at := CIdle \<rparr> else s\<lparr> consumer_at := CNonEmpty h \<rparr>)
      | CNonEmpty h \<Rightarrow>
          s\<lparr> sys_q := q\<lparr> sq_buffer := (sq_buffer q)[sq_index q h := None] \<rparr>,
             consumer_at := CTaken h,
             taken := (case sq_buffer q ! sq_index q h of None \<Rightarrow> taken s | Some y \<Rightarrow> taken s @ [y]),
             raw_access := (raw_access s \<or> sq_buffer q ! sq_index q h = None) \<rparr>
      | CTaken h \<Rightarrow> s\<lparr> sys_q := q\<lparr> sq_head := h + 1 \<rparr>, consumer_at := CIdle \<rparr>)"

text \<open>\<open>spsc_reach P q s\<close>: some interleaving of the producers in \<open>P\<close> and the consumer leads
  from the queue \<open>q\<close> to \<open>s\<close>.\<close>

inductive spsc_reach :: "nat set \<Rightarrow> 'a spsc_queue \<Rightarrow> 'a spsc_sys \<Rightarrow> bool"
  for P :: "nat set" and q0 :: "'a spsc_queue" where
  start: "spsc_reach P q0 (spsc_init q0)"
| producer: "spsc_reach P q0 s \<Longrightarrow> i \<in> P \<Longrightarrow> spsc_reach P q0 (producer_step x i s)"
| consumer: "spsc_reach P q0 s \<Longrightarrow> spsc_reach P q0 (consumer_step s)"

text \<open>A schedule run from left to right, for concrete executions.\<close>

datatype 'a spsc_event = Producer nat 'a | Consumer

fun spsc_run :: "'a spsc_event list \<Rightarrow> 'a spsc_sys \<Rightarrow> 'a spsc_sys" where
  "spsc_run [] s = s"
| "spsc_run (Producer i x # es) s = spsc_run es (producer_step x i s)"
| "spsc_run (Consumer # es) s = spsc_run es (consumer_step s)"

fun event_in :: "nat set \<Rightarrow> 'a spsc_event \<Rightarrow> bool" where
  "event_in P (Producer i x) \<longleftrightarrow> i \<in> P"
| "event_in P Consumer \<longleftrightarrow> True"

lemma spsc_run_reach:
  "spsc_reach P q0 s \<Longrightarrow> list_all (event_in P) es \<Longrightarrow> spsc_reach P q0 (spsc_run es s)"
proof (induction es arbitrary: s)
  case Nil
  then show ?case by simp
next
  case (Cons e es)
  then show ?case
    by (cases e) (auto intro: spsc_reach.intros)
qed

section \<open>The invariant of one producer and one consumer\<close>

text \<open>The number of slots the consumer has already emptied without moving \<open>head_\<close>, and the
  object the producer has constructed without moving \<open>tail_\<close>.\<close>

fun emptied_pc :: "consumer_pc \<Rightarrow> nat" where
  "emptied_pc (CTaken _) = 1"
| "emptied_pc _ = 0"

fun written_pc :: "'a producer_pc \<Rightarrow> 'a option" where
  "written_pc (PWritten x _) = Some x"
| "written_pc _ = None"

abbreviation emptied :: "'a spsc_sys \<Rightarrow> nat" where
  "emptied s \<equiv> emptied_pc (consumer_at s)"

text \<open>What slot \<open>i\<close>, counted from the head, holds: the elements queued and not yet taken, then
  the one the producer has constructed and not yet published.\<close>

definition slot_spec :: "'a spsc_sys \<Rightarrow> nat \<Rightarrow> 'a option" where
  "slot_spec s i =
     (if i < emptied s then None
      else if i < sq_size (sys_q s) then Some (pushed s ! (length (taken s) + i - emptied s))
      else if i = sq_size (sys_q s) then written_pc (producer_at s 0)
      else None)"

text \<open>What a producer and the consumer have loaded is still true of the queue, given its tail
  (for the consumer: its head), its size and its capacity.\<close>

fun producer_pc_ok :: "nat \<Rightarrow> 'a producer_pc \<Rightarrow> u64 \<Rightarrow> nat \<Rightarrow> bool" where
  "producer_pc_ok cap PIdle t0 n \<longleftrightarrow> True"
| "producer_pc_ok cap (PHasTail x t) t0 n \<longleftrightarrow> t = t0"
| "producer_pc_ok cap (PHasRoom x t) t0 n \<longleftrightarrow> t = t0 \<and> n < cap"
| "producer_pc_ok cap (PWritten x t) t0 n \<longleftrightarrow> t = t0 \<and> n < cap"

fun consumer_pc_ok :: "consumer_pc \<Rightarrow> u64 \<Rightarrow> nat \<Rightarrow> bool" where
  "consumer_pc_ok CIdle h0 n \<longleftrightarrow> True"
| "consumer_pc_ok (CHasHead h) h0 n \<longleftrightarrow> h = h0"
| "consumer_pc_ok (CNonEmpty h) h0 n \<longleftrightarrow> h = h0 \<and> 0 < n"
| "consumer_pc_ok (CTaken h) h0 n \<longleftrightarrow> h = h0 \<and> 0 < n"

abbreviation producer_ok :: "nat \<Rightarrow> 'a spsc_sys \<Rightarrow> bool" where
  "producer_ok k s \<equiv> producer_pc_ok (2 ^ k) (producer_at s 0) (sq_tail (sys_q s)) (sq_size (sys_q s))"

abbreviation consumer_ok :: "'a spsc_sys \<Rightarrow> bool" where
  "consumer_ok s \<equiv> consumer_pc_ok (consumer_at s) (sq_head (sys_q s)) (sq_size (sys_q s))"

lemma producer_pc_ok_shrink:
  "producer_pc_ok cap pc t n \<Longrightarrow> m \<le> n \<Longrightarrow> producer_pc_ok cap pc t m"
  by (cases pc) auto

lemma producer_pc_ok_full: "producer_pc_ok cap pc t cap \<Longrightarrow> written_pc pc = None"
  by (cases pc) auto

lemma consumer_pc_ok_grow:
  "consumer_pc_ok pc h n \<Longrightarrow> n \<le> m \<Longrightarrow> consumer_pc_ok pc h m"
  by (cases pc) auto

lemma emptied_pc_le: "consumer_pc_ok pc h n \<Longrightarrow> emptied_pc pc \<le> n"
  by (cases pc) auto

definition spsc_sys_inv :: "nat \<Rightarrow> 'a spsc_sys \<Rightarrow> bool" where
  "spsc_sys_inv k s \<longleftrightarrow>
     sq_shape k (sys_q s) \<and> sq_size (sys_q s) \<le> 2 ^ k \<and> producer_ok k s \<and> consumer_ok s
     \<and> (\<forall>i < 2 ^ k. sq_slot (sys_q s) i = slot_spec s i)
     \<and> length (pushed s) = length (taken s) + sq_size (sys_q s) - emptied s
     \<and> taken s = take (length (taken s)) (pushed s)
     \<and> \<not> raw_access s"

lemma spsc_sys_inv_init:
  assumes "sq_shape k q" and "sq_inv q" and "sq_contents q = []"
  shows "spsc_sys_inv k (spsc_init q)"
proof -
  have size: "sq_size q = 0"
    using assms(3) by (simp add: sq_contents_def)
  have "\<forall>i < 2 ^ k. sq_slot q i = None"
    using assms(1,2) size by (auto simp: sq_inv_def sq_live_def sq_shapeD)
  then show ?thesis
    using assms(1) size
    by (simp add: spsc_sys_inv_def spsc_init_def
        slot_spec_def)
qed

text \<open>The queue after the two slot writes and the two cursor stores.\<close>

lemma slot_write_at:
  assumes "sq_shape k q" and "j < 2 ^ k"
    and "idx = (unat (sq_head q) + j) mod length (sq_buffer q)" and "i < 2 ^ k"
  shows "(sq_buffer q)[idx := v] ! ((unat (sq_head q) + i) mod length (sq_buffer q))
       = (if i = j then v else sq_slot q i)"
  using assms ring_index_inj [of i "2 ^ k" j "unat (sq_head q)"]
  by (auto simp: sq_shapeD(3) nth_list_update)

lemma producer_write_inv:
  assumes inv: "spsc_sys_inv k s" and pc: "producer_at s 0 = PHasRoom y t"
  shows "spsc_sys_inv k (producer_step x 0 s)"
proof -
  let ?q = "sys_q s" and ?n = "sq_size (sys_q s)"
  from inv pc have k: "sq_shape k ?q" and t: "t = sq_tail ?q" and lt: "?n < 2 ^ k"
    and slots: "\<And>i. i < 2 ^ k \<Longrightarrow> sq_slot ?q i = slot_spec s i" and cok: "consumer_ok s"
    by (auto simp: spsc_sys_inv_def)
  have em: "emptied s \<le> ?n"
    using cok by (rule emptied_pc_le)
  have idx: "sq_index ?q t = (unat (sq_head ?q) + ?n) mod length (sq_buffer ?q)"
    using t sq_tail_index [OF k] by simp
  have free: "sq_buffer ?q ! sq_index ?q t = None"
    using slots [OF lt] em pc by (simp add: idx slot_spec_def)
  let ?s' = "producer_step x 0 s"
  have s': "?s' = s\<lparr> sys_q := ?q\<lparr> sq_buffer := (sq_buffer ?q)[sq_index ?q t := Some y] \<rparr>,
      producer_at := (producer_at s)(0 := PWritten y t) \<rparr>"
    using free by (simp add: producer_step_def pc Let_def)
  have "sq_slot (sys_q ?s') i = slot_spec ?s' i" if i: "i < 2 ^ k" for i
  proof -
    have "sq_slot (sys_q ?s') i = (if i = ?n then Some y else slot_spec s i)"
      using slot_write_at [OF k lt idx i, of "Some y"] slots [OF i] by (simp add: s')
    also have "\<dots> = slot_spec ?s' i"
      using em pc by (auto simp: slot_spec_def s' split: consumer_pc.splits)
    finally show ?thesis .
  qed
  moreover have "sq_shape k (sys_q ?s')"
    using k by (simp add: s' sq_shape_def)
  ultimately show ?thesis
    using inv t lt
    by (auto simp: spsc_sys_inv_def s')
qed

lemma producer_publish_inv:
  assumes inv: "spsc_sys_inv k s" and pc: "producer_at s 0 = PWritten y t"
  shows "spsc_sys_inv k (producer_step x 0 s)"
proof -
  let ?q = "sys_q s" and ?n = "sq_size (sys_q s)"
  from inv pc have k: "sq_shape k ?q" and t: "t = sq_tail ?q" and lt: "?n < 2 ^ k"
    and slots: "\<And>i. i < 2 ^ k \<Longrightarrow> sq_slot ?q i = slot_spec s i" and cok: "consumer_ok s"
    and len: "length (pushed s) = length (taken s) + ?n - emptied s"
    and pre: "taken s = take (length (taken s)) (pushed s)" and ok: "\<not> raw_access s"
    by (auto simp: spsc_sys_inv_def)
  have em: "emptied s \<le> ?n"
    using cok by (rule emptied_pc_le)
  let ?s' = "producer_step x 0 s"
  have s': "?s' = s\<lparr> sys_q := ?q\<lparr> sq_tail := t + 1 \<rparr>, producer_at := (producer_at s)(0 := PIdle),
      pushed := pushed s @ [y] \<rparr>"
    by (simp add: producer_step_def pc Let_def)
  have size: "sq_size (sys_q ?s') = Suc ?n"
    using sq_size_tail_Suc [OF k less_imp_le [OF lt]] t by (simp add: s') (simp add: sq_size_def)
  have em': "emptied ?s' = emptied s"
    by (simp add: s')
  have "sq_slot (sys_q ?s') i = slot_spec ?s' i" if i: "i < 2 ^ k" for i
  proof -
    have "sq_slot (sys_q ?s') i = slot_spec s i"
      using slots [OF i] by (simp add: s')
    also have "\<dots> = slot_spec ?s' i"
      using em len pc size em' by (auto simp: slot_spec_def s' nth_append)
    finally show ?thesis .
  qed
  moreover have "sq_shape k (sys_q ?s')"
    using k by (simp add: s')
  moreover have "consumer_ok ?s'"
    using cok size by (simp add: s' consumer_pc_ok_grow)
  moreover have "producer_ok k ?s'"
    by (simp add: s')
  moreover have "length (pushed ?s') = length (taken ?s') + sq_size (sys_q ?s') - emptied ?s'"
    using len em size em' by (simp add: s')
  moreover have "taken ?s' = take (length (taken ?s')) (pushed ?s')"
    using pre len em by (simp add: s')
  ultimately show ?thesis
    using lt size ok by (simp add: spsc_sys_inv_def) (simp add: s')
qed

lemma producer_step_inv:
  assumes inv: "spsc_sys_inv k s"
  shows "spsc_sys_inv k (producer_step x 0 s)"
proof (cases "producer_at s 0")
  case PIdle
  then show ?thesis
    using inv by (auto simp: spsc_sys_inv_def producer_step_def
        slot_spec_def Let_def)
next
  case (PHasTail y t)
  then show ?thesis
    using inv sq_full_iff [of k "sys_q s"]
    by (auto simp: spsc_sys_inv_def producer_step_def
        slot_spec_def Let_def)
next
  case (PHasRoom y t)
  then show ?thesis
    by (rule producer_write_inv [OF inv])
next
  case (PWritten y t)
  then show ?thesis
    by (rule producer_publish_inv [OF inv])
qed

lemma consumer_take_inv:
  assumes inv: "spsc_sys_inv k s" and pc: "consumer_at s = CNonEmpty h"
  shows "spsc_sys_inv k (consumer_step s)"
    and "taken (consumer_step s) = taken s @ [pushed s ! length (taken s)]"
proof -
  let ?q = "sys_q s" and ?n = "sq_size (sys_q s)"
  from inv pc have k: "sq_shape k ?q" and h: "h = sq_head ?q" and pos: "0 < ?n"
    and le: "?n \<le> 2 ^ k"
    and slots: "\<And>i. i < 2 ^ k \<Longrightarrow> sq_slot ?q i = slot_spec s i"
    and len: "length (pushed s) = length (taken s) + ?n"
    and pre: "taken s = take (length (taken s)) (pushed s)" and ok: "\<not> raw_access s"
    by (auto simp: spsc_sys_inv_def)
  let ?y = "pushed s ! length (taken s)"
  have idx: "sq_index ?q h = (unat (sq_head ?q) + 0) mod length (sq_buffer ?q)"
    using h sq_head_index [OF k] by simp
  have zero: "0 < (2::nat) ^ k"
    by simp
  have elem: "sq_buffer ?q ! sq_index ?q h = Some ?y"
    using slots [OF zero] pos pc unfolding idx by (simp add: slot_spec_def)
  let ?s' = "consumer_step s"
  have s': "?s' = s\<lparr> sys_q := ?q\<lparr> sq_buffer := (sq_buffer ?q)[sq_index ?q h := None] \<rparr>,
      consumer_at := CTaken h, taken := taken s @ [?y] \<rparr>"
    using elem ok by (simp add: consumer_step_def pc Let_def)
  show "taken ?s' = taken s @ [?y]"
    by (simp add: s')
  have "sq_slot (sys_q ?s') i = slot_spec ?s' i" if i: "i < 2 ^ k" for i
  proof -
    have "sq_slot (sys_q ?s') i = (if i = 0 then None else slot_spec s i)"
      using slot_write_at [OF k zero idx i, of None] slots [OF i] by (simp add: s')
    also have "\<dots> = slot_spec ?s' i"
      using pos pc by (auto simp: slot_spec_def s')
    finally show ?thesis .
  qed
  moreover have "sq_shape k (sys_q ?s')"
    using k by (simp add: s' sq_shape_def)
  moreover have "take (Suc (length (taken s))) (pushed s) = taken s @ [?y]"
    using len pos pre by (simp add: take_Suc_conv_app_nth)
  moreover have "emptied s = 0" and "emptied ?s' = 1"
    by (simp_all add: pc s')
  ultimately show "spsc_sys_inv k ?s'"
    using inv len h pos le ok
    by (auto simp: spsc_sys_inv_def s' split: producer_pc.splits)
qed

lemma consumer_publish_inv:
  assumes inv: "spsc_sys_inv k s" and pc: "consumer_at s = CTaken h"
  shows "spsc_sys_inv k (consumer_step s)"
proof -
  let ?q = "sys_q s" and ?n = "sq_size (sys_q s)"
  from inv pc have k: "sq_shape k ?q" and h: "h = sq_head ?q" and pos: "0 < ?n"
    and le: "?n \<le> 2 ^ k" and pok: "producer_ok k s"
    and slots: "\<And>i. i < 2 ^ k \<Longrightarrow> sq_slot ?q i = slot_spec s i"
    and len: "length (pushed s) = length (taken s) + ?n - 1"
    and pre: "taken s = take (length (taken s)) (pushed s)" and ok: "\<not> raw_access s"
    by (auto simp: spsc_sys_inv_def)
  let ?s' = "consumer_step s"
  have s': "?s' = s\<lparr> sys_q := ?q\<lparr> sq_head := h + 1 \<rparr>, consumer_at := CIdle \<rparr>"
    by (simp add: consumer_step_def pc Let_def)
  have ne: "sq_head ?q \<noteq> sq_tail ?q"
    using pos sq_size_0_iff [of ?q] by auto
  have size: "sq_size (sys_q ?s') = ?n - 1"
    using sq_size_head_Suc [OF ne] h by (simp add: s') (simp add: sq_size_def)
  have em: "emptied s = 1" and em': "emptied ?s' = 0"
    by (simp_all add: pc s')
  have "sq_slot (sys_q ?s') i = slot_spec ?s' i" if i: "i < 2 ^ k" for i
  proof -
    have eq: "sq_slot (sys_q ?s') i
        = sq_buffer ?q ! ((unat (sq_head ?q) + Suc i) mod length (sq_buffer ?q))"
      using sq_slot_head_Suc [OF k, of i] h by (simp add: s')
    show ?thesis
    proof (cases "Suc i < 2 ^ k")
      case True
      then have "sq_slot (sys_q ?s') i = slot_spec s (Suc i)"
        using slots [OF True] eq by simp
      also have "\<dots> = slot_spec ?s' i"
        using pos size em em' pok by (auto simp: slot_spec_def s')
      finally show ?thesis .
    next
      case False
      then have "Suc i = 2 ^ k"
        using i by simp
      then have "sq_slot (sys_q ?s') i = sq_slot ?q 0"
        unfolding eq using sq_shapeD(3) [OF k] by simp
      also have "\<dots> = None"
        using slots [of 0] em by (simp add: slot_spec_def)
      also have "\<dots> = slot_spec ?s' i"
        using \<open>Suc i = 2 ^ k\<close> pos size le pok producer_pc_ok_full [of "2 ^ k" "producer_at s 0"]
        by (auto simp: slot_spec_def s' em')
      finally show ?thesis .
    qed
  qed
  moreover have "sq_shape k (sys_q ?s')"
    using k by (simp add: s')
  moreover have "producer_ok k ?s'"
    using producer_pc_ok_shrink [OF pok, of "?n - 1"] size by (simp add: s')
  moreover have "consumer_ok ?s'"
    by (simp add: s')
  ultimately show ?thesis
    using size le len pos em em' pre ok by (simp add: spsc_sys_inv_def) (simp add: s')
qed

lemma consumer_step_inv:
  assumes inv: "spsc_sys_inv k s"
  shows "spsc_sys_inv k (consumer_step s)"
proof (cases "consumer_at s")
  case CIdle
  then show ?thesis
    using inv by (auto simp: spsc_sys_inv_def consumer_step_def
        slot_spec_def Let_def split: producer_pc.splits)
next
  case (CHasHead h)
  then show ?thesis
    using inv sq_size_0_iff [of "sys_q s"]
    by (auto simp: spsc_sys_inv_def consumer_step_def
        slot_spec_def Let_def split: producer_pc.splits)
next
  case (CNonEmpty h)
  then show ?thesis
    by (rule consumer_take_inv(1) [OF inv])
next
  case (CTaken h)
  then show ?thesis
    by (rule consumer_publish_inv [OF inv])
qed

lemma spsc_reach_inv:
  assumes "spsc_reach {0} q0 s" and "sq_shape k q0" and "sq_inv q0" and "sq_contents q0 = []"
  shows "spsc_sys_inv k s"
  using assms(1)
proof (induction rule: spsc_reach.induct)
  case start
  show ?case by (rule spsc_sys_inv_init [OF assms(2-4)])
next
  case (producer s i x)
  then show ?case by (simp add: producer_step_inv)
next
  case (consumer s)
  then show ?case by (simp add: consumer_step_inv)
qed

section \<open>Properties\<close>

lemma spsc_new_Inr:
  fixes q0 :: "'a spsc_queue"
  assumes "spsc_new (2 ^ k) = Inr q0" and "k < 64"
  shows "sq_shape k q0" and "sq_inv q0" and "sq_contents q0 = []"
  using spsc_new_pow2 [OF assms(2), where 'a = 'a] assms(1) by auto

lemma spsc_sys_inv_fifo:
  assumes "spsc_sys_inv k s"
  shows "\<exists>queued. pushed s = taken s @ queued \<and> length queued \<le> 2 ^ k \<and> \<not> raw_access s"
proof -
  let ?m = "length (taken s)"
  have "pushed s = take ?m (pushed s) @ drop ?m (pushed s)"
    by simp
  with assms have "pushed s = taken s @ drop ?m (pushed s)"
    by (simp add: spsc_sys_inv_def)
  moreover have "length (drop ?m (pushed s)) \<le> 2 ^ k"
    using assms by (auto simp: spsc_sys_inv_def)
  ultimately show ?thesis
    using assms by (auto simp: spsc_sys_inv_def)
qed

text \<open>In every interleaving of one producer and one consumer over a freshly constructed
  \<open>SpscQueue\<close>, the objects taken are exactly the objects pushed, in order and once each, at most
  \<open>capacity\<close> of them are in transit, and neither side ever touches a slot the other one owns
  (no object is overwritten, no raw storage is read).\<close>

lemma spsc_single_producer_fifo:
  assumes "spsc_new (2 ^ k) = Inr q0" and "k < 64" and "spsc_reach {0} q0 s"
  shows "\<exists>queued. pushed s = taken s @ queued \<and> length queued \<le> 2 ^ k \<and> \<not> raw_access s"
  by (rule spsc_sys_inv_fifo [OF spsc_reach_inv [OF assms(3) spsc_new_Inr [OF assms(1,2)]]])

definition example_queue :: "nat spsc_queue" where
  "example_queue = \<lparr> sq_capacity = 2, sq_mask = 1, sq_tail = 0, sq_head = 0,
     sq_buffer = [None, None] \<rparr>"

lemma example_queue_new: "spsc_new (2 ^ 1) = Inr example_queue"
  by code_simp

definition example_single :: "nat spsc_event list" where
  "example_single = [Producer 0 5, Producer 0 5, Consumer, Producer 0 5, Producer 0 5,
     Producer 0 7, Consumer, Producer 0 7, Consumer, Producer 0 7, Consumer]"

lemmas spsc_eval = spsc_init_def example_queue_def producer_step_def consumer_step_def Let_def
  sq_index_def sq_full_def

lemma example_single_run:
  "taken (spsc_run example_single (spsc_init example_queue)) = [5]"
  by (simp add: example_single_def spsc_eval)

lemma spsc_single_producer_fifo_instance:
  "taken (spsc_run example_single (spsc_init example_queue)) = [5]
   \<and> (\<exists>queued. pushed (spsc_run example_single (spsc_init example_queue))
       = taken (spsc_run example_single (spsc_init example_queue)) @ queued
     \<and> length queued \<le> 2 ^ 1
     \<and> \<not> raw_access (spsc_run example_single (spsc_init example_queue)))"
proof (intro conjI)
  have reach: "spsc_reach {0} example_queue (spsc_run example_single (spsc_init example_queue))"
    by (rule spsc_run_reach [OF spsc_reach.start]) (simp add: example_single_def)
  show "\<exists>queued. pushed (spsc_run example_single (spsc_init example_queue))
       = taken (spsc_run example_single (spsc_init example_queue)) @ queued
     \<and> length queued \<le> 2 ^ 1
     \<and> \<not> raw_access (spsc_run example_single (spsc_init example_queue))"
    by (rule spsc_single_producer_fifo [OF example_queue_new _ reach]) simp
qed (rule example_single_run)

text \<open>A producer's \<open>push\<close> is rejected exactly when the ring holds \<open>capacity\<close> elements at
  the moment it loads \<open>head_\<close>: no spurious rejection, and no acceptance that would overwrite.\<close>

lemma spsc_push_rejects_iff_full:
  assumes "spsc_new (2 ^ k) = Inr q0" and "k < 64" and "spsc_reach {0} q0 s"
    and "producer_at s 0 = PHasTail y t"
  shows "rejected (producer_step x 0 s) = rejected s @ [y] \<longleftrightarrow> sq_size (sys_q s) = 2 ^ k"
proof -
  have "spsc_sys_inv k s"
    by (rule spsc_reach_inv [OF assms(3) spsc_new_Inr [OF assms(1,2)]])
  then have "sq_full (sys_q s) t (sq_head (sys_q s)) \<longleftrightarrow> sq_size (sys_q s) = 2 ^ k"
    using assms(4) sq_full_iff [of k "sys_q s"] by (simp add: spsc_sys_inv_def)
  then show ?thesis
    using assms(4) by (simp add: producer_step_def Let_def)
qed

definition example_fill :: "nat spsc_event list" where
  "example_fill = [Producer 0 5, Producer 0 5, Producer 0 5, Producer 0 5, Producer 0 5,
     Producer 0 5, Producer 0 5, Producer 0 5, Producer 0 5]"

lemma example_fill_run:
  "producer_at (spsc_run example_fill (spsc_init example_queue)) 0 = PHasTail 5 2
   \<and> sq_size (sys_q (spsc_run example_fill (spsc_init example_queue))) = 2"
  by (simp add: example_fill_def spsc_eval sq_size_def)

lemma spsc_push_rejects_iff_full_instance:
  "rejected (producer_step 6 0 (spsc_run example_fill (spsc_init example_queue)))
     = rejected (spsc_run example_fill (spsc_init example_queue)) @ [5]"
proof -
  let ?s = "spsc_run example_fill (spsc_init example_queue)"
  have reach: "spsc_reach {0} example_queue ?s"
    by (rule spsc_run_reach [OF spsc_reach.start]) (simp add: example_fill_def)
  have pc: "producer_at ?s 0 = PHasTail 5 2"
    using example_fill_run by simp
  show ?thesis
    using spsc_push_rejects_iff_full [OF example_queue_new _ reach pc, of 6] example_fill_run
    by simp
qed

section \<open>A queue at rest\<close>

lemma spsc_sys_inv_idle:
  assumes inv: "spsc_sys_inv k s" and "producer_at s 0 = PIdle" and "consumer_at s = CIdle"
  shows "sq_inv (sys_q s)" and "pushed s = taken s @ sq_contents (sys_q s)"
proof -
  let ?q = "sys_q s"
  have shape: "sq_shape k ?q" and le: "sq_size ?q \<le> 2 ^ k"
    using inv by (simp_all add: spsc_sys_inv_def)
  have slot: "sq_slot ?q i = (if i < sq_size ?q then Some (pushed s ! (length (taken s) + i)) else None)"
    if "i < 2 ^ k" for i
    using inv that assms(2,3) by (simp add: spsc_sys_inv_def slot_spec_def)
  have len: "length (pushed s) = length (taken s) + sq_size ?q"
    and pre: "taken s = take (length (taken s)) (pushed s)"
    using inv assms(3) by (simp_all add: spsc_sys_inv_def)
  show "sq_inv ?q"
    using shape le slot by (auto simp: sq_inv_def sq_live_def sq_shapeD)
  have "sq_contents ?q = drop (length (taken s)) (pushed s)"
  proof (rule nth_equalityI)
    fix i
    assume "i < length (sq_contents ?q)"
    then have i: "i < sq_size ?q"
      by (simp add: sq_contents_def)
    then have "sq_contents ?q ! i = the (sq_slot ?q i)"
      by (simp add: sq_contents_def nth_ring_window)
    then show "sq_contents ?q ! i = drop (length (taken s)) (pushed s) ! i"
      using slot [of i] i le len by simp
  qed (simp add: sq_contents_def len)
  then show "pushed s = taken s @ sq_contents ?q"
    using pre by (metis append_take_drop_id)
qed

text \<open>
  Once the producer and the consumer are between calls, what was pushed is what was taken
  followed by what the ring still holds; destroying the queue then runs the destructor on every
  remaining object and leaves raw storage in every slot.
\<close>

lemma spsc_at_rest:
  assumes "spsc_new (2 ^ k) = Inr q0" and "k < 64" and "spsc_reach {0} q0 s"
    and "producer_at s 0 = PIdle" and "consumer_at s = CIdle"
  shows "pushed s = taken s @ sq_contents (sys_q s)
     \<and> (\<forall>i < length (sq_buffer (sys_q s)). sq_slot (spsc_destroy (sys_q s)) i = None)"
proof -
  have "spsc_sys_inv k s"
    by (rule spsc_reach_inv [OF assms(3) spsc_new_Inr [OF assms(1,2)]])
  note idle = spsc_sys_inv_idle [OF this assms(4,5)]
  show ?thesis
    using idle(2) spsc_destroy_raw [OF idle(1)] by blast
qed

definition example_rest :: "nat spsc_event list" where
  "example_rest = [Producer 0 5, Producer 0 5, Producer 0 5, Producer 0 5, Producer 0 7, Producer 0 7,
     Producer 0 7, Producer 0 7, Consumer, Consumer, Consumer, Consumer]"

lemma spsc_at_rest_instance:
  "sq_contents (sys_q (spsc_run example_rest (spsc_init example_queue))) = [7]"
proof -
  let ?s = "spsc_run example_rest (spsc_init example_queue)"
  have run: "producer_at ?s 0 = PIdle" "consumer_at ?s = CIdle" "pushed ?s = [5, 7]" "taken ?s = [5]"
    by (simp_all add: example_rest_def spsc_eval)
  have reach: "spsc_reach {0} example_queue ?s"
    by (rule spsc_run_reach [OF spsc_reach.start]) (simp add: example_rest_def)
  show ?thesis
    using spsc_at_rest [OF example_queue_new _ reach run(1,2)] run(3,4) by simp
qed

section \<open>Several producers\<close>

text \<open>The schedule in which two producers go through \<open>push\<close> in lockstep.\<close>

definition lockstep :: "'a \<Rightarrow> 'a \<Rightarrow> 'a spsc_event list" where
  "lockstep x y = [Producer 0 x, Producer 1 y, Producer 0 x, Producer 1 y,
     Producer 0 x, Producer 1 y, Producer 0 x, Producer 1 y]"

lemma lockstep_run:
  fixes q0 :: "'a spsc_queue"
  assumes "spsc_new (2 ^ k) = Inr q0" and "k < 64"
  shows "pushed (spsc_run (lockstep x y) (spsc_init q0)) = [x, y]
   \<and> taken (spsc_run (lockstep x y) (spsc_init q0)) = []
   \<and> sq_contents (sys_q (spsc_run (lockstep x y) (spsc_init q0))) = [y]
   \<and> raw_access (spsc_run (lockstep x y) (spsc_init q0))"
proof -
  have pos: "\<not> (2 :: u64) ^ k < 1"
    using unat_pow2 [of k, where 'a = 64] assms(2) by (simp add: word_less_nat_alt)
  have len: "unat ((2 :: u64) ^ k) = 2 ^ k"
    using unat_pow2 [of k, where 'a = 64] assms(2) by simp
  have q0: "q0 = \<lparr> sq_capacity = 2 ^ k, sq_mask = 2 ^ k - 1, sq_tail = 0, sq_head = 0,
      sq_buffer = replicate (2 ^ k) None \<rparr>"
    using assms(1) len by (auto simp: spsc_new_def split: if_splits)
  show ?thesis
    using pos by (simp add: q0 lockstep_def spsc_init_def producer_step_def Let_def sq_index_def
        sq_full_def sq_contents_def sq_size_def ring_window_def)
qed

text \<open>C37: The inbox is an \<open>SpscQueue\<close>, but \<open>Runtime::dispatch_on\<close> may be called from any
  thread. With two producers, some interleaving lets both calls succeed while only one of the two
  objects is queued: the second object is constructed over the first one, which is lost.\<close>

theorem spsc_two_producers_lose:
  assumes "spsc_new (2 ^ k) = Inr q0" and "k < 64"
  shows "\<exists>s. spsc_reach {0, 1} q0 s \<and> pushed s = [x, y] \<and> taken s = []
     \<and> sq_contents (sys_q s) = [y] \<and> raw_access s"
proof (intro exI conjI)
  show "spsc_reach {0, 1} q0 (spsc_run (lockstep x y) (spsc_init q0))"
    by (rule spsc_run_reach [OF spsc_reach.start]) (simp add: lockstep_def)
qed (use lockstep_run [OF assms, of x y] in simp_all)

theorem spsc_two_producers_lose_witness:
  "\<exists>s. spsc_reach {0, 1} example_queue s \<and> pushed s = [5, 7] \<and> taken s = []
     \<and> sq_contents (sys_q s) = [7] \<and> raw_access s"
  by (rule spsc_two_producers_lose [OF example_queue_new]) simp

end
