(* ===== verification/Release_Acquire.thy ===== *)
theory Release_Acquire
  imports Novaio_Prelude
begin

text \<open>
  Memory with release and acquire. The atomic accesses of C++ need not see the newest store: an atomic
  location keeps all its stores in their modification order, and a thread may load any of them that is not
  older than what it has already seen. A thread's view says, for every location, how far it has seen it; a
  release store carries the view of its thread, and an acquire load that reads it takes that view over. A
  plain location counts the accesses that change it; an access by a thread that has not seen the latest
  one is not ordered after it, which is a data race. \<open>memory_order_relaxed\<close> accesses order nothing.
\<close>

section \<open>Memory and views\<close>

type_synonym 'l view = "'l \<Rightarrow> nat"

record ('l, 'v) weak_mem =
  wm_stores :: "'l \<Rightarrow> ('v \<times> 'l view) list"
  wm_writes :: "'l \<Rightarrow> nat"

abbreviation store_value :: "('l, 'v) weak_mem \<Rightarrow> 'l \<Rightarrow> nat \<Rightarrow> 'v" where
  "store_value m l n \<equiv> fst (wm_stores m l ! n)"

abbreviation store_view :: "('l, 'v) weak_mem \<Rightarrow> 'l \<Rightarrow> nat \<Rightarrow> 'l view" where
  "store_view m l n \<equiv> snd (wm_stores m l ! n)"

definition newest :: "('l, 'v) weak_mem \<Rightarrow> 'l \<Rightarrow> nat" where
  "newest m l = length (wm_stores m l) - 1"

text \<open>Which store a load reads: the one proposed, unless it is older than what the thread has seen.\<close>

definition read_at :: "('l, 'v) weak_mem \<Rightarrow> 'l \<Rightarrow> nat \<Rightarrow> 'l view \<Rightarrow> nat" where
  "read_at m l n V = max (V l) (min n (newest m l))"

definition weak_load :: "bool \<Rightarrow> 'l \<Rightarrow> nat \<Rightarrow> ('l, 'v) weak_mem \<Rightarrow> 'l view \<Rightarrow> 'v \<times> 'l view" where
  "weak_load acquire l n m V =
     (let i = read_at m l n V
      in (store_value m l i, if acquire then sup (V(l := i)) (store_view m l i) else V(l := i)))"

definition weak_store :: "bool \<Rightarrow> 'l \<Rightarrow> 'v \<Rightarrow> ('l, 'v) weak_mem \<Rightarrow> 'l view \<Rightarrow> ('l, 'v) weak_mem \<times> 'l view" where
  "weak_store release l v m V =
     (let i = length (wm_stores m l); V1 = V(l := i)
      in (m\<lparr> wm_stores := (wm_stores m)(l := wm_stores m l @ [(v, if release then V1 else (\<lambda>_. 0)(l := i))]) \<rparr>, V1))"

text \<open>A read-modify-write reads the newest store. What it stores continues the release sequences of that one: it
  hands on the view found there, and with release its own as well.\<close>

definition weak_rmw :: "bool \<Rightarrow> bool \<Rightarrow> 'l \<Rightarrow> ('v \<Rightarrow> 'v) \<Rightarrow> ('l, 'v) weak_mem \<Rightarrow> 'l view \<Rightarrow> 'v \<times> ('l, 'v) weak_mem \<times> 'l view" where
  "weak_rmw acquire release l f m V =
     (let (v, W) = wm_stores m l ! newest m l; i = length (wm_stores m l);
          V1 = (if acquire then sup V W else V)(l := i); W1 = (if release then V1 else (\<lambda>_. 0)(l := i))
      in (v, m\<lparr> wm_stores := (wm_stores m)(l := wm_stores m l @ [(f v, sup W1 W)]) \<rparr>, V1))"

text \<open>A plain access that changes the location: whether it races, and what the thread has seen afterwards.\<close>

definition races :: "'l \<Rightarrow> ('l, 'v) weak_mem \<Rightarrow> 'l view \<Rightarrow> bool" where
  "races l m V \<longleftrightarrow> V l \<noteq> wm_writes m l"

definition plain_access :: "'l \<Rightarrow> ('l, 'v) weak_mem \<Rightarrow> 'l view \<Rightarrow> ('l, 'v) weak_mem \<times> 'l view" where
  "plain_access l m V =
     (m\<lparr> wm_writes := (wm_writes m)(l := Suc (wm_writes m l)) \<rparr>, V(l := Suc (wm_writes m l)))"

section \<open>Laws\<close>

lemma read_at_bounds:
  assumes "V l \<le> newest m l"
  shows "V l \<le> read_at m l n V" and "read_at m l n V \<le> newest m l"
  using assms by (auto simp: read_at_def)

lemma read_at_newest: "V l \<le> newest m l \<Longrightarrow> newest m l \<le> n \<Longrightarrow> read_at m l n V = newest m l"
  by (simp add: read_at_def)

lemma weak_load_relaxed: "weak_load False l n m V = (store_value m l (read_at m l n V), V(l := read_at m l n V))"
  by (simp add: weak_load_def Let_def)

lemma weak_load_acquire:
  "weak_load True l n m V
   = (store_value m l (read_at m l n V), sup (V(l := read_at m l n V)) (store_view m l (read_at m l n V)))"
  by (simp add: weak_load_def Let_def)

lemma newest_store: "newest (fst (weak_store r l v m V)) l' = (if l' = l then length (wm_stores m l) else newest m l')"
  by (simp add: weak_store_def newest_def Let_def)

lemma writes_store [simp]: "wm_writes (fst (weak_store r l v m V)) = wm_writes m"
  by (simp add: weak_store_def Let_def)

lemma view_store [simp]: "snd (weak_store r l v m V) = V(l := length (wm_stores m l))"
  by (simp add: weak_store_def Let_def)

lemma stores_release: "wm_stores (fst (weak_store True l v m V))
   = (wm_stores m)(l := wm_stores m l @ [(v, V(l := length (wm_stores m l)))])"
  by (simp add: weak_store_def Let_def)

lemma stores_plain [simp]: "wm_stores (fst (plain_access l m V)) = wm_stores m"
  by (simp add: plain_access_def)

lemma writes_plain [simp]: "wm_writes (fst (plain_access l m V)) = (wm_writes m)(l := Suc (wm_writes m l))"
  by (simp add: plain_access_def)

lemma view_plain [simp]: "snd (plain_access l m V) = V(l := Suc (wm_writes m l))"
  by (simp add: plain_access_def)

lemma newest_plain [simp]: "newest (fst (plain_access l m V)) = newest m"
  by (simp add: newest_def fun_eq_iff)

lemma rmw_value: "fst (weak_rmw a r l f m V) = store_value m l (newest m l)"
  by (simp add: weak_rmw_def Let_def split_beta)

lemma rmw_writes [simp]: "wm_writes (fst (snd (weak_rmw a r l f m V))) = wm_writes m"
  by (simp add: weak_rmw_def Let_def split_beta)

lemma rmw_newest:
  assumes "wm_stores m l \<noteq> []"
  shows "newest (fst (snd (weak_rmw a r l f m V))) l = Suc (newest m l)"
    and "wm_stores (fst (snd (weak_rmw a r l f m V))) l \<noteq> []"
    and "store_value (fst (snd (weak_rmw a r l f m V))) l (Suc (newest m l)) = f (store_value m l (newest m l))"
proof -
  have "length (wm_stores m l) = Suc (newest m l)"
    using assms by (simp add: newest_def)
  then show "newest (fst (snd (weak_rmw a r l f m V))) l = Suc (newest m l)"
    and "store_value (fst (snd (weak_rmw a r l f m V))) l (Suc (newest m l)) = f (store_value m l (newest m l))"
    by (simp_all add: weak_rmw_def newest_def Let_def split_beta nth_append)
  show "wm_stores (fst (snd (weak_rmw a r l f m V))) l \<noteq> []"
    by (simp add: weak_rmw_def Let_def split_beta)
qed

text \<open>With acquire and release the thread has seen all that was released before, and passes it on with its own.\<close>

lemma rmw_acq_rel:
  assumes "wm_stores m l \<noteq> []" and "l' \<noteq> l"
  shows "snd (snd (weak_rmw True True l f m V)) l' = max (V l') (store_view m l (newest m l) l')"
    and "store_view (fst (snd (weak_rmw True True l f m V))) l (Suc (newest m l)) l' = max (V l') (store_view m l (newest m l) l')"
proof -
  have "length (wm_stores m l) = Suc (newest m l)"
    using assms(1) by (simp add: newest_def)
  then show "snd (snd (weak_rmw True True l f m V)) l' = max (V l') (store_view m l (newest m l) l')"
    and "store_view (fst (snd (weak_rmw True True l f m V))) l (Suc (newest m l)) l' = max (V l') (store_view m l (newest m l) l')"
    using assms(2) by (simp_all add: weak_rmw_def Let_def split_beta nth_append sup_nat_def max.assoc)
qed

text \<open>The general case: what the thread has seen afterwards, and what the new store hands on.\<close>

lemma rmw_views:
  assumes "wm_stores m l \<noteq> []"
  shows "snd (snd (weak_rmw a r l f m V))
      = (if a then sup V (store_view m l (newest m l)) else V)(l := Suc (newest m l))"
    and "store_view (fst (snd (weak_rmw a r l f m V))) l (Suc (newest m l))
      = sup (if r then snd (snd (weak_rmw a r l f m V)) else (\<lambda>_. 0)(l := Suc (newest m l))) (store_view m l (newest m l))"
    and "n \<le> newest m l \<Longrightarrow> wm_stores (fst (snd (weak_rmw a r l f m V))) l ! n = wm_stores m l ! n"
proof -
  have len: "length (wm_stores m l) = Suc (newest m l)"
    using assms by (simp add: newest_def)
  then show "snd (snd (weak_rmw a r l f m V)) = (if a then sup V (store_view m l (newest m l)) else V)(l := Suc (newest m l))"
    and "store_view (fst (snd (weak_rmw a r l f m V))) l (Suc (newest m l))
      = sup (if r then snd (snd (weak_rmw a r l f m V)) else (\<lambda>_. 0)(l := Suc (newest m l))) (store_view m l (newest m l))"
    by (simp_all add: weak_rmw_def Let_def split_beta nth_append)
  show "wm_stores (fst (snd (weak_rmw a r l f m V))) l ! n = wm_stores m l ! n" if "n \<le> newest m l"
    using that len by (simp add: weak_rmw_def Let_def split_beta nth_append)
qed

end
