(* ===== verification/Spsc_Weak.thy ===== *)
theory Spsc_Weak
  imports Spsc_Concurrent Release_Acquire
begin

text \<open>
  \<open>SpscQueue\<close> on a memory with release and acquire: the calls of \<open>push\<close> and \<open>pop\<close> with the memory orders
  the code asks for. Its two cursors are atomic, its slots are plain memory. The orders are a parameter,
  so that one can see what each of them is there for.
\<close>

section \<open>State and steps\<close>

datatype spsc_loc = LTail | LHead | LSlot nat

record spsc_orders =
  so_load_head :: bool     \<comment> \<open>the load of \<open>head_\<close> in \<open>push\<close> is acquire\<close>
  so_store_tail :: bool    \<comment> \<open>the store of \<open>tail_\<close> in \<open>push\<close> is release\<close>
  so_load_tail :: bool     \<comment> \<open>the load of \<open>tail_\<close> in \<open>pop\<close> is acquire\<close>
  so_store_head :: bool    \<comment> \<open>the store of \<open>head_\<close> in \<open>pop\<close> is release\<close>

definition code_orders :: spsc_orders where
  "code_orders = \<lparr> so_load_head = True, so_store_tail = True, so_load_tail = True, so_store_head = True \<rparr>"

record 'a weak_spsc =
  wk_mem :: "(spsc_loc, u64) weak_mem"
  wk_buffer :: "'a option list"
  wk_producer :: "'a producer_pc"
  wk_consumer :: consumer_pc
  wk_pview :: "spsc_loc view"
  wk_cview :: "spsc_loc view"
  wk_pushed :: "'a list"
  wk_taken :: "'a list"
  wk_rejected :: "'a list"
  wk_race :: bool    \<comment> \<open>a data race, or an access to a slot in the wrong state\<close>

text \<open>The constructor runs before either thread is there.\<close>

definition weak_init :: "'a spsc_queue \<Rightarrow> 'a weak_spsc" where
  "weak_init q = \<lparr> wk_mem = \<lparr> wm_stores = (\<lambda>_. [(0, \<lambda>_. 0)])(LTail := [(sq_tail q, \<lambda>_. 0)], LHead := [(sq_head q, \<lambda>_. 0)]),
       wm_writes = (\<lambda>_. 0) \<rparr>, wk_buffer = sq_buffer q, wk_producer = PIdle, wk_consumer = CIdle,
     wk_pview = (\<lambda>_. 0), wk_cview = (\<lambda>_. 0), wk_pushed = [], wk_taken = [], wk_rejected = [], wk_race = False \<rparr>"

text \<open>The next access of the producer, in a queue with the capacity and the mask of \<open>q\<close>; \<open>n\<close> is the store it
  proposes to read.\<close>

definition weak_producer :: "spsc_orders \<Rightarrow> 'a spsc_queue \<Rightarrow> 'a \<Rightarrow> nat \<Rightarrow> 'a weak_spsc \<Rightarrow> 'a weak_spsc" where
  "weak_producer ord q x n s =
     (let m = wk_mem s; V = wk_pview s in
      case wk_producer s of
        PIdle \<Rightarrow> (let (t, V1) = weak_load False LTail n m V in s\<lparr> wk_producer := PHasTail x t, wk_pview := V1 \<rparr>)
      | PHasTail y t \<Rightarrow>
          (let (h, V1) = weak_load (so_load_head ord) LHead n m V in
           if sq_full q t h then s\<lparr> wk_producer := PIdle, wk_pview := V1, wk_rejected := wk_rejected s @ [y] \<rparr>
           else s\<lparr> wk_producer := PHasRoom y t, wk_pview := V1 \<rparr>)
      | PHasRoom y t \<Rightarrow>
          (let i = sq_index q t; (m1, V1) = plain_access (LSlot i) m V in
           s\<lparr> wk_mem := m1, wk_pview := V1, wk_buffer := (wk_buffer s)[i := Some y], wk_producer := PWritten y t,
              wk_race := (wk_race s \<or> races (LSlot i) m V \<or> wk_buffer s ! i \<noteq> None) \<rparr>)
      | PWritten y t \<Rightarrow>
          (let (m1, V1) = weak_store (so_store_tail ord) LTail (t + 1) m V in
           s\<lparr> wk_mem := m1, wk_pview := V1, wk_producer := PIdle, wk_pushed := wk_pushed s @ [y] \<rparr>))"

definition weak_consumer :: "spsc_orders \<Rightarrow> 'a spsc_queue \<Rightarrow> nat \<Rightarrow> 'a weak_spsc \<Rightarrow> 'a weak_spsc" where
  "weak_consumer ord q n s =
     (let m = wk_mem s; V = wk_cview s in
      case wk_consumer s of
        CIdle \<Rightarrow> (let (h, V1) = weak_load False LHead n m V in s\<lparr> wk_consumer := CHasHead h, wk_cview := V1 \<rparr>)
      | CHasHead h \<Rightarrow>
          (let (t, V1) = weak_load (so_load_tail ord) LTail n m V in
           s\<lparr> wk_consumer := (if h = t then CIdle else CNonEmpty h), wk_cview := V1 \<rparr>)
      | CNonEmpty h \<Rightarrow>
          (let i = sq_index q h; (m1, V1) = plain_access (LSlot i) m V in
           s\<lparr> wk_mem := m1, wk_cview := V1, wk_buffer := (wk_buffer s)[i := None], wk_consumer := CTaken h,
              wk_taken := (case wk_buffer s ! i of None \<Rightarrow> wk_taken s | Some y \<Rightarrow> wk_taken s @ [y]),
              wk_race := (wk_race s \<or> races (LSlot i) m V \<or> wk_buffer s ! i = None) \<rparr>)
      | CTaken h \<Rightarrow>
          (let (m1, V1) = weak_store (so_store_head ord) LHead (h + 1) m V in
           s\<lparr> wk_mem := m1, wk_cview := V1, wk_consumer := CIdle \<rparr>))"

text \<open>All executions of one producer and one consumer.\<close>

inductive weak_reach :: "spsc_orders \<Rightarrow> 'a spsc_queue \<Rightarrow> 'a weak_spsc \<Rightarrow> bool"
  for ord :: spsc_orders and q :: "'a spsc_queue" where
  weak_start: "weak_reach ord q (weak_init q)"
| weak_push: "weak_reach ord q s \<Longrightarrow> weak_reach ord q (weak_producer ord q x n s)"
| weak_pop: "weak_reach ord q s \<Longrightarrow> weak_reach ord q (weak_consumer ord q n s)"

section \<open>What the views promise\<close>

text \<open>The slot of the element with number \<open>j\<close>. Elements \<open>j\<close>, \<open>j + c\<close>, \dots share it, so the slot has been changed
  \<open>2 * (j div c)\<close> times when element \<open>j\<close> is put there.\<close>

definition slot_no :: "'a spsc_queue \<Rightarrow> nat \<Rightarrow> nat" where
  "slot_no q j = sq_index q (sq_tail q + of_nat j)"

definition knows_puts :: "nat \<Rightarrow> 'a spsc_queue \<Rightarrow> spsc_loc view \<Rightarrow> nat \<Rightarrow> bool" where
  "knows_puts c q V n \<longleftrightarrow> (\<forall>j<n. Suc (2 * (j div c)) \<le> V (LSlot (slot_no q j)))"

definition knows_takes :: "nat \<Rightarrow> 'a spsc_queue \<Rightarrow> spsc_loc view \<Rightarrow> nat \<Rightarrow> bool" where
  "knows_takes c q V n \<longleftrightarrow> (\<forall>j<n + c. 2 * (j div c) \<le> V (LSlot (slot_no q j)))"

text \<open>A view shows nothing that has not happened.\<close>

definition within :: "(spsc_loc, u64) weak_mem \<Rightarrow> spsc_loc view \<Rightarrow> bool" where
  "within m V \<longleftrightarrow> V LTail \<le> newest m LTail \<and> V LHead \<le> newest m LHead \<and> (\<forall>i. V (LSlot i) \<le> wm_writes m (LSlot i))"

definition tail_stores :: "nat \<Rightarrow> 'a spsc_queue \<Rightarrow> (spsc_loc, u64) weak_mem \<Rightarrow> bool" where
  "tail_stores c q m \<longleftrightarrow> wm_stores m LTail \<noteq> [] \<and> (\<forall>n \<le> newest m LTail. store_value m LTail n = sq_tail q + of_nat n
     \<and> within m (store_view m LTail n) \<and> store_view m LTail n LTail = n \<and> knows_puts c q (store_view m LTail n) n)"

definition head_stores :: "nat \<Rightarrow> 'a spsc_queue \<Rightarrow> (spsc_loc, u64) weak_mem \<Rightarrow> bool" where
  "head_stores c q m \<longleftrightarrow> wm_stores m LHead \<noteq> [] \<and> (\<forall>n \<le> newest m LHead. store_value m LHead n = sq_tail q + of_nat n
     \<and> within m (store_view m LHead n) \<and> store_view m LHead n LHead = n \<and> knows_takes c q (store_view m LHead n) n)"

lemma slot_no_mod:
  assumes "sq_shape k q"
  shows "slot_no q j = (unat (sq_tail q) + j) mod 2 ^ k"
proof -
  have "2 ^ k dvd (2::nat) ^ 64"
    using sq_shapeD(1) [OF assms] by (intro le_imp_power_dvd) simp
  then have "unat (sq_tail q + of_nat j) mod 2 ^ k = (unat (sq_tail q) + j mod 2 ^ 64) mod 2 ^ k"
    by (simp add: unat_word_ariths unat_of_nat mod_mod_cancel)
  also have "\<dots> = (unat (sq_tail q) + j) mod 2 ^ k"
    using \<open>2 ^ k dvd 2 ^ 64\<close> by (metis mod_add_right_eq mod_mod_cancel)
  finally show ?thesis
    by (simp add: slot_no_def sq_index_mod [OF assms])
qed

lemma slot_no_less: "sq_shape k q \<Longrightarrow> slot_no q j < 2 ^ k"
  by (simp add: slot_no_mod)

lemma slot_no_inj:
  assumes "sq_shape k q" and "a \<le> i" "i < a + 2 ^ k" and "a \<le> j" "j < a + 2 ^ k" and "slot_no q i = slot_no q j"
  shows "i = j"
proof -
  have "i - a < 2 ^ k" "j - a < 2 ^ k"
    using assms(2-5) by linarith+
  then have "i - a = j - a"
    using ring_index_inj [of "i - a" "2 ^ k" "j - a" "unat (sq_tail q) + a"] assms(1,2,4,6) by (simp add: slot_no_mod)
  then show ?thesis
    using assms(2,4) by linarith
qed

lemma slot_no_again: "sq_shape k q \<Longrightarrow> slot_no q (j + 2 ^ k) = slot_no q j"
  by (simp add: slot_no_mod flip: add.assoc)

lemma knows_puts_mono: "knows_puts c q V n \<Longrightarrow> (\<And>i. V (LSlot i) \<le> W (LSlot i)) \<Longrightarrow> knows_puts c q W n"
  unfolding knows_puts_def by (meson le_trans)

lemma knows_takes_mono: "knows_takes c q V n \<Longrightarrow> (\<And>i. V (LSlot i) \<le> W (LSlot i)) \<Longrightarrow> knows_takes c q W n"
  unfolding knows_takes_def by (meson le_trans)

lemma knows_cursor [simp]:
  "knows_puts c q (V(LTail := x)) n = knows_puts c q V n" "knows_puts c q (V(LHead := x)) n = knows_puts c q V n"
  "knows_takes c q (V(LTail := x)) n = knows_takes c q V n" "knows_takes c q (V(LHead := x)) n = knows_takes c q V n"
  by (simp_all add: knows_puts_def knows_takes_def)

lemma within_sup: "within m V \<Longrightarrow> within m W \<Longrightarrow> within m (sup V W)"
  by (simp add: within_def)

lemma within_cursor:
  "within m V \<Longrightarrow> i \<le> newest m LTail \<Longrightarrow> within m (V(LTail := i))"
  "within m V \<Longrightarrow> i \<le> newest m LHead \<Longrightarrow> within m (V(LHead := i))"
  by (simp_all add: within_def)

lemma within_later:
  assumes "within m V" and "newest m LTail \<le> newest m' LTail" and "newest m LHead \<le> newest m' LHead"
    and "\<And>i. wm_writes m (LSlot i) \<le> wm_writes m' (LSlot i)"
  shows "within m' V"
  using assms unfolding within_def by (meson le_trans)

text \<open>What an acquire load of a cursor gives its thread.\<close>

lemma load_tail:
  assumes "within m V" and "tail_stores c q m" and "weak_load True LTail n m V = (t, W)"
  shows "V LTail \<le> W LTail" and "t = sq_tail q + of_nat (W LTail)" and "within m W"
    and "knows_puts c q W (W LTail)" and "V \<le> W" and "newest m LTail \<le> n \<Longrightarrow> W LTail = newest m LTail"
proof -
  let ?i = "read_at m LTail n V"
  have i: "V LTail \<le> ?i" "?i \<le> newest m LTail"
    using read_at_bounds [of V LTail m n] assms(1) by (simp_all add: within_def)
  have W: "W = sup (V(LTail := ?i)) (store_view m LTail ?i)" and t: "t = store_value m LTail ?i"
    using assms(3) by (simp_all add: weak_load_acquire)
  have S: "t = sq_tail q + of_nat ?i" "within m (store_view m LTail ?i)" "store_view m LTail ?i LTail = ?i"
    "knows_puts c q (store_view m LTail ?i) ?i"
    using assms(2) i(2) t by (simp_all add: tail_stores_def)
  have Wi: "W LTail = ?i"
    using S(3) by (simp add: W)
  show "newest m LTail \<le> n \<Longrightarrow> W LTail = newest m LTail"
    using Wi i(1,2) read_at_newest [of V LTail m n] by simp
  show "V LTail \<le> W LTail" "t = sq_tail q + of_nat (W LTail)"
    using i S(1) Wi by simp_all
  show "within m W"
    unfolding W by (intro within_sup within_cursor assms(1) i(2) S(2))
  show "knows_puts c q W (W LTail)"
    unfolding Wi by (rule knows_puts_mono [OF S(4)]) (simp add: W)
  show "V \<le> W"
    using i(1) S(3) by (auto simp: W le_fun_def)
qed

lemma load_head:
  assumes "within m V" and "head_stores c q m" and "weak_load True LHead n m V = (h, W)"
  shows "V LHead \<le> W LHead" and "h = sq_tail q + of_nat (W LHead)" and "within m W"
    and "knows_takes c q W (W LHead)" and "V \<le> W" and "newest m LHead \<le> n \<Longrightarrow> W LHead = newest m LHead"
proof -
  let ?i = "read_at m LHead n V"
  have i: "V LHead \<le> ?i" "?i \<le> newest m LHead"
    using read_at_bounds [of V LHead m n] assms(1) by (simp_all add: within_def)
  have W: "W = sup (V(LHead := ?i)) (store_view m LHead ?i)" and h: "h = store_value m LHead ?i"
    using assms(3) by (simp_all add: weak_load_acquire)
  have S: "h = sq_tail q + of_nat ?i" "within m (store_view m LHead ?i)" "store_view m LHead ?i LHead = ?i"
    "knows_takes c q (store_view m LHead ?i) ?i"
    using assms(2) i(2) h by (simp_all add: head_stores_def)
  have Wi: "W LHead = ?i"
    using S(3) by (simp add: W)
  show "newest m LHead \<le> n \<Longrightarrow> W LHead = newest m LHead"
    using Wi i(1,2) read_at_newest [of V LHead m n] by simp
  show "V LHead \<le> W LHead" "h = sq_tail q + of_nat (W LHead)"
    using i S(1) Wi by simp_all
  show "within m W"
    unfolding W by (intro within_sup within_cursor assms(1) i(2) S(2))
  show "knows_takes c q W (W LHead)"
    unfolding Wi by (rule knows_takes_mono [OF S(4)]) (simp add: W)
  show "V \<le> W"
    using i(1) S(3) by (auto simp: W le_fun_def)
qed

text \<open>Loading the cursor one stores oneself reads one's own last store.\<close>

lemma load_own:
  assumes "V l = newest m l"
  shows "weak_load False l n m V = (store_value m l (newest m l), V)"
proof -
  have "read_at m l n V = newest m l"
    using assms by (simp add: read_at_def)
  then show ?thesis
    using assms by (simp add: weak_load_relaxed fun_upd_idem)
qed

section \<open>The invariant\<close>

definition weak_items :: "'a weak_spsc \<Rightarrow> 'a list" where
  "weak_items s = wk_pushed s @ (case written_pc (wk_producer s) of None \<Rightarrow> [] | Some x \<Rightarrow> [x])"

fun weak_producer_at :: "nat \<Rightarrow> nat \<Rightarrow> u64 \<Rightarrow> 'a producer_pc \<Rightarrow> bool" where
  "weak_producer_at np room t0 PIdle \<longleftrightarrow> True"
| "weak_producer_at np room t0 (PHasTail x t) \<longleftrightarrow> t = t0 + of_nat np"
| "weak_producer_at np room t0 (PHasRoom x t) \<longleftrightarrow> t = t0 + of_nat np \<and> np < room"
| "weak_producer_at np room t0 (PWritten x t) \<longleftrightarrow> t = t0 + of_nat np"

fun weak_consumer_at :: "nat \<Rightarrow> nat \<Rightarrow> u64 \<Rightarrow> consumer_pc \<Rightarrow> bool" where
  "weak_consumer_at ne seen t0 CIdle \<longleftrightarrow> True"
| "weak_consumer_at ne seen t0 (CHasHead h) \<longleftrightarrow> h = t0 + of_nat ne"
| "weak_consumer_at ne seen t0 (CNonEmpty h) \<longleftrightarrow> h = t0 + of_nat ne \<and> ne < seen"
| "weak_consumer_at ne seen t0 (CTaken h) \<longleftrightarrow> 0 < ne \<and> h = t0 + of_nat (ne - 1)"

definition memory_ok :: "nat \<Rightarrow> 'a spsc_queue \<Rightarrow> 'a weak_spsc \<Rightarrow> bool" where
  "memory_ok c q s \<longleftrightarrow> tail_stores c q (wk_mem s) \<and> head_stores c q (wk_mem s)
     \<and> newest (wk_mem s) LTail = length (wk_pushed s)
     \<and> newest (wk_mem s) LHead = length (wk_taken s) - emptied_pc (wk_consumer s)"

definition producer_side :: "nat \<Rightarrow> 'a spsc_queue \<Rightarrow> 'a weak_spsc \<Rightarrow> bool" where
  "producer_side c q s \<longleftrightarrow>
     (let V = wk_pview s in within (wk_mem s) V \<and> V LTail = newest (wk_mem s) LTail
      \<and> knows_takes c q V (V LHead) \<and> knows_puts c q V (length (weak_items s)) \<and> length (weak_items s) \<le> V LHead + c
      \<and> weak_producer_at (length (wk_pushed s)) (V LHead + c) (sq_tail q) (wk_producer s))"

definition consumer_side :: "nat \<Rightarrow> 'a spsc_queue \<Rightarrow> 'a weak_spsc \<Rightarrow> bool" where
  "consumer_side c q s \<longleftrightarrow>
     (let V = wk_cview s; ne = length (wk_taken s) in within (wk_mem s) V \<and> V LHead = newest (wk_mem s) LHead
      \<and> knows_puts c q V (V LTail) \<and> knows_takes c q V ne \<and> ne \<le> V LTail
      \<and> weak_consumer_at ne (V LTail) (sq_tail q) (wk_consumer s))"

definition slots_hold :: "nat \<Rightarrow> 'a spsc_queue \<Rightarrow> 'a weak_spsc \<Rightarrow> bool" where
  "slots_hold c q s \<longleftrightarrow> length (wk_buffer s) = c \<and>
     (\<forall>j. length (wk_taken s) \<le> j \<and> j < length (wk_taken s) + c \<longrightarrow>
        wm_writes (wk_mem s) (LSlot (slot_no q j)) = 2 * (j div c) + (if j < length (weak_items s) then 1 else 0)
        \<and> wk_buffer s ! slot_no q j = (if j < length (weak_items s) then Some (weak_items s ! j) else None))"

definition weak_inv :: "nat \<Rightarrow> 'a spsc_queue \<Rightarrow> 'a weak_spsc \<Rightarrow> bool" where
  "weak_inv k q s \<longleftrightarrow> memory_ok (2 ^ k) q s \<and> producer_side (2 ^ k) q s \<and> consumer_side (2 ^ k) q s
     \<and> slots_hold (2 ^ k) q s \<and> wk_taken s = take (length (wk_taken s)) (wk_pushed s) \<and> \<not> wk_race s"

lemma weak_inv_init:
  assumes k: "sq_shape k q" and "sq_inv q" and "sq_contents q = []"
  shows "weak_inv k q (weak_init q)"
proof -
  have size: "sq_size q = 0"
    using assms(3) by (simp add: sq_contents_def)
  then have ht: "sq_head q = sq_tail q"
    by (simp add: sq_size_0_iff)
  have len: "length (sq_buffer q) = 2 ^ k"
    using k by (simp add: sq_shapeD)
  have none: "sq_buffer q ! slot_no q j = None" for j
  proof -
    have "\<not> (sq_slot q (j mod 2 ^ k) \<noteq> None)"
      using assms(2) size len by (simp add: sq_inv_def sq_live_def)
    then show ?thesis
      using ht len by (simp add: slot_no_mod [OF k] mod_add_right_eq)
  qed
  have lt: "j < 2 ^ k \<Longrightarrow> j div 2 ^ k = 0" for j :: nat
    by simp
  show ?thesis
    using len none ht lt
    by (simp add: weak_inv_def weak_init_def memory_ok_def producer_side_def consumer_side_def slots_hold_def weak_items_def
        tail_stores_def head_stores_def within_def newest_def knows_takes_def knows_puts_def)
qed

lemma producer_pos:
  assumes "weak_inv k q s"
  shows "length (wk_taken s) \<le> length (wk_pushed s)" and "wk_pview s LHead \<le> length (wk_taken s)"
proof -
  have "wk_cview s LTail \<le> newest (wk_mem s) LTail" and "length (wk_taken s) \<le> wk_cview s LTail"
    and n: "newest (wk_mem s) LTail = length (wk_pushed s)" "newest (wk_mem s) LHead \<le> length (wk_taken s)"
    and "wk_pview s LHead \<le> newest (wk_mem s) LHead"
    using assms by (simp_all add: weak_inv_def memory_ok_def consumer_side_def producer_side_def within_def Let_def)
  then show "length (wk_taken s) \<le> length (wk_pushed s)" "wk_pview s LHead \<le> length (wk_taken s)"
    by linarith+
qed

lemma weak_queued_le:
  assumes "weak_inv k q s"
  shows "length (wk_pushed s) \<le> length (wk_taken s) + 2 ^ k"
proof -
  have "length (wk_pushed s) \<le> wk_pview s LHead + 2 ^ k"
    using assms by (simp add: weak_inv_def producer_side_def weak_items_def Let_def)
  then show ?thesis
    using producer_pos(2) [OF assms] by linarith
qed

text \<open>The test for a full ring on what has been loaded.\<close>

lemma unat_of_nat_small: "n < 2 ^ 64 \<Longrightarrow> unat (of_nat n :: u64) = n"
  by (simp add: unat_of_nat)

lemma sq_full_weak:
  assumes k: "sq_shape k q" and "i \<le> np" and "np \<le> i + 2 ^ k"
  shows "sq_full q (t0 + of_nat np) (t0 + of_nat i) \<longleftrightarrow> np = i + 2 ^ k"
proof -
  have eq: "t0 + of_nat np + 1 - (t0 + of_nat i) = (of_nat (np - i + 1) :: u64)"
    using assms(2) by (simp add: of_nat_diff)
  have "(2::nat) ^ k \<le> 2 ^ 63"
    using pow2_63 sq_shapeD(1) [OF k] .
  then have "np - i + 1 < 2 ^ 64"
    using assms(3) by simp
  then have "unat (of_nat (np - i + 1) :: u64) = np - i + 1"
    by (rule unat_of_nat_small)
  moreover have "unat ((2::u64) ^ k) = 2 ^ k"
    using unat_pow2 [of k, where 'a = 64] sq_shapeD(1) [OF k] by simp
  ultimately show ?thesis
    unfolding sq_full_def eq sq_shapeD(4) [OF k] word_less_nat_alt using assms(2,3) by linarith
qed

lemma of_nat_offset_eq:
  assumes "(i::nat) \<le> j" and "j < i + 2 ^ 64" and "t0 + of_nat i = t0 + (of_nat j :: u64)"
  shows "i = j"
proof -
  have "of_nat (j - i) = (0 :: u64)"
    using assms(1,3) by (simp add: of_nat_diff)
  moreover have "unat (of_nat (j - i) :: u64) = j - i"
    using assms(1,2) by (intro unat_of_nat_small) linarith
  ultimately show ?thesis
    using assms(1) by simp
qed

section \<open>What stays true when the other side moves\<close>

lemma within_plain: "within m V \<Longrightarrow> within (fst (plain_access l m W)) V"
  by (erule within_later) simp_all

lemma newest_grows: "newest m l \<le> newest (fst (weak_store r l' v m W)) l"
  by (cases "l = l'") (simp_all add: newest_store, simp add: newest_def)

lemma within_store: "within m V \<Longrightarrow> within (fst (weak_store r l v m W)) V"
  by (erule within_later) (simp_all add: newest_grows)

lemma tail_stores_plain: "tail_stores c q m \<Longrightarrow> tail_stores c q (fst (plain_access l m V))"
  by (simp add: tail_stores_def within_plain)

lemma head_stores_plain: "head_stores c q m \<Longrightarrow> head_stores c q (fst (plain_access l m V))"
  by (simp add: head_stores_def within_plain)

lemma stores_other: "l' \<noteq> l \<Longrightarrow> wm_stores (fst (weak_store r l v m V)) l' = wm_stores m l'"
  by (simp add: weak_store_def Let_def)

lemma tail_stores_other: "tail_stores c q m \<Longrightarrow> tail_stores c q (fst (weak_store r LHead v m V))"
  by (simp add: tail_stores_def within_store stores_other newest_store)

lemma head_stores_other: "head_stores c q m \<Longrightarrow> head_stores c q (fst (weak_store r LTail v m V))"
  by (simp add: head_stores_def within_store stores_other newest_store)

text \<open>A release store of a cursor publishes what its thread has seen.\<close>

lemma tail_stores_store:
  assumes T: "tail_stores c q m" and V: "within m V" and kn: "knows_puts c q V (Suc (newest m LTail))"
    and v: "v = sq_tail q + of_nat (newest m LTail) + 1"
  shows "tail_stores c q (fst (weak_store True LTail v m V))"
    and "newest (fst (weak_store True LTail v m V)) LTail = Suc (newest m LTail)"
proof -
  let ?m = "fst (weak_store True LTail v m V)" and ?N = "Suc (newest m LTail)"
  have len: "length (wm_stores m LTail) = ?N"
    using T by (cases "wm_stores m LTail") (simp_all add: tail_stores_def newest_def)
  then show new: "newest ?m LTail = ?N"
    by (simp add: newest_store)
  have st: "wm_stores ?m LTail = wm_stores m LTail @ [(v, V(LTail := ?N))]"
    by (simp add: stores_release len)
  have "store_value ?m LTail n = sq_tail q + of_nat n \<and> within ?m (store_view ?m LTail n)
      \<and> store_view ?m LTail n LTail = n \<and> knows_puts c q (store_view ?m LTail n) n" if n: "n \<le> ?N" for n
  proof (cases "n = ?N")
    case True
    have W: "within ?m (V(LTail := ?N))"
      using within_store [OF V] new by (intro within_cursor) simp_all
    have nth: "wm_stores ?m LTail ! ?N = (v, V(LTail := ?N))"
      by (simp add: st nth_append len)
    have "v = sq_tail q + of_nat ?N"
      by (simp add: v)
    then show ?thesis
      unfolding True nth using kn W by simp
  next
    case False
    then have "n \<le> newest m LTail"
      using n by simp
    then show ?thesis
      using T len by (simp add: tail_stores_def st nth_append within_store)
  qed
  then show "tail_stores c q ?m"
    by (simp add: tail_stores_def new st)
qed

lemma head_stores_store:
  assumes T: "head_stores c q m" and V: "within m V" and kn: "knows_takes c q V (Suc (newest m LHead))"
    and v: "v = sq_tail q + of_nat (newest m LHead) + 1"
  shows "head_stores c q (fst (weak_store True LHead v m V))"
    and "newest (fst (weak_store True LHead v m V)) LHead = Suc (newest m LHead)"
proof -
  let ?m = "fst (weak_store True LHead v m V)" and ?N = "Suc (newest m LHead)"
  have len: "length (wm_stores m LHead) = ?N"
    using T by (cases "wm_stores m LHead") (simp_all add: head_stores_def newest_def)
  then show new: "newest ?m LHead = ?N"
    by (simp add: newest_store)
  have st: "wm_stores ?m LHead = wm_stores m LHead @ [(v, V(LHead := ?N))]"
    by (simp add: stores_release len)
  have "store_value ?m LHead n = sq_tail q + of_nat n \<and> within ?m (store_view ?m LHead n)
      \<and> store_view ?m LHead n LHead = n \<and> knows_takes c q (store_view ?m LHead n) n" if n: "n \<le> ?N" for n
  proof (cases "n = ?N")
    case True
    have W: "within ?m (V(LHead := ?N))"
      using within_store [OF V] new by (intro within_cursor) simp_all
    have nth: "wm_stores ?m LHead ! ?N = (v, V(LHead := ?N))"
      by (simp add: st nth_append len)
    have "v = sq_tail q + of_nat ?N"
      by (simp add: v)
    then show ?thesis
      unfolding True nth using kn W by simp
  next
    case False
    then have "n \<le> newest m LHead"
      using n by simp
    then show ?thesis
      using T len by (simp add: head_stores_def st nth_append within_store)
  qed
  then show "head_stores c q ?m"
    by (simp add: head_stores_def new st)
qed

section \<open>The producer\<close>

lemma weak_producer_loads:
  assumes k: "sq_shape k q" and inv: "weak_inv k q s"
    and pc: "wk_producer s = PIdle \<or> wk_producer s = PHasTail y t"
  shows "weak_inv k q (weak_producer code_orders q x n s)"
  using pc
proof
  assume pc: "wk_producer s = PIdle"
  have own: "weak_load False LTail n (wk_mem s) (wk_pview s)
      = (store_value (wk_mem s) LTail (newest (wk_mem s) LTail), wk_pview s)"
    using inv by (intro load_own) (simp add: weak_inv_def producer_side_def Let_def)
  have "store_value (wk_mem s) LTail (newest (wk_mem s) LTail) = sq_tail q + of_nat (length (wk_pushed s))"
    using inv by (simp add: weak_inv_def memory_ok_def tail_stores_def)
  then have "weak_producer code_orders q x n s
      = s\<lparr> wk_producer := PHasTail x (sq_tail q + of_nat (length (wk_pushed s))) \<rparr>"
    using own by (simp add: weak_producer_def pc Let_def)
  then show ?thesis
    using inv pc by (simp add: weak_inv_def memory_ok_def producer_side_def consumer_side_def slots_hold_def weak_items_def Let_def)
next
  assume pc: "wk_producer s = PHasTail y t"
  obtain h W where ld: "weak_load True LHead n (wk_mem s) (wk_pview s) = (h, W)"
    by fastforce
  have P: "within (wk_mem s) (wk_pview s)" "wk_pview s LTail = newest (wk_mem s) LTail"
    "knows_puts (2 ^ k) q (wk_pview s) (length (wk_pushed s))" "length (wk_pushed s) \<le> wk_pview s LHead + 2 ^ k"
    "t = sq_tail q + of_nat (length (wk_pushed s))"
    using inv pc by (simp_all add: weak_inv_def producer_side_def Let_def weak_items_def)
  have M: "head_stores (2 ^ k) q (wk_mem s)" "newest (wk_mem s) LHead \<le> length (wk_taken s)"
    using inv by (simp_all add: weak_inv_def memory_ok_def)
  note L = load_head [OF P(1) M(1) ld]
  have tl: "W LTail = newest (wk_mem s) LTail"
    using L(3) L(5) P(2) by (metis le_antisym le_fun_def within_def)
  have puts: "knows_puts (2 ^ k) q W (length (wk_pushed s))"
    using L(5) by (intro knows_puts_mono [OF P(3)]) (simp add: le_fun_def)
  have "W LHead \<le> length (wk_taken s)"
    using L(3) M(2) unfolding within_def by linarith
  then have "W LHead \<le> length (wk_pushed s)" and le: "length (wk_pushed s) \<le> W LHead + 2 ^ k"
    using producer_pos(1) [OF inv] P(4) L(1) by linarith+
  then have "sq_full q t h \<longleftrightarrow> length (wk_pushed s) = W LHead + 2 ^ k"
    unfolding L(2) P(5) by (rule sq_full_weak [OF k])
  then show ?thesis
    using le inv pc ld tl puts L(3,4) P(5)
    by (auto simp: weak_producer_def code_orders_def weak_inv_def memory_ok_def producer_side_def
        consumer_side_def slots_hold_def weak_items_def Let_def)
qed

lemma weak_producer_constructs:
  assumes k: "sq_shape k q" and inv: "weak_inv k q s" and pc: "wk_producer s = PHasRoom y t"
  shows "weak_inv k q (weak_producer code_orders q x n s)"
proof -
  let ?m = "wk_mem s" and ?V = "wk_pview s" and ?np = "length (wk_pushed s)" and ?ne = "length (wk_taken s)" and ?c = "2 ^ k :: nat"
  let ?l = "LSlot (slot_no q ?np)"
  have P: "within ?m ?V" "?V LTail = newest ?m LTail" "knows_takes ?c q ?V (?V LHead)" "knows_puts ?c q ?V ?np"
    "?np < ?V LHead + ?c" "t = sq_tail q + of_nat ?np"
    using inv pc by (simp_all add: weak_inv_def producer_side_def Let_def weak_items_def)
  have C: "within ?m (wk_cview s)"
    using inv by (simp add: weak_inv_def consumer_side_def Let_def)
  have S: "length (wk_buffer s) = ?c" "\<And>j. ?ne \<le> j \<Longrightarrow> j < ?ne + ?c \<Longrightarrow>
      wm_writes ?m (LSlot (slot_no q j)) = 2 * (j div ?c) + (if j < ?np then 1 else 0)
      \<and> wk_buffer s ! slot_no q j = (if j < ?np then Some (wk_pushed s ! j) else None)"
    using inv pc by (simp_all add: weak_inv_def slots_hold_def weak_items_def)
  note pos = producer_pos [OF inv]
  have in_window: "?ne \<le> ?np" "?np < ?ne + ?c"
    using pos P(5) by linarith+
  have w: "wm_writes ?m ?l = 2 * (?np div ?c)" and empty: "wk_buffer s ! slot_no q ?np = None"
    using S(2) [OF in_window] by simp_all
  have "2 * (?np div ?c) \<le> ?V ?l"
    using P(3,5) by (simp add: knows_takes_def)
  moreover have seen: "?V ?l \<le> wm_writes ?m ?l"
    using P(1) by (simp add: within_def)
  ultimately have no_race: "\<not> races ?l ?m ?V"
    by (simp add: races_def w)
  have i: "sq_index q t = slot_no q ?np"
    by (simp add: P(6) slot_no_def)
  let ?m1 = "fst (plain_access ?l ?m ?V)" and ?V1 = "?V(?l := Suc (2 * (?np div ?c)))"
  have s': "weak_producer code_orders q x n s = s\<lparr> wk_mem := ?m1, wk_pview := ?V1,
      wk_buffer := (wk_buffer s)[slot_no q ?np := Some y], wk_producer := PWritten y t \<rparr>"
    using no_race empty inv w by (simp add: weak_producer_def pc i Let_def split_beta weak_inv_def)
  have grow: "?V (LSlot j) \<le> ?V1 (LSlot j)" for j
    using seen w by auto
  have "within ?m1 ?V1"
    using P(1) w by (auto simp: within_def le_Suc_eq)
  moreover have "knows_takes ?c q ?V1 (?V LHead)"
    by (rule knows_takes_mono [OF P(3) grow])
  moreover have "knows_puts ?c q ?V1 (Suc ?np)"
    using knows_puts_mono [OF P(4) grow] by (auto simp: knows_puts_def less_Suc_eq intro: div_le_mono)
  moreover have "slots_hold ?c q (weak_producer code_orders q x n s)"
  proof -
    have "wm_writes ?m1 (LSlot (slot_no q j)) = 2 * (j div ?c) + (if j < Suc ?np then 1 else 0)
        \<and> (wk_buffer s)[slot_no q ?np := Some y] ! slot_no q j = (if j < Suc ?np then Some ((wk_pushed s @ [y]) ! j) else None)"
      if j: "?ne \<le> j" "j < ?ne + ?c" for j
    proof (cases "j = ?np")
      case True
      then show ?thesis
        using w S(1) slot_no_less [OF k, of ?np] by simp
    next
      case False
      then have "slot_no q j \<noteq> slot_no q ?np"
        using slot_no_inj [OF k j in_window] by blast
      then show ?thesis
        using False S(2) [OF j] by (auto simp: nth_append)
    qed
    then show ?thesis
      using S(1) by (simp add: slots_hold_def s' weak_items_def)
  qed
  ultimately show ?thesis
    using inv pc P(2,5,6)
    by (simp add: weak_inv_def s' memory_ok_def producer_side_def consumer_side_def weak_items_def Let_def
        tail_stores_plain head_stores_plain within_plain)
qed

lemma weak_producer_publishes:
  assumes k: "sq_shape k q" and inv: "weak_inv k q s" and pc: "wk_producer s = PWritten y t"
  shows "weak_inv k q (weak_producer code_orders q x n s)"
proof -
  let ?m = "wk_mem s" and ?V = "wk_pview s" and ?np = "length (wk_pushed s)" and ?c = "2 ^ k :: nat"
  have P: "within ?m ?V" "knows_puts ?c q ?V (Suc ?np)" "t = sq_tail q + of_nat ?np"
    using inv pc by (simp_all add: weak_inv_def producer_side_def Let_def weak_items_def)
  have M: "tail_stores ?c q ?m" "newest ?m LTail = ?np"
    using inv by (simp_all add: weak_inv_def memory_ok_def)
  have "knows_puts ?c q ?V (Suc (newest ?m LTail))" and "t + 1 = sq_tail q + of_nat (newest ?m LTail) + 1"
    using P(2,3) M(2) by simp_all
  note T = tail_stores_store [OF M(1) P(1) this]
  have len: "length (wm_stores ?m LTail) = Suc ?np"
    using M by (cases "wm_stores ?m LTail") (simp_all add: tail_stores_def newest_def)
  let ?m1 = "fst (weak_store True LTail (t + 1) ?m ?V)"
  have s': "weak_producer code_orders q x n s = s\<lparr> wk_mem := ?m1, wk_pview := ?V(LTail := Suc ?np),
      wk_producer := PIdle, wk_pushed := wk_pushed s @ [y] \<rparr>"
    using len by (simp add: weak_producer_def pc code_orders_def Let_def split_beta)
  have head: "newest ?m1 LHead = newest ?m LHead"
    by (simp add: newest_store)
  have pre: "wk_taken s = take (length (wk_taken s)) (wk_pushed s)" "length (wk_taken s) \<le> ?np"
    using inv producer_pos(1) [OF inv] by (simp_all add: weak_inv_def)
  show ?thesis
    using inv pc M T head pre P(2)
    by (simp add: weak_inv_def s' memory_ok_def producer_side_def consumer_side_def slots_hold_def weak_items_def Let_def
        head_stores_other within_store within_cursor)
qed

section \<open>The consumer\<close>

lemma weak_consumer_loads:
  assumes k: "sq_shape k q" and inv: "weak_inv k q s"
    and pc: "wk_consumer s = CIdle \<or> wk_consumer s = CHasHead h"
  shows "weak_inv k q (weak_consumer code_orders q n s)"
  using pc
proof
  assume pc: "wk_consumer s = CIdle"
  have own: "weak_load False LHead n (wk_mem s) (wk_cview s)
      = (store_value (wk_mem s) LHead (newest (wk_mem s) LHead), wk_cview s)"
    using inv by (intro load_own) (simp add: weak_inv_def consumer_side_def Let_def)
  have "store_value (wk_mem s) LHead (newest (wk_mem s) LHead) = sq_tail q + of_nat (length (wk_taken s))"
    using inv pc by (simp add: weak_inv_def memory_ok_def head_stores_def)
  then have "weak_consumer code_orders q n s
      = s\<lparr> wk_consumer := CHasHead (sq_tail q + of_nat (length (wk_taken s))) \<rparr>"
    using own by (simp add: weak_consumer_def pc Let_def)
  then show ?thesis
    using inv pc by (simp add: weak_inv_def memory_ok_def producer_side_def consumer_side_def slots_hold_def weak_items_def Let_def)
next
  assume pc: "wk_consumer s = CHasHead h"
  obtain t W where ld: "weak_load True LTail n (wk_mem s) (wk_cview s) = (t, W)"
    by fastforce
  have C: "within (wk_mem s) (wk_cview s)" "wk_cview s LHead = newest (wk_mem s) LHead"
    "knows_takes (2 ^ k) q (wk_cview s) (length (wk_taken s))" "length (wk_taken s) \<le> wk_cview s LTail"
    "h = sq_tail q + of_nat (length (wk_taken s))"
    using inv pc by (simp_all add: weak_inv_def consumer_side_def Let_def)
  have M: "tail_stores (2 ^ k) q (wk_mem s)"
    using inv by (simp add: weak_inv_def memory_ok_def)
  note L = load_tail [OF C(1) M ld]
  have hd: "W LHead = newest (wk_mem s) LHead"
    using L(3) L(5) C(2) by (metis le_antisym le_fun_def within_def)
  have takes: "knows_takes (2 ^ k) q W (length (wk_taken s))"
    using L(5) by (intro knows_takes_mono [OF C(3)]) (simp add: le_fun_def)
  have le: "length (wk_taken s) \<le> W LTail"
    using C(4) L(1) by linarith
  then have "length (wk_taken s) < W LTail" if "h \<noteq> t"
    using that by (cases "length (wk_taken s) = W LTail") (simp_all add: C(5) L(2))
  then show ?thesis
    using le inv pc ld hd takes L(3,4) C(5)
    by (auto simp: weak_consumer_def code_orders_def weak_inv_def memory_ok_def producer_side_def
        consumer_side_def slots_hold_def weak_items_def Let_def)
qed

lemma weak_consumer_takes:
  assumes k: "sq_shape k q" and inv: "weak_inv k q s" and pc: "wk_consumer s = CNonEmpty h"
  shows "weak_inv k q (weak_consumer code_orders q n s)"
    and "wk_taken (weak_consumer code_orders q n s) = wk_taken s @ [wk_pushed s ! length (wk_taken s)]"
    and "length (wk_taken s) < length (wk_pushed s)"
proof -
  let ?m = "wk_mem s" and ?V = "wk_cview s" and ?ne = "length (wk_taken s)" and ?c = "2 ^ k :: nat"
  let ?l = "LSlot (slot_no q ?ne)" and ?nw = "length (weak_items s)"
  have C: "within ?m ?V" "?V LHead = newest ?m LHead" "knows_puts ?c q ?V (?V LTail)" "knows_takes ?c q ?V ?ne"
    "?ne < ?V LTail" "h = sq_tail q + of_nat ?ne"
    using inv pc by (simp_all add: weak_inv_def consumer_side_def Let_def)
  have S: "length (wk_buffer s) = ?c" "\<And>j. ?ne \<le> j \<Longrightarrow> j < ?ne + ?c \<Longrightarrow>
      wm_writes ?m (LSlot (slot_no q j)) = 2 * (j div ?c) + (if j < ?nw then 1 else 0)
      \<and> wk_buffer s ! slot_no q j = (if j < ?nw then Some (weak_items s ! j) else None)"
    using inv pc by (simp_all add: weak_inv_def slots_hold_def)
  have M: "newest ?m LTail = length (wk_pushed s)" "newest ?m LHead = ?ne"
    using inv pc by (simp_all add: weak_inv_def memory_ok_def)
  show lt: "?ne < length (wk_pushed s)"
    using C(1,5) M(1) unfolding within_def by linarith
  then have ltw: "?ne < ?nw" and item: "weak_items s ! ?ne = wk_pushed s ! ?ne"
    by (simp_all add: weak_items_def nth_append)
  have w: "wm_writes ?m ?l = Suc (2 * (?ne div ?c))" and full: "wk_buffer s ! slot_no q ?ne = Some (wk_pushed s ! ?ne)"
    using S(2) [of ?ne] ltw item by simp_all
  have "Suc (2 * (?ne div ?c)) \<le> ?V ?l"
    using C(3,5) by (simp add: knows_puts_def)
  moreover have seen: "?V ?l \<le> wm_writes ?m ?l"
    using C(1) by (simp add: within_def)
  ultimately have no_race: "\<not> races ?l ?m ?V"
    by (simp add: races_def w)
  have next_round: "(?ne + ?c) div ?c = Suc (?ne div ?c)"
    using div_add_self2 [of ?c ?ne] by simp
  have i: "sq_index q h = slot_no q ?ne"
    by (simp add: C(6) slot_no_def)
  let ?m1 = "fst (plain_access ?l ?m ?V)" and ?V1 = "?V(?l := Suc (Suc (2 * (?ne div ?c))))"
  have s': "weak_consumer code_orders q n s = s\<lparr> wk_mem := ?m1, wk_cview := ?V1,
      wk_buffer := (wk_buffer s)[slot_no q ?ne := None], wk_consumer := CTaken h,
      wk_taken := wk_taken s @ [wk_pushed s ! ?ne] \<rparr>"
    using no_race full inv w by (simp add: weak_consumer_def pc i Let_def split_beta weak_inv_def)
  show "wk_taken (weak_consumer code_orders q n s) = wk_taken s @ [wk_pushed s ! ?ne]"
    by (simp add: s')
  have grow: "?V (LSlot j) \<le> ?V1 (LSlot j)" for j
    using seen w by auto
  have "within ?m1 ?V1"
    using C(1) w by (auto simp: within_def le_Suc_eq)
  moreover have "knows_puts ?c q ?V1 (?V LTail)"
    by (rule knows_puts_mono [OF C(3) grow])
  moreover have "knows_takes ?c q ?V1 (Suc ?ne)"
    unfolding knows_takes_def
  proof (intro allI impI)
    fix j
    assume j: "j < Suc ?ne + ?c"
    show "2 * (j div ?c) \<le> ?V1 (LSlot (slot_no q j))"
    proof (cases "slot_no q j = slot_no q ?ne")
      case True
      have "j div ?c \<le> (?ne + ?c) div ?c"
        using j by (intro div_le_mono) simp
      then show ?thesis
        using True next_round by simp
    next
      case False
      then have "j < ?ne + ?c"
        using j slot_no_again [OF k, of ?ne] by (cases "j = ?ne + ?c") simp_all
      then show ?thesis
        using C(4) False by (simp add: knows_takes_def)
    qed
  qed
  moreover have "slots_hold ?c q (weak_consumer code_orders q n s)"
  proof -
    have "wm_writes ?m1 (LSlot (slot_no q j)) = 2 * (j div ?c) + (if j < ?nw then 1 else 0)
        \<and> (wk_buffer s)[slot_no q ?ne := None] ! slot_no q j = (if j < ?nw then Some (weak_items s ! j) else None)"
      if j: "Suc ?ne \<le> j" "j < Suc ?ne + ?c" for j
    proof (cases "j = ?ne + ?c")
      case True
      moreover have "?nw \<le> ?ne + ?c"
      proof -
        have "?nw \<le> wk_pview s LHead + ?c"
          using inv by (simp add: weak_inv_def producer_side_def Let_def)
        then show ?thesis
          using producer_pos(2) [OF inv] by linarith
      qed
      ultimately show ?thesis
        using w S(1) slot_no_less [OF k, of ?ne] slot_no_again [OF k, of ?ne] next_round by simp
    next
      case False
      then have "slot_no q j \<noteq> slot_no q ?ne"
        using slot_no_inj [OF k, of ?ne j ?ne] j by auto
      then show ?thesis
        using False S(2) [of j] j by auto
    qed
    then show ?thesis
      using S(1) by (simp add: slots_hold_def s' weak_items_def)
  qed
  moreover have "take (Suc ?ne) (wk_pushed s) = wk_taken s @ [wk_pushed s ! ?ne]"
    using inv lt by (simp add: weak_inv_def take_Suc_conv_app_nth)
  ultimately show "weak_inv k q (weak_consumer code_orders q n s)"
    using inv pc C(2,5,6) M
    by (simp add: weak_inv_def s' memory_ok_def producer_side_def consumer_side_def weak_items_def Let_def
        tail_stores_plain head_stores_plain within_plain)
qed

lemma weak_consumer_publishes:
  assumes k: "sq_shape k q" and inv: "weak_inv k q s" and pc: "wk_consumer s = CTaken h"
  shows "weak_inv k q (weak_consumer code_orders q n s)"
proof -
  let ?m = "wk_mem s" and ?V = "wk_cview s" and ?ne = "length (wk_taken s)" and ?c = "2 ^ k :: nat"
  have C: "within ?m ?V" "knows_takes ?c q ?V ?ne" "0 < ?ne" "h = sq_tail q + of_nat (?ne - 1)"
    using inv pc by (simp_all add: weak_inv_def consumer_side_def Let_def)
  have M: "head_stores ?c q ?m" "newest ?m LHead = ?ne - 1"
    using inv pc by (simp_all add: weak_inv_def memory_ok_def)
  have "knows_takes ?c q ?V (Suc (newest ?m LHead))" and "h + 1 = sq_tail q + of_nat (newest ?m LHead) + 1"
    using C(2-4) M(2) by simp_all
  note T = head_stores_store [OF M(1) C(1) this]
  have len: "length (wm_stores ?m LHead) = ?ne"
    using M C(3) by (cases "wm_stores ?m LHead") (simp_all add: head_stores_def newest_def)
  let ?m1 = "fst (weak_store True LHead (h + 1) ?m ?V)"
  have s': "weak_consumer code_orders q n s = s\<lparr> wk_mem := ?m1, wk_cview := ?V(LHead := ?ne), wk_consumer := CIdle \<rparr>"
    using len by (simp add: weak_consumer_def pc code_orders_def Let_def split_beta)
  have tail: "newest ?m1 LTail = newest ?m LTail"
    by (simp add: newest_store)
  show ?thesis
    using inv pc M T tail C(2,3)
    by (simp add: weak_inv_def s' memory_ok_def producer_side_def consumer_side_def slots_hold_def weak_items_def Let_def
        tail_stores_other within_store within_cursor)
qed

section \<open>All executions\<close>

lemma weak_producer_inv:
  assumes "sq_shape k q" and "weak_inv k q s"
  shows "weak_inv k q (weak_producer code_orders q x n s)"
proof (cases "wk_producer s")
  case PIdle
  then show ?thesis
    by (rule weak_producer_loads [OF assms disjI1])
next
  case (PHasTail y t)
  then show ?thesis
    by (rule weak_producer_loads [OF assms disjI2])
next
  case (PHasRoom y t)
  with assms show ?thesis
    by (intro weak_producer_constructs)
next
  case (PWritten y t)
  with assms show ?thesis
    by (intro weak_producer_publishes)
qed

lemma weak_consumer_inv:
  assumes "sq_shape k q" and "weak_inv k q s"
  shows "weak_inv k q (weak_consumer code_orders q n s)"
proof (cases "wk_consumer s")
  case CIdle
  then show ?thesis
    by (rule weak_consumer_loads [OF assms disjI1])
next
  case (CHasHead h)
  then show ?thesis
    by (rule weak_consumer_loads [OF assms disjI2])
next
  case (CNonEmpty h)
  with assms show ?thesis
    by (intro weak_consumer_takes)
next
  case (CTaken h)
  with assms show ?thesis
    by (intro weak_consumer_publishes)
qed

lemma weak_reach_inv:
  assumes "sq_shape k q" and "sq_inv q" and "sq_contents q = []" and "weak_reach code_orders q s"
  shows "weak_inv k q s"
  using assms(4) by induction (simp_all add: assms weak_inv_init weak_producer_inv weak_consumer_inv)

lemma weak_pop_newest:
  assumes k: "sq_shape k q" and inv: "weak_inv k q s" and pc: "wk_consumer s = CHasHead h"
    and n: "newest (wk_mem s) LTail \<le> n" and lt: "length (wk_taken s) < length (wk_pushed s)"
  shows "wk_taken (weak_consumer code_orders q n' (weak_consumer code_orders q n s))
    = wk_taken s @ [wk_pushed s ! length (wk_taken s)]"
proof -
  let ?s1 = "weak_consumer code_orders q n s"
  obtain t W where ld: "weak_load True LTail n (wk_mem s) (wk_cview s) = (t, W)"
    by fastforce
  have C: "within (wk_mem s) (wk_cview s)" "h = sq_tail q + of_nat (length (wk_taken s))"
    "tail_stores (2 ^ k) q (wk_mem s)" "newest (wk_mem s) LTail = length (wk_pushed s)"
    using inv pc by (simp_all add: weak_inv_def consumer_side_def memory_ok_def Let_def)
  have t: "t = sq_tail q + of_nat (length (wk_pushed s))"
    using load_tail(2,6) [OF C(1,3) ld] n C(4) by simp
  have "length (wk_pushed s) < length (wk_taken s) + 2 ^ 64"
    using weak_queued_le [OF inv] pow2_63 [OF sq_shapeD(1) [OF k]] by simp
  then have "h \<noteq> t"
    unfolding C(2) t using of_nat_offset_eq [of "length (wk_taken s)" "length (wk_pushed s)" "sq_tail q"] lt by auto
  then have s1: "wk_consumer ?s1 = CNonEmpty h" "wk_taken ?s1 = wk_taken s" "wk_pushed ?s1 = wk_pushed s"
    using ld by (simp_all add: weak_consumer_def pc code_orders_def Let_def)
  show ?thesis
    using weak_consumer_takes(2) [OF k weak_consumer_inv [OF k inv, of n] s1(1)] s1(2,3) by simp
qed

lemma weak_push_newest:
  assumes k: "sq_shape k q" and inv: "weak_inv k q s" and pc: "wk_producer s = PHasTail y t"
    and n: "newest (wk_mem s) LHead \<le> n"
  shows "wk_rejected (weak_producer code_orders q x n s)
    = (if length (wk_pushed s) = newest (wk_mem s) LHead + 2 ^ k then wk_rejected s @ [y] else wk_rejected s)"
proof -
  obtain h W where ld: "weak_load True LHead n (wk_mem s) (wk_pview s) = (h, W)"
    by fastforce
  have P: "within (wk_mem s) (wk_pview s)" "head_stores (2 ^ k) q (wk_mem s)"
    "length (wk_pushed s) \<le> wk_pview s LHead + 2 ^ k" "t = sq_tail q + of_nat (length (wk_pushed s))"
    "newest (wk_mem s) LHead \<le> length (wk_taken s)"
    using inv pc by (simp_all add: weak_inv_def producer_side_def memory_ok_def Let_def weak_items_def)
  note L = load_head [OF P(1,2) ld]
  have W: "W LHead = newest (wk_mem s) LHead"
    using L(6) n .
  have "W LHead \<le> length (wk_pushed s)" "length (wk_pushed s) \<le> W LHead + 2 ^ k"
    using producer_pos(1) [OF inv] P(3,5) L(1) W by linarith+
  then have "sq_full q t h \<longleftrightarrow> length (wk_pushed s) = newest (wk_mem s) LHead + 2 ^ k"
    unfolding L(2) P(4) W [symmetric] by (rule sq_full_weak [OF k])
  then show ?thesis
    using ld by (simp add: weak_producer_def pc code_orders_def Let_def)
qed

text \<open>
  C4: On a memory with release and acquire, where a load may see an old store, the orders the code asks for
  are enough: in every execution of one producer and one consumer no access to a slot races with another
  or finds it in the wrong state, the elements taken are the first ones pushed, each once and in order, and
  at most \<open>capacity\<close> are queued. A \<open>pop\<close> that sees the newest tail takes an element if there is one, and a \<open>push\<close>
  that sees the newest head is rejected only if the ring is full.
\<close>

theorem spsc_release_acquire:
  fixes q :: "'a spsc_queue"
  assumes "spsc_new (2 ^ k) = Inr q" and "k < 64" and "weak_reach code_orders q s"
  shows "\<not> wk_race s \<and> wk_taken s = take (length (wk_taken s)) (wk_pushed s)
    \<and> length (wk_pushed s) \<le> length (wk_taken s) + 2 ^ k
    \<and> (\<forall>h n n'. wk_consumer s = CHasHead h \<and> newest (wk_mem s) LTail \<le> n \<and> length (wk_taken s) < length (wk_pushed s)
        \<longrightarrow> wk_taken (weak_consumer code_orders q n' (weak_consumer code_orders q n s))
            = wk_taken s @ [wk_pushed s ! length (wk_taken s)])
    \<and> (\<forall>x y t n. wk_producer s = PHasTail y t \<and> newest (wk_mem s) LHead \<le> n
        \<longrightarrow> wk_rejected (weak_producer code_orders q x n s)
            = (if length (wk_pushed s) = newest (wk_mem s) LHead + 2 ^ k then wk_rejected s @ [y] else wk_rejected s))"
proof -
  have Q: "sq_shape k q" "sq_inv q" "sq_contents q = []"
    using spsc_new_Inr [OF assms(1,2)] by auto
  note inv = weak_reach_inv [OF Q assms(3)]
  have "\<not> wk_race s" and "wk_taken s = take (length (wk_taken s)) (wk_pushed s)"
    using inv by (simp_all add: weak_inv_def)
  then show ?thesis
    using weak_queued_le [OF inv] weak_pop_newest [OF Q(1) inv] weak_push_newest [OF Q(1) inv] by blast
qed

section \<open>Executions\<close>

datatype 'a weak_event = Produce 'a nat | Consume nat

fun weak_run :: "spsc_orders \<Rightarrow> 'a spsc_queue \<Rightarrow> 'a weak_event list \<Rightarrow> 'a weak_spsc \<Rightarrow> 'a weak_spsc" where
  "weak_run ord q [] s = s"
| "weak_run ord q (Produce x n # es) s = weak_run ord q es (weak_producer ord q x n s)"
| "weak_run ord q (Consume n # es) s = weak_run ord q es (weak_consumer ord q n s)"

lemma weak_run_reach: "weak_reach ord q s \<Longrightarrow> weak_reach ord q (weak_run ord q es s)"
  by (induction ord q es s rule: weak_run.induct) (auto intro: weak_push weak_pop)

definition one_slot :: "nat spsc_queue" where
  "one_slot = \<lparr> sq_capacity = 1, sq_mask = 0, sq_tail = 0, sq_head = 0, sq_buffer = [None] \<rparr>"

lemma one_slot_new: "spsc_new (2 ^ 0) = Inr one_slot"
  by (simp add: spsc_new_def one_slot_def)

text \<open>A \<open>pop\<close> that still sees the old tail, a push rejected on an old head, and then the next round.\<close>

definition stale_events :: "nat weak_event list" where
  "stale_events = map (Produce 7) [0, 0, 0, 0] @ map Consume [0, 0, 0, 1, 1, 1] @ map (Produce 8) [0, 0, 0, 1, 1, 1] @ [Consume 9]"

definition stale_state :: "nat weak_spsc" where
  "stale_state = weak_run code_orders one_slot stale_events (weak_init one_slot)"

lemma stale_state_reach: "weak_reach code_orders one_slot stale_state"
  unfolding stale_state_def by (rule weak_run_reach [OF weak_start])

lemma stale_state_run:
  "wk_pushed stale_state = [7, 8]" "wk_taken stale_state = [7]" "wk_rejected stale_state = [8]"
  "wk_consumer stale_state = CHasHead 1" "newest (wk_mem stale_state) LTail = 2"
  by code_simp+

theorem spsc_release_acquire_witness:
  "\<not> wk_race stale_state
   \<and> wk_taken (weak_consumer code_orders one_slot 0 (weak_consumer code_orders one_slot 2 stale_state)) = [7, 8]"
  using spsc_release_acquire [OF one_slot_new _ stale_state_reach] stale_state_run by simp

text \<open>Each of the four orders is needed: with any one of them relaxed an execution has a data race.\<close>

lemma spsc_orders_needed:
  assumes "ord \<in> {code_orders\<lparr> so_load_head := False \<rparr>, code_orders\<lparr> so_store_tail := False \<rparr>,
      code_orders\<lparr> so_load_tail := False \<rparr>, code_orders\<lparr> so_store_head := False \<rparr>}"
  shows "\<exists>s. weak_reach ord one_slot s \<and> wk_race s"
proof -
  let ?es = "map (Produce 7) [0, 0, 0, 0] @ map Consume [0, 1, 1, 1] @ map (Produce 8) [0, 1, 1]"
  have "wk_race (weak_run (code_orders\<lparr> so_load_head := False \<rparr>) one_slot ?es (weak_init one_slot))"
    "wk_race (weak_run (code_orders\<lparr> so_store_tail := False \<rparr>) one_slot ?es (weak_init one_slot))"
    "wk_race (weak_run (code_orders\<lparr> so_load_tail := False \<rparr>) one_slot ?es (weak_init one_slot))"
    "wk_race (weak_run (code_orders\<lparr> so_store_head := False \<rparr>) one_slot ?es (weak_init one_slot))"
    by code_simp+
  then show ?thesis
    using assms weak_run_reach [OF weak_start, of ord one_slot ?es] by (intro exI [of _ "weak_run ord one_slot ?es (weak_init one_slot)"]) auto
qed

end
