(* ===== verification/Unique_Task.thy ===== *)
theory Unique_Task
  imports Novaio_Prelude
begin

text \<open>
  \<open>UniqueTask\<close> of \<open>include/novaio/scheduler.hpp\<close>: a type-erased, move-only closure. Its storage is
  three pointers; the closures themselves live in \<open>mi_malloc\<close> memory, a map from addresses. A
  system state holds the program's \<open>UniqueTask\<close> variables and that memory; the step relation lets
  a program construct, move, call and destroy variables in any order that C++ lifetimes allow.
\<close>

section \<open>Storage and operations\<close>

record task_storage =
  ts_ptr :: addr
  ts_invoker :: addr
  ts_deleter :: addr

definition ut_empty :: task_storage where
  "ut_empty = \<lparr> ts_ptr = nullptr, ts_invoker = nullptr, ts_deleter = nullptr \<rparr>"

definition ut_bool :: "task_storage \<Rightarrow> bool" where
  "ut_bool s \<longleftrightarrow> ts_invoker s \<noteq> nullptr"

text \<open>The memory of closures, with what was called and what was destroyed. \<open>ut_fault\<close> records a
  call or a destruction of a closure that is not there.\<close>

record 'c task_heap =
  ut_cells :: "addr \<Rightarrow> 'c option"
  ut_invoked :: "'c list"
  ut_destroyed :: "'c list"
  ut_fault :: bool

text \<open>The templated constructor: \<open>a\<close> is the block \<open>mi_malloc\<close> returned, \<open>i\<close> and \<open>d\<close> are the two
  lambdas instantiated for the closure's type.\<close>

definition ut_make :: "addr \<Rightarrow> addr \<Rightarrow> addr \<Rightarrow> 'c \<Rightarrow> 'c task_heap \<Rightarrow> task_storage \<times> 'c task_heap" where
  "ut_make a i d c h =
     (\<lparr> ts_ptr = a, ts_invoker = i, ts_deleter = d \<rparr>, h\<lparr> ut_cells := (ut_cells h)(a := Some c) \<rparr>)"

definition ut_cleanup :: "task_storage \<Rightarrow> 'c task_heap \<Rightarrow> 'c task_heap" where
  "ut_cleanup s h =
     (if ts_deleter s \<noteq> nullptr
      then (case ut_cells h (ts_ptr s) of
              None \<Rightarrow> h\<lparr> ut_fault := True \<rparr>
            | Some c \<Rightarrow> h\<lparr> ut_cells := (ut_cells h)(ts_ptr s := None),
                           ut_destroyed := ut_destroyed h @ [c] \<rparr>)
      else h)"

definition ut_call :: "task_storage \<Rightarrow> 'c task_heap \<Rightarrow> 'c task_heap" where
  "ut_call s h =
     (if ts_invoker s \<noteq> nullptr
      then (case ut_cells h (ts_ptr s) of
              None \<Rightarrow> h\<lparr> ut_fault := True \<rparr>
            | Some c \<Rightarrow> h\<lparr> ut_invoked := ut_invoked h @ [c] \<rparr>)
      else h)"

section \<open>Programs over UniqueTask variables\<close>

text \<open>A variable is alive (\<open>Some\<close>) between its construction and the end of its lifetime.\<close>

record 'c task_sys =
  ut_vars :: "nat \<Rightarrow> task_storage option"
  ut_heap :: "'c task_heap"
  ut_made :: "'c list"

definition ut_start :: "'c task_sys" where
  "ut_start = \<lparr> ut_vars = (\<lambda>_. None),
     ut_heap = \<lparr> ut_cells = (\<lambda>_. None), ut_invoked = [], ut_destroyed = [], ut_fault = False \<rparr>,
     ut_made = [] \<rparr>"

definition var_default :: "nat \<Rightarrow> 'c task_sys \<Rightarrow> 'c task_sys" where
  "var_default v s = s\<lparr> ut_vars := (ut_vars s)(v \<mapsto> ut_empty) \<rparr>"

definition var_make :: "nat \<Rightarrow> addr \<Rightarrow> addr \<Rightarrow> addr \<Rightarrow> 'c \<Rightarrow> 'c task_sys \<Rightarrow> 'c task_sys" where
  "var_make v a i d c s =
     (let (st, h) = ut_make a i d c (ut_heap s)
      in s\<lparr> ut_vars := (ut_vars s)(v \<mapsto> st), ut_heap := h, ut_made := ut_made s @ [c] \<rparr>)"

definition var_move :: "nat \<Rightarrow> nat \<Rightarrow> 'c task_sys \<Rightarrow> 'c task_sys" where
  "var_move v other s =
     s\<lparr> ut_vars := (ut_vars s)(v := ut_vars s other, other := Some ut_empty) \<rparr>"

definition var_assign :: "nat \<Rightarrow> nat \<Rightarrow> 'c task_sys \<Rightarrow> 'c task_sys" where
  "var_assign v other s =
     (if v \<noteq> other
      then s\<lparr> ut_heap := ut_cleanup (the (ut_vars s v)) (ut_heap s),
              ut_vars := (ut_vars s)(v := ut_vars s other, other := Some ut_empty) \<rparr>
      else s)"

definition var_destroy :: "nat \<Rightarrow> 'c task_sys \<Rightarrow> 'c task_sys" where
  "var_destroy v s =
     s\<lparr> ut_heap := ut_cleanup (the (ut_vars s v)) (ut_heap s), ut_vars := (ut_vars s)(v := None) \<rparr>"

definition var_call :: "nat \<Rightarrow> 'c task_sys \<Rightarrow> 'c task_sys" where
  "var_call v s = s\<lparr> ut_heap := ut_call (the (ut_vars s v)) (ut_heap s) \<rparr>"

text \<open>
  The programs: variables are constructed once and then alive until destroyed; \<open>mi_malloc\<close>
  returns a block that is not null and not in use; the instantiated lambdas are not null.
\<close>

inductive ut_reach :: "'c task_sys \<Rightarrow> bool" where
  ut_init: "ut_reach ut_start"
| ut_default: "ut_reach s \<Longrightarrow> ut_vars s v = None \<Longrightarrow> ut_reach (var_default v s)"
| ut_make: "ut_reach s \<Longrightarrow> ut_vars s v = None \<Longrightarrow> a \<noteq> nullptr \<Longrightarrow> ut_cells (ut_heap s) a = None \<Longrightarrow>
     i \<noteq> nullptr \<Longrightarrow> d \<noteq> nullptr \<Longrightarrow> ut_reach (var_make v a i d c s)"
| ut_move: "ut_reach s \<Longrightarrow> ut_vars s v = None \<Longrightarrow> ut_vars s other \<noteq> None \<Longrightarrow>
     ut_reach (var_move v other s)"
| ut_assign: "ut_reach s \<Longrightarrow> ut_vars s v \<noteq> None \<Longrightarrow> ut_vars s other \<noteq> None \<Longrightarrow>
     ut_reach (var_assign v other s)"
| ut_destroy: "ut_reach s \<Longrightarrow> ut_vars s v \<noteq> None \<Longrightarrow> ut_reach (var_destroy v s)"
| ut_calls: "ut_reach s \<Longrightarrow> ut_vars s v \<noteq> None \<Longrightarrow> ut_reach (var_call v s)"

section \<open>Unique ownership\<close>

text \<open>Variable \<open>v\<close> owns the closure at \<open>a\<close>.\<close>

definition owns :: "'c task_sys \<Rightarrow> nat \<Rightarrow> addr \<Rightarrow> bool" where
  "owns s v a \<longleftrightarrow> (\<exists>st. ut_vars s v = Some st \<and> ts_ptr st = a \<and> a \<noteq> nullptr)"

definition storage_ok :: "task_storage \<Rightarrow> bool" where
  "storage_ok st \<longleftrightarrow> (ts_ptr st = nullptr \<longleftrightarrow> ts_invoker st = nullptr)
     \<and> (ts_ptr st = nullptr \<longleftrightarrow> ts_deleter st = nullptr)"

definition live_closures :: "'c task_heap \<Rightarrow> addr set" where
  "live_closures h = {a. ut_cells h a \<noteq> None}"

definition ut_inv :: "'c task_sys \<Rightarrow> bool" where
  "ut_inv s \<longleftrightarrow>
     (\<forall>v st. ut_vars s v = Some st \<longrightarrow> storage_ok st)
     \<and> (\<forall>a. a \<in> live_closures (ut_heap s) \<longleftrightarrow> (\<exists>v. owns s v a))
     \<and> (\<forall>v w a. owns s v a \<longrightarrow> owns s w a \<longrightarrow> v = w)
     \<and> finite (live_closures (ut_heap s))
     \<and> mset (ut_made s) = mset (ut_destroyed (ut_heap s))
         + image_mset (\<lambda>a. the (ut_cells (ut_heap s) a)) (mset_set (live_closures (ut_heap s)))
     \<and> \<not> ut_fault (ut_heap s)"

lemma storage_ok_empty [simp]: "storage_ok ut_empty"
  by (simp add: storage_ok_def ut_empty_def)

lemma ptr_empty [simp]: "ts_ptr ut_empty = nullptr" "ts_deleter ut_empty = nullptr" "ts_invoker ut_empty = nullptr"
  by (simp_all add: ut_empty_def)

lemma live_updates:
  "live_closures (h\<lparr> ut_cells := (ut_cells h)(a := Some c) \<rparr>) = insert a (live_closures h)"
  "live_closures (h\<lparr> ut_cells := (ut_cells h)(a := None), ut_destroyed := ds \<rparr>) = live_closures h - {a}"
  by (auto simp: live_closures_def)

text \<open>Destroying what an alive variable owns: exactly that closure goes, without a fault.\<close>

lemma cleanup_owned:
  assumes inv: "ut_inv s" and v: "ut_vars s v = Some st"
  shows "live_closures (ut_cleanup st (ut_heap s)) = live_closures (ut_heap s) - {ts_ptr st}"
    and "\<not> ut_fault (ut_cleanup st (ut_heap s))"
    and "mset (ut_destroyed (ut_cleanup st (ut_heap s)))
         + image_mset (\<lambda>a. the (ut_cells (ut_cleanup st (ut_heap s)) a))
             (mset_set (live_closures (ut_cleanup st (ut_heap s)))) = mset (ut_made s)"
proof -
  have ok: "storage_ok st"
    using inv v by (simp add: ut_inv_def)
  have fin: "finite (live_closures (ut_heap s))" and nf: "\<not> ut_fault (ut_heap s)"
    and made: "mset (ut_made s) = mset (ut_destroyed (ut_heap s))
         + image_mset (\<lambda>a. the (ut_cells (ut_heap s) a)) (mset_set (live_closures (ut_heap s)))"
    using inv unfolding ut_inv_def by blast+
  show "live_closures (ut_cleanup st (ut_heap s)) = live_closures (ut_heap s) - {ts_ptr st}"
    "\<not> ut_fault (ut_cleanup st (ut_heap s))"
    "mset (ut_destroyed (ut_cleanup st (ut_heap s)))
         + image_mset (\<lambda>a. the (ut_cells (ut_cleanup st (ut_heap s)) a))
             (mset_set (live_closures (ut_cleanup st (ut_heap s)))) = mset (ut_made s)"
  proof (atomize (full), cases "ts_ptr st = nullptr")
    case True
    then have "ts_deleter st = nullptr"
      using ok by (simp add: storage_ok_def)
    moreover have "nullptr \<notin> live_closures (ut_heap s)"
      using inv unfolding ut_inv_def owns_def by blast
    ultimately show "live_closures (ut_cleanup st (ut_heap s)) = live_closures (ut_heap s) - {ts_ptr st} \<and>
      \<not> ut_fault (ut_cleanup st (ut_heap s)) \<and>
      mset (ut_destroyed (ut_cleanup st (ut_heap s)))
         + image_mset (\<lambda>a. the (ut_cells (ut_cleanup st (ut_heap s)) a))
             (mset_set (live_closures (ut_cleanup st (ut_heap s)))) = mset (ut_made s)"
      using True nf made by (simp add: ut_cleanup_def)
  next
    case False
    let ?a = "ts_ptr st" and ?L = "live_closures (ut_heap s)"
    have "owns s v ?a"
      using v False by (simp add: owns_def)
    then have a: "?a \<in> ?L"
      using inv unfolding ut_inv_def by blast
    then obtain c where c: "ut_cells (ut_heap s) ?a = Some c"
      by (auto simp: live_closures_def)
    have cl: "ut_cleanup st (ut_heap s) = (ut_heap s)\<lparr> ut_cells := (ut_cells (ut_heap s))(?a := None),
        ut_destroyed := ut_destroyed (ut_heap s) @ [c] \<rparr>"
      using False ok c by (simp add: ut_cleanup_def storage_ok_def)
    have "mset_set ?L = add_mset ?a (mset_set (?L - {?a}))"
      using fin a by (simp add: mset_set.remove)
    moreover have "image_mset (\<lambda>x. the (((ut_cells (ut_heap s))(?a := None)) x)) (mset_set (?L - {?a}))
        = image_mset (\<lambda>x. the (ut_cells (ut_heap s) x)) (mset_set (?L - {?a}))"
      using fin by (intro image_mset_cong) auto
    ultimately show "live_closures (ut_cleanup st (ut_heap s)) = ?L - {?a} \<and>
      \<not> ut_fault (ut_cleanup st (ut_heap s)) \<and>
      mset (ut_destroyed (ut_cleanup st (ut_heap s)))
         + image_mset (\<lambda>a. the (ut_cells (ut_cleanup st (ut_heap s)) a))
             (mset_set (live_closures (ut_cleanup st (ut_heap s)))) = mset (ut_made s)"
      using nf made c by (simp add: cl live_updates)
  qed
qed

section \<open>Every operation keeps unique ownership\<close>

lemma ut_invD:
  assumes "ut_inv s"
  shows "ut_vars s v = Some st \<Longrightarrow> storage_ok st"
    and "a \<in> live_closures (ut_heap s) \<longleftrightarrow> (\<exists>v. owns s v a)"
    and "owns s v a \<Longrightarrow> owns s w a \<Longrightarrow> v = w"
    and "finite (live_closures (ut_heap s))"
    and "mset (ut_made s) = mset (ut_destroyed (ut_heap s))
         + image_mset (\<lambda>a. the (ut_cells (ut_heap s) a)) (mset_set (live_closures (ut_heap s)))"
    and "\<not> ut_fault (ut_heap s)"
  using assms unfolding ut_inv_def by blast+

lemma ut_inv_default: "ut_inv s \<Longrightarrow> ut_vars s v = None \<Longrightarrow> ut_inv (var_default v s)"
proof -
  assume inv: "ut_inv s" and v: "ut_vars s v = None"
  have "owns (var_default v s) w a \<longleftrightarrow> owns s w a" for w a
    using v by (auto simp: owns_def var_default_def)
  then show ?thesis
    using inv by (simp add: ut_inv_def var_default_def)
qed

lemma ut_inv_make:
  assumes inv: "ut_inv s" and v: "ut_vars s v = None" and a: "a \<noteq> nullptr"
    and fresh: "ut_cells (ut_heap s) a = None" and fn: "i \<noteq> nullptr" "d \<noteq> nullptr"
  shows "ut_inv (var_make v a i d c s)"
proof -
  let ?s = "var_make v a i d c s" and ?L = "live_closures (ut_heap s)"
  have own: "owns ?s w b \<longleftrightarrow> (if w = v then b = a else owns s w b)" for w b
    using a by (auto simp: owns_def var_make_def ut_make_def)
  have a_dead: "a \<notin> ?L"
    using fresh by (simp add: live_closures_def)
  have live: "live_closures (ut_heap ?s) = insert a ?L"
    by (simp add: var_make_def ut_make_def live_updates)
  have not_owned: "\<not> owns s w a" for w
    using a_dead ut_invD(2) [OF inv] by blast
  have "\<not> owns s v b" for b
    using v by (simp add: owns_def)
  then have "b \<in> insert a ?L \<longleftrightarrow> (\<exists>w. owns ?s w b)" for b
    unfolding own insert_iff ut_invD(2) [OF inv] by (metis (full_types))
  moreover have "owns ?s w b \<longrightarrow> owns ?s u b \<longrightarrow> w = u" for w u b
    using own not_owned ut_invD(3) [OF inv] by metis
  moreover have "image_mset (\<lambda>b. the (((ut_cells (ut_heap s))(a := Some c)) b)) (mset_set ?L)
      = image_mset (\<lambda>b. the (ut_cells (ut_heap s) b)) (mset_set ?L)"
    using a_dead ut_invD(4) [OF inv] by (intro image_mset_cong) auto
  moreover have "ut_vars ?s w = Some st \<longrightarrow> storage_ok st" for w st
    using ut_invD(1) [OF inv] a fn by (auto simp: var_make_def ut_make_def storage_ok_def)
  ultimately show ?thesis
    using live ut_invD(4,5,6) [OF inv] a_dead
    by (simp add: ut_inv_def) (simp add: var_make_def ut_make_def)
qed

lemma ut_inv_move:
  assumes inv: "ut_inv s" and v: "ut_vars s v = None" and other: "ut_vars s u \<noteq> None"
  shows "ut_inv (var_move v u s)"
proof -
  have own: "owns (var_move v u s) w a \<longleftrightarrow> (if w = u then False else if w = v then owns s u a else owns s w a)"
    for w a
    using v other by (auto simp: owns_def var_move_def)
  have "\<not> owns s v a" for a
    using v by (simp add: owns_def)
  then have "(\<exists>w. owns (var_move v u s) w a) \<longleftrightarrow> (\<exists>w. owns s w a)" for a
    unfolding own using v other by metis
  moreover have "owns (var_move v u s) w a \<longrightarrow> owns (var_move v u s) x a \<longrightarrow> w = x" for w x a
    unfolding own using ut_invD(3) [OF inv] by metis
  moreover have "ut_vars (var_move v u s) w = Some st \<longrightarrow> storage_ok st" for w st
    using ut_invD(1) [OF inv] by (auto simp: var_move_def)
  ultimately show ?thesis
    using inv by (simp add: ut_inv_def) (simp add: var_move_def)
qed

lemma ut_inv_cleaned:
  assumes inv: "ut_inv s" and v: "ut_vars s v = Some st"
    and own: "\<And>w a. owns s' w a \<longleftrightarrow> (if w = v then n a else w \<notin> gone \<and> owns s w a)"
    and n: "\<And>a. n a \<longleftrightarrow> (\<exists>u \<in> gone. owns s u a)" and gone: "v \<notin> gone"
    and vars: "\<And>w st'. ut_vars s' w = Some st' \<Longrightarrow> storage_ok st'"
    and heap: "ut_heap s' = ut_cleanup st (ut_heap s)" and made: "ut_made s' = ut_made s"
  shows "ut_inv s'"
proof -
  note cl = cleanup_owned [OF inv v]
  have vp: "owns s v a \<longleftrightarrow> a = ts_ptr st \<and> a \<noteq> nullptr" for a
    using v by (auto simp: owns_def)
  have mine: "owns s w (ts_ptr st) \<Longrightarrow> w = v" for w
    using ut_invD(3) [OF inv] vp unfolding owns_def by blast
  have "(\<exists>w. owns s' w a) \<longleftrightarrow> a \<noteq> ts_ptr st \<and> (\<exists>w. owns s w a)" for a
    unfolding own n using mine vp gone by metis
  then have "a \<in> live_closures (ut_heap s') \<longleftrightarrow> (\<exists>w. owns s' w a)" for a
    using cl(1) heap ut_invD(2) [OF inv, of a] by auto
  moreover have "owns s' w a \<longrightarrow> owns s' x a \<longrightarrow> w = x" for w x a
    unfolding own n using ut_invD(3) [OF inv] by metis
  ultimately show ?thesis
    using cl ut_invD(4) [OF inv] vars by (simp add: ut_inv_def heap made)
qed

lemma ut_inv_assign:
  assumes inv: "ut_inv s" and v: "ut_vars s v \<noteq> None" and other: "ut_vars s u \<noteq> None"
  shows "ut_inv (var_assign v u s)"
proof (cases "v = u")
  case False
  obtain st where st: "ut_vars s v = Some st"
    using v by blast
  show ?thesis
  proof (rule ut_inv_cleaned [OF inv st, where gone = "{u}" and n = "owns s u"])
    show "owns (var_assign v u s) w a \<longleftrightarrow> (if w = v then owns s u a else w \<notin> {u} \<and> owns s w a)" for w a
      using False other by (auto simp: owns_def var_assign_def)
    show "storage_ok st'" if "ut_vars (var_assign v u s) w = Some st'" for w st'
      using that ut_invD(1) [OF inv] False by (auto simp: var_assign_def split: if_splits)
  qed (use False st in \<open>simp_all add: var_assign_def\<close>)
qed (simp add: var_assign_def inv)

lemma ut_inv_destroy:
  assumes inv: "ut_inv s" and v: "ut_vars s v \<noteq> None"
  shows "ut_inv (var_destroy v s)"
proof -
  obtain st where st: "ut_vars s v = Some st"
    using v by blast
  show ?thesis
  proof (rule ut_inv_cleaned [OF inv st, where gone = "{}" and n = "\<lambda>_. False"])
    show "owns (var_destroy v s) w a \<longleftrightarrow> (if w = v then False else w \<notin> {} \<and> owns s w a)" for w a
      by (auto simp: owns_def var_destroy_def)
    show "storage_ok st'" if "ut_vars (var_destroy v s) w = Some st'" for w st'
      using that ut_invD(1) [OF inv] by (auto simp: var_destroy_def split: if_splits)
  qed (use st in \<open>simp_all add: var_destroy_def\<close>)
qed

lemma call_cells [simp]:
  assumes "ut_inv s" and "ut_vars s v = Some st"
  shows "ut_call st (ut_heap s) = (ut_heap s)\<lparr> ut_invoked := ut_invoked (ut_heap s)
     @ (if ut_bool st then [the (ut_cells (ut_heap s) (ts_ptr st))] else []) \<rparr>"
proof (cases "ts_invoker st = nullptr")
  case False
  then have "owns s v (ts_ptr st)"
    using assms ut_invD(1) [OF assms] by (simp add: owns_def storage_ok_def)
  then have "ts_ptr st \<in> live_closures (ut_heap s)"
    using ut_invD(2) [OF assms(1)] by blast
  then show ?thesis
    using False by (auto simp: ut_call_def ut_bool_def live_closures_def)
qed (simp add: ut_call_def ut_bool_def)

lemma ut_inv_call:
  assumes inv: "ut_inv s" and v: "ut_vars s v \<noteq> None"
  shows "ut_inv (var_call v s)"
proof -
  obtain st where st: "ut_vars s v = Some st"
    using v by blast
  have "owns (var_call v s) w a \<longleftrightarrow> owns s w a" for w a
    by (simp add: owns_def var_call_def)
  then show ?thesis
    using inv st by (simp add: ut_inv_def) (simp add: var_call_def live_closures_def inv)
qed

lemma ut_reach_inv: "ut_reach s \<Longrightarrow> ut_inv s"
proof (induction rule: ut_reach.induct)
  case ut_init
  show ?case
    by (simp add: ut_inv_def ut_start_def owns_def live_closures_def)
qed (auto intro: ut_inv_default ut_inv_make ut_inv_move ut_inv_assign ut_inv_destroy ut_inv_call)

section \<open>Properties\<close>

text \<open>
  C9: whatever a program does with its \<open>UniqueTask\<close> variables, no closure is called or destroyed
  after its destruction, the closures destroyed so far and those still owned are together exactly
  the closures created, and when the last variable is gone every closure has been destroyed
  exactly once: there is neither a double destruction nor a leak.
\<close>

theorem unique_task_exactly_once:
  assumes "ut_reach s"
  shows "\<not> ut_fault (ut_heap s)
     \<and> mset (ut_destroyed (ut_heap s)) \<subseteq># mset (ut_made s)
     \<and> ((\<forall>v. ut_vars s v = None) \<longrightarrow> mset (ut_destroyed (ut_heap s)) = mset (ut_made s))"
proof -
  note inv = ut_reach_inv [OF assms]
  have "live_closures (ut_heap s) = {}" if "\<forall>v. ut_vars s v = None"
    using that ut_invD(2) [OF inv] by (auto simp: owns_def)
  then show ?thesis
    using ut_invD(5,6) [OF inv] by simp
qed

definition ut_example :: "string task_sys" where
  "ut_example = var_destroy 0 (var_call 0 (var_assign 0 1
     (var_default 0 (var_make 1 16 4 5 ''f'' ut_start))))"

lemma ut_example_reach: "ut_reach (var_destroy 1 ut_example)"
proof -
  have "ut_reach (var_make 1 16 4 5 ''f'' ut_start)"
    by (rule ut_make [OF ut_init]) (simp_all add: ut_start_def)
  then have "ut_reach (var_default 0 (var_make 1 16 4 5 ''f'' ut_start))"
    by (rule ut_default) (simp add: var_make_def ut_make_def ut_start_def)
  then have "ut_reach (var_assign 0 1 (var_default 0 (var_make 1 16 4 5 ''f'' ut_start)))"
    by (rule ut_assign) (simp_all add: var_default_def var_make_def ut_make_def)
  then have "ut_reach (var_call 0 (var_assign 0 1 (var_default 0 (var_make 1 16 4 5 ''f'' ut_start))))"
    by (rule ut_calls) (simp add: var_assign_def var_default_def var_make_def ut_make_def)
  then have "ut_reach ut_example"
    unfolding ut_example_def
    by (rule ut_destroy) (simp add: var_call_def var_assign_def var_default_def var_make_def ut_make_def)
  then show ?thesis
    by (rule ut_destroy)
      (simp add: ut_example_def var_destroy_def var_call_def var_assign_def)
qed

theorem unique_task_exactly_once_witness:
  "mset (ut_destroyed (ut_heap (var_destroy 1 ut_example))) = {# ''f'' #}"
proof -
  have "\<forall>v. ut_vars (var_destroy 1 ut_example) v = None"
    "ut_made (var_destroy 1 ut_example) = [''f'']"
    by (simp_all add: ut_example_def var_destroy_def var_call_def var_assign_def
        var_default_def var_make_def ut_make_def ut_start_def)
  then show ?thesis
    using unique_task_exactly_once [OF ut_example_reach] by simp
qed

end
