(* ===== verification/Io_Context.thy ===== *)
theory Io_Context
  imports Novaio_Prelude
begin

text \<open>
  \<open>include/novaio/io_context.hpp\<close> and the completion of one-shot operations in \<open>IoEngine::poll\<close>:
  the heap-allocated \<open>IoContext\<close> that links a request in flight with the coroutine awaiting it, and
  the \<open>SafeIoAwaiter\<close> that owns it. The step relation below lets the coroutine, the ring and the
  destruction of coroutines interleave freely; the ring posts exactly one completion per request.
\<close>

section \<open>Contexts and the awaiter\<close>

record io_context =
  ctx_res :: int
  ctx_flags :: u32
  ctx_coro :: handle
  ctx_cancelled :: bool

definition io_context_new :: io_context where
  "io_context_new = \<lparr> ctx_res = 0, ctx_flags = 0, ctx_coro = nullptr, ctx_cancelled = False \<rparr>"

record io_result =
  ior_res :: int
  ior_flags :: u32

text \<open>The memory of contexts; a fault is an access to a context that has been deleted.\<close>

record io_heap =
  io_ctx :: "addr \<Rightarrow> io_context option"
  io_fault :: bool

definition ctx_access :: "addr \<Rightarrow> (io_context \<Rightarrow> io_context option) \<Rightarrow> io_heap \<Rightarrow> io_heap" where
  "ctx_access a f h =
     (case io_ctx h a of
        None \<Rightarrow> h\<lparr> io_fault := True \<rparr>
      | Some c \<Rightarrow> h\<lparr> io_ctx := (io_ctx h)(a := f c) \<rparr>)"

definition safe_await_ready :: bool where
  "safe_await_ready = False"

definition safe_await_suspend :: "addr \<Rightarrow> handle \<Rightarrow> io_heap \<Rightarrow> io_heap" where
  "safe_await_suspend ctx h = ctx_access ctx (\<lambda>c. Some (c\<lparr> ctx_coro := h \<rparr>))"

text \<open>\<open>await_resume\<close> reads the result, deletes the context and clears the awaiter's pointer.\<close>

definition safe_await_resume :: "addr \<Rightarrow> io_heap \<Rightarrow> (io_result \<times> addr) \<times> io_heap" where
  "safe_await_resume ctx h =
     (let c = the (io_ctx h ctx)
      in ((\<lparr> ior_res = ctx_res c, ior_flags = ctx_flags c \<rparr>, nullptr), ctx_access ctx (\<lambda>_. None) h))"

definition safe_awaiter_destroy :: "addr \<Rightarrow> io_heap \<Rightarrow> io_heap" where
  "safe_awaiter_destroy ctx h =
     (if ctx \<noteq> nullptr then ctx_access ctx (\<lambda>c. Some (c\<lparr> ctx_cancelled := True \<rparr>)) h else h)"

text \<open>The move constructor: the new awaiter's pointer and the pointer left in the old one.\<close>

definition safe_awaiter_move :: "addr \<Rightarrow> addr \<times> addr" where
  "safe_awaiter_move other = (other, nullptr)"

text \<open>The \<open>TAG_IO\<close> branch of \<open>poll\<close>: the handles it schedules and the memory after it.\<close>

definition complete_io :: "addr \<Rightarrow> int \<Rightarrow> u32 \<Rightarrow> io_heap \<Rightarrow> handle list \<times> io_heap" where
  "complete_io ctx res flags h =
     (case io_ctx h ctx of
        None \<Rightarrow> ([], h\<lparr> io_fault := True \<rparr>)
      | Some c \<Rightarrow>
          (if ctx_cancelled c then ([], ctx_access ctx (\<lambda>_. None) h)
           else (if ctx_coro c \<noteq> nullptr then [ctx_coro c] else [],
                 ctx_access ctx (\<lambda>c. Some (c\<lparr> ctx_res := res, ctx_flags := flags \<rparr>)) h)))"

section \<open>Coroutines, requests and completions\<close>

datatype await_phase =
    Unused
  | Held               \<comment> \<open>request made, not awaited yet\<close>
  | Suspended handle   \<comment> \<open>awaited by this coroutine\<close>
  | Resumed io_result  \<comment> \<open>\<open>await_resume\<close> returned this\<close>
  | Dropped            \<comment> \<open>the awaiter was destroyed with the context\<close>

record io_sys =
  ios_heap :: io_heap
  ios_phase :: "addr \<Rightarrow> await_phase"
  ios_inflight :: "addr set"
  ios_scheduled :: "(addr \<times> handle) list"
  ios_posted :: "addr \<Rightarrow> io_result option"

definition io_start :: io_sys where
  "io_start = \<lparr> ios_heap = \<lparr> io_ctx = (\<lambda>_. None), io_fault = False \<rparr>, ios_phase = (\<lambda>_. Unused),
     ios_inflight = {}, ios_scheduled = [], ios_posted = (\<lambda>_. None) \<rparr>"

text \<open>\<open>accept_direct\<close>, \<open>recv_direct\<close>, \<open>send_direct\<close> and \<open>close_direct\<close> allocate the context of a request.\<close>

definition io_request :: "addr \<Rightarrow> io_sys \<Rightarrow> io_sys" where
  "io_request a s =
     s\<lparr> ios_heap := (ios_heap s)\<lparr> io_ctx := (io_ctx (ios_heap s))(a := Some io_context_new) \<rparr>,
        ios_phase := (ios_phase s)(a := Held), ios_inflight := insert a (ios_inflight s) \<rparr>"

definition io_suspend :: "addr \<Rightarrow> handle \<Rightarrow> io_sys \<Rightarrow> io_sys" where
  "io_suspend a h s =
     s\<lparr> ios_heap := safe_await_suspend a h (ios_heap s), ios_phase := (ios_phase s)(a := Suspended h) \<rparr>"

definition io_complete :: "addr \<Rightarrow> int \<Rightarrow> u32 \<Rightarrow> io_sys \<Rightarrow> io_sys" where
  "io_complete a res flags s =
     (let (hs, h) = complete_io a res flags (ios_heap s)
      in s\<lparr> ios_heap := h, ios_inflight := ios_inflight s - {a},
            ios_scheduled := ios_scheduled s @ map (Pair a) hs,
            ios_posted := (ios_posted s)(a \<mapsto> \<lparr> ior_res = res, ior_flags = flags \<rparr>) \<rparr>)"

definition io_resume :: "addr \<Rightarrow> io_sys \<Rightarrow> io_sys" where
  "io_resume a s =
     (let ((r, _), h) = safe_await_resume a (ios_heap s)
      in s\<lparr> ios_heap := h, ios_phase := (ios_phase s)(a := Resumed r) \<rparr>)"

definition io_drop :: "addr \<Rightarrow> io_sys \<Rightarrow> io_sys" where
  "io_drop a s =
     s\<lparr> ios_heap := safe_awaiter_destroy a (ios_heap s), ios_phase := (ios_phase s)(a := Dropped) \<rparr>"

text \<open>
  A coroutine resumes from its await when the engine has scheduled it for that context; a coroutine
  with a live awaiter may be destroyed at any time. Addresses are not reused within one run.
\<close>

inductive io_reach :: "io_sys \<Rightarrow> bool" where
  io_init: "io_reach io_start"
| io_new: "io_reach s \<Longrightarrow> a \<noteq> nullptr \<Longrightarrow> ios_phase s a = Unused \<Longrightarrow> io_reach (io_request a s)"
| io_wait: "io_reach s \<Longrightarrow> ios_phase s a = Held \<Longrightarrow> h \<noteq> nullptr \<Longrightarrow> io_reach (io_suspend a h s)"
| io_post: "io_reach s \<Longrightarrow> a \<in> ios_inflight s \<Longrightarrow> io_reach (io_complete a res flags s)"
| io_wake: "io_reach s \<Longrightarrow> ios_phase s a = Suspended h \<Longrightarrow> (a, h) \<in> set (ios_scheduled s) \<Longrightarrow>
     io_reach (io_resume a s)"
| io_kill: "io_reach s \<Longrightarrow> ios_phase s a = Held \<or> ios_phase s a = Suspended h \<Longrightarrow> io_reach (io_drop a s)"

section \<open>What each request's context looks like\<close>

definition wakeups :: "addr \<Rightarrow> io_sys \<Rightarrow> handle list" where
  "wakeups a s = map snd (filter (\<lambda>x. fst x = a) (ios_scheduled s))"

text \<open>The context of a request that is held or awaited, before and after its completion.\<close>

definition live_ctx :: "handle \<Rightarrow> addr \<Rightarrow> io_sys \<Rightarrow> bool" where
  "live_ctx h a s \<longleftrightarrow> (\<exists>c. io_ctx (ios_heap s) a = Some c \<and> ctx_coro c = h \<and> \<not> ctx_cancelled c
     \<and> (if a \<in> ios_inflight s then ios_posted s a = None
        else ios_posted s a = Some \<lparr> ior_res = ctx_res c, ior_flags = ctx_flags c \<rparr>))"

fun ctx_ok :: "addr \<Rightarrow> io_sys \<Rightarrow> await_phase \<Rightarrow> bool" where
  "ctx_ok a s Unused \<longleftrightarrow> io_ctx (ios_heap s) a = None \<and> a \<notin> ios_inflight s \<and> wakeups a s = []
     \<and> ios_posted s a = None"
| "ctx_ok a s Held \<longleftrightarrow> live_ctx nullptr a s \<and> wakeups a s = []"
| "ctx_ok a s (Suspended h) \<longleftrightarrow> live_ctx h a s
     \<and> wakeups a s \<in> {[], [h]} \<and> (a \<in> ios_inflight s \<longrightarrow> wakeups a s = [])"
| "ctx_ok a s (Resumed r) \<longleftrightarrow> io_ctx (ios_heap s) a = None \<and> a \<notin> ios_inflight s
     \<and> ios_posted s a = Some r"
| "ctx_ok a s Dropped \<longleftrightarrow> (\<forall>c. io_ctx (ios_heap s) a = Some c \<longrightarrow> ctx_cancelled c)
     \<and> (a \<in> ios_inflight s \<longrightarrow> io_ctx (ios_heap s) a \<noteq> None)
     \<and> (a \<notin> ios_inflight s \<longrightarrow> ios_posted s a \<noteq> None)"

definition io_inv :: "io_sys \<Rightarrow> bool" where
  "io_inv s \<longleftrightarrow> \<not> io_fault (ios_heap s) \<and> (\<forall>a. a \<noteq> nullptr \<longrightarrow> ctx_ok a s (ios_phase s a))
     \<and> ios_phase s nullptr = Unused \<and> nullptr \<notin> ios_inflight s"

text \<open>A step on one address leaves what is known of the others alone.\<close>

definition same_at :: "addr \<Rightarrow> io_sys \<Rightarrow> io_sys \<Rightarrow> bool" where
  "same_at a s s' \<longleftrightarrow> io_ctx (ios_heap s') a = io_ctx (ios_heap s) a \<and> ios_phase s' a = ios_phase s a
     \<and> (a \<in> ios_inflight s' \<longleftrightarrow> a \<in> ios_inflight s) \<and> wakeups a s' = wakeups a s
     \<and> ios_posted s' a = ios_posted s a"

lemma ctx_ok_same: "same_at a s s' \<Longrightarrow> ctx_ok a s' p = ctx_ok a s p"
  by (cases p) (simp_all add: same_at_def live_ctx_def)

lemma io_inv_step:
  assumes "io_inv s" and "\<And>b. b \<noteq> a \<Longrightarrow> same_at b s s'" and "a \<noteq> nullptr"
    and "\<not> io_fault (ios_heap s')" and "ctx_ok a s' (ios_phase s' a)"
  shows "io_inv s'"
proof -
  have "ctx_ok b s' (ios_phase s' b)" if "b \<noteq> nullptr" for b
  proof (cases "b = a")
    case False
    then have "ios_phase s' b = ios_phase s b"
      using assms(2) [of b] by (simp add: same_at_def)
    then show ?thesis
      using assms(1) that ctx_ok_same [OF assms(2) [OF False]] by (simp add: io_inv_def)
  qed (simp add: assms(5))
  then show ?thesis
    using assms(1) assms(2) [of nullptr] assms(3,4) by (auto simp: io_inv_def same_at_def)
qed

lemma io_invD:
  assumes "io_inv s" and "ios_phase s a \<noteq> Unused \<or> a \<in> ios_inflight s"
  shows "a \<noteq> nullptr" and "ctx_ok a s (ios_phase s a)" and "\<not> io_fault (ios_heap s)"
proof -
  show n: "a \<noteq> nullptr"
    using assms by (auto simp: io_inv_def)
  show "ctx_ok a s (ios_phase s a)" and "\<not> io_fault (ios_heap s)"
    using assms(1) n by (simp_all add: io_inv_def)
qed

text \<open>A request in flight has its context.\<close>

lemma inflight_ctx:
  assumes "io_inv s" and "a \<in> ios_inflight s"
  obtains c where "io_ctx (ios_heap s) a = Some c"
proof -
  have "ctx_ok a s (ios_phase s a)"
    using assms io_invD by blast
  then have "io_ctx (ios_heap s) a \<noteq> None"
    using assms(2) by (cases "ios_phase s a") (auto simp: live_ctx_def)
  then show thesis
    using that by blast
qed

lemma wakeups_complete:
  "wakeups b (io_complete a res flags s)
     = wakeups b s @ (if b = a then fst (complete_io a res flags (ios_heap s)) else [])"
  by (simp add: wakeups_def io_complete_def split_beta filter_map o_def)

lemma complete_projections:
  "ios_heap (io_complete a res flags s) = snd (complete_io a res flags (ios_heap s))"
  "ios_phase (io_complete a res flags s) = ios_phase s"
  "ios_inflight (io_complete a res flags s) = ios_inflight s - {a}"
  "ios_posted (io_complete a res flags s) = (ios_posted s)(a \<mapsto> \<lparr> ior_res = res, ior_flags = flags \<rparr>)"
  by (simp_all add: io_complete_def split_beta)

lemma io_inv_request:
  assumes "io_inv s" and "a \<noteq> nullptr" and "ios_phase s a = Unused"
  shows "io_inv (io_request a s)"
proof (rule io_inv_step [OF assms(1) _ assms(2)])
  have old: "ctx_ok a s Unused" "\<not> io_fault (ios_heap s)"
    using assms by (auto simp: io_inv_def)
  show "ctx_ok a (io_request a s) (ios_phase (io_request a s) a)"
    using old by (simp add: io_request_def live_ctx_def wakeups_def io_context_new_def)
  show "\<not> io_fault (ios_heap (io_request a s))"
    using old by (simp add: io_request_def)
qed (simp add: same_at_def io_request_def wakeups_def)

lemma io_inv_suspend:
  assumes "io_inv s" and "ios_phase s a = Held"
  shows "io_inv (io_suspend a h s)"
proof -
  have "ios_phase s a \<noteq> Unused \<or> a \<in> ios_inflight s"
    using assms(2) by simp
  note old = io_invD [OF assms(1) this]
  have live: "live_ctx nullptr a s" "wakeups a s = []"
    using old(2) assms(2) by simp_all
  then obtain c where c: "io_ctx (ios_heap s) a = Some c"
    by (auto simp: live_ctx_def)
  show ?thesis
  proof (rule io_inv_step [OF assms(1) _ old(1)])
    show "ctx_ok a (io_suspend a h s) (ios_phase (io_suspend a h s) a)"
      using live c by (simp add: io_suspend_def safe_await_suspend_def ctx_access_def live_ctx_def
          wakeups_def)
    show "\<not> io_fault (ios_heap (io_suspend a h s))"
      using old c by (simp add: io_suspend_def safe_await_suspend_def ctx_access_def)
  qed (use c in \<open>simp add: same_at_def io_suspend_def safe_await_suspend_def ctx_access_def wakeups_def\<close>)
qed

lemma io_inv_complete:
  assumes "io_inv s" and "a \<in> ios_inflight s"
  shows "io_inv (io_complete a res flags s)"
proof -
  have "ios_phase s a \<noteq> Unused \<or> a \<in> ios_inflight s"
    using assms(2) by simp
  note old = io_invD [OF assms(1) this]
  obtain c where c: "io_ctx (ios_heap s) a = Some c"
    by (rule inflight_ctx [OF assms])
  show ?thesis
  proof (rule io_inv_step [OF assms(1) _ old(1)])
    show "ctx_ok a (io_complete a res flags s) (ios_phase (io_complete a res flags s) a)"
      using old(2) assms(2) c
      by (cases "ios_phase s a")
        (auto simp: complete_projections wakeups_complete complete_io_def ctx_access_def live_ctx_def
          split: if_splits)
    show "\<not> io_fault (ios_heap (io_complete a res flags s))"
      using old c by (simp add: complete_projections complete_io_def ctx_access_def)
  qed (use c in \<open>simp add: same_at_def complete_projections wakeups_complete complete_io_def
      ctx_access_def\<close>)
qed

lemma io_inv_resume:
  assumes "io_inv s" and "ios_phase s a = Suspended h" and "(a, h) \<in> set (ios_scheduled s)"
  shows "io_inv (io_resume a s)"
proof -
  have "ios_phase s a \<noteq> Unused \<or> a \<in> ios_inflight s"
    using assms(2) by simp
  note old = io_invD [OF assms(1) this]
  have "wakeups a s \<noteq> []"
    using assms(3) by (force simp: wakeups_def filter_empty_conv)
  then have live: "live_ctx h a s" "a \<notin> ios_inflight s"
    using old(2) assms(2) by auto
  then obtain c where c: "io_ctx (ios_heap s) a = Some c"
    by (auto simp: live_ctx_def)
  show ?thesis
  proof (rule io_inv_step [OF assms(1) _ old(1)])
    show "ctx_ok a (io_resume a s) (ios_phase (io_resume a s) a)"
      using live c by (simp add: io_resume_def safe_await_resume_def ctx_access_def live_ctx_def)
    show "\<not> io_fault (ios_heap (io_resume a s))"
      using old c by (simp add: io_resume_def safe_await_resume_def ctx_access_def)
  qed (use c in \<open>simp add: same_at_def io_resume_def safe_await_resume_def ctx_access_def wakeups_def\<close>)
qed

lemma io_inv_drop:
  assumes "io_inv s" and "ios_phase s a = Held \<or> ios_phase s a = Suspended h"
  shows "io_inv (io_drop a s)"
proof -
  have "ios_phase s a \<noteq> Unused \<or> a \<in> ios_inflight s"
    using assms(2) by auto
  note old = io_invD [OF assms(1) this]
  have "\<exists>g. live_ctx g a s"
    using old(2) assms(2) by auto
  then obtain c where c: "io_ctx (ios_heap s) a = Some c"
    and posted: "a \<notin> ios_inflight s \<Longrightarrow> ios_posted s a \<noteq> None"
    by (auto simp: live_ctx_def)
  show ?thesis
  proof (rule io_inv_step [OF assms(1) _ old(1)])
    show "ctx_ok a (io_drop a s) (ios_phase (io_drop a s) a)"
      using c posted old(1) by (simp add: io_drop_def safe_awaiter_destroy_def ctx_access_def)
    show "\<not> io_fault (ios_heap (io_drop a s))"
      using old c by (simp add: io_drop_def safe_awaiter_destroy_def ctx_access_def)
  qed (use c in \<open>simp add: same_at_def io_drop_def safe_awaiter_destroy_def ctx_access_def wakeups_def\<close>)
qed

lemma io_reach_inv: "io_reach s \<Longrightarrow> io_inv s"
proof (induction rule: io_reach.induct)
  case io_init
  show ?case
    by (simp add: io_inv_def io_start_def wakeups_def)
qed (blast intro: io_inv_request io_inv_suspend io_inv_complete io_inv_resume io_inv_drop)+

section \<open>Properties\<close>

text \<open>
  C10: however requests, completions, resumptions and destructions of coroutines interleave, no
  deleted \<open>IoContext\<close> is ever accessed, and an await returns the result and flags of its request's
  own completion.
\<close>

theorem io_context_safe:
  assumes "io_reach s"
  shows "\<not> io_fault (ios_heap s)
     \<and> (ios_phase s a = Resumed r \<longrightarrow> ios_posted s a = Some r \<and> io_ctx (ios_heap s) a = None)"
  using io_reach_inv [OF assms] io_invD [OF io_reach_inv [OF assms], of a]
  by (auto simp: io_inv_def)

definition example_await :: io_sys where
  "example_await = io_resume 64 (io_complete 64 5 3 (io_suspend 64 96 (io_request 64 io_start)))"

lemmas io_eval = io_resume_def io_complete_def io_suspend_def io_request_def io_start_def io_drop_def
  safe_await_resume_def complete_io_def safe_await_suspend_def safe_awaiter_destroy_def ctx_access_def
  io_context_new_def Let_def

lemma example_await_reach: "io_reach example_await"
proof -
  have "io_reach (io_request 64 io_start)"
    by (rule io_new [OF io_init]) (simp_all add: io_eval)
  then have "io_reach (io_suspend 64 96 (io_request 64 io_start))"
    by (rule io_wait) (simp_all add: io_eval)
  then have "io_reach (io_complete 64 5 3 (io_suspend 64 96 (io_request 64 io_start)))"
    by (rule io_post) (simp add: io_eval)
  then show ?thesis
    unfolding example_await_def by (rule io_wake) (simp_all add: io_eval)
qed

theorem io_context_safe_witness:
  "ios_posted example_await 64 = Some \<lparr> ior_res = 5, ior_flags = 3 \<rparr>"
proof -
  have "ios_phase example_await 64 = Resumed \<lparr> ior_res = 5, ior_flags = 3 \<rparr>"
    by (simp add: example_await_def io_eval)
  then show ?thesis
    using io_context_safe [OF example_await_reach, of 64] by blast
qed

text \<open>
  An await is only woken by a completion that arrives after it: when the completion of a
  request is reaped before the coroutine awaits it, the later await suspends although the result is
  already there, no completion is outstanding that could wake it, and it is not scheduled.
\<close>

lemma io_completed_before_await_lost:
  assumes "io_reach s" and "ios_phase s a = Held" and "ios_posted s a \<noteq> None" and "h \<noteq> nullptr"
  shows "\<not> safe_await_ready \<and> io_reach (io_suspend a h s) \<and> ios_phase (io_suspend a h s) a = Suspended h
     \<and> a \<notin> ios_inflight (io_suspend a h s) \<and> (a, g) \<notin> set (ios_scheduled (io_suspend a h s))"
proof -
  have "ios_phase s a \<noteq> Unused \<or> a \<in> ios_inflight s"
    using assms(2) by simp
  note ok = io_invD(2) [OF io_reach_inv [OF assms(1)] this]
  then have "a \<notin> ios_inflight s" and "wakeups a s = []"
    using assms(2,3) by (auto simp: live_ctx_def)
  then have "(a, g) \<notin> set (ios_scheduled s)"
    by (force simp: wakeups_def filter_empty_conv)
  then show ?thesis
    using \<open>a \<notin> ios_inflight s\<close> io_wait [OF assms(1,2,4)]
    by (simp add: io_suspend_def safe_await_ready_def)
qed

lemma io_completed_before_await_lost_instance:
  "ios_phase (io_suspend 64 96 (io_complete 64 5 3 (io_request 64 io_start))) 64 = Suspended 96
   \<and> (64, 96) \<notin> set (ios_scheduled (io_suspend 64 96 (io_complete 64 5 3 (io_request 64 io_start))))"
proof -
  have "io_reach (io_request 64 io_start)"
    by (rule io_new [OF io_init]) (simp_all add: io_eval)
  then have "io_reach (io_complete 64 5 3 (io_request 64 io_start))"
    by (rule io_post) (simp add: io_eval)
  from io_completed_before_await_lost [OF this, of 64 96 96] show ?thesis
    by (simp add: io_eval)
qed

text \<open>
  A context whose coroutine is destroyed while its request is in flight is deleted by the
  completion; one whose coroutine is destroyed after the completion is only marked cancelled, and
  since no further completion comes it is never deleted.
\<close>

lemma io_drop_frees_or_leaks:
  assumes "io_reach s" and "ios_phase s a = Held \<or> ios_phase s a = Suspended h"
  shows "if a \<in> ios_inflight s
     then io_ctx (ios_heap (io_complete a res flags (io_drop a s))) a = None
     else (\<exists>c. io_ctx (ios_heap (io_drop a s)) a = Some c \<and> ctx_cancelled c)
       \<and> a \<notin> ios_inflight (io_drop a s)"
proof -
  have "ios_phase s a \<noteq> Unused \<or> a \<in> ios_inflight s"
    using assms(2) by auto
  note ok = io_invD(1,2) [OF io_reach_inv [OF assms(1)] this]
  then have "\<exists>g. live_ctx g a s"
    using assms(2) by auto
  then obtain c where "io_ctx (ios_heap s) a = Some c"
    by (auto simp: live_ctx_def)
  then show ?thesis
    using ok(1) by (simp add: io_eval split_beta)
qed

lemma io_drop_frees_or_leaks_instance:
  "io_ctx (ios_heap (io_drop 64 (io_complete 64 5 3 (io_request 64 io_start)))) 64 \<noteq> None"
proof -
  have "io_reach (io_request 64 io_start)"
    by (rule io_new [OF io_init]) (simp_all add: io_eval)
  then have "io_reach (io_complete 64 5 3 (io_request 64 io_start))"
    by (rule io_post) (simp add: io_eval)
  from io_drop_frees_or_leaks [OF this, of 64] show ?thesis
    by (auto simp: io_eval)
qed

end
