(* ===== verification/Io_Engine.thy ===== *)
theory Io_Engine
  imports Io_Context
begin

text \<open>
  \<open>IoEngine\<close> of \<open>include/novaio/io_engine.hpp\<close> and \<open>src/io_engine.cpp\<close>: pointer tagging, the
  negotiation of the ring at start-up, the ring of provided buffers, the preparation of requests
  and the dispatch of completions. liburing is not part of the repository: its calls are
  parameters (the record \<open>liburing\<close> and arguments of the request functions), and what the code
  relies on is stated as a named law.
\<close>

section \<open>Constants and pointer tagging\<close>

definition IO_QUEUE_DEPTH :: u32 where "IO_QUEUE_DEPTH = 4096"
definition BUF_BGID :: u16 where "BUF_BGID = 1"
definition BUF_RING_SIZE :: u32 where "BUF_RING_SIZE = 2048"
definition BUF_BLOCK_SIZE :: u32 where "BUF_BLOCK_SIZE = 2048"
definition MAX_DIRECT_FDS :: u32 where "MAX_DIRECT_FDS = 65536"
definition TAG_MASK :: u64 where "TAG_MASK = 7"
definition TAG_IO :: u64 where "TAG_IO = 0"
definition TAG_MULTI :: u64 where "TAG_MULTI = 1"
definition TAG_CORO :: u64 where "TAG_CORO = 2"
definition TAG_INBOX :: u64 where "TAG_INBOX = 3"

lemmas engine_consts = IO_QUEUE_DEPTH_def BUF_BGID_def BUF_RING_SIZE_def BUF_BLOCK_SIZE_def
  MAX_DIRECT_FDS_def
lemmas tag_consts = TAG_MASK_def TAG_IO_def TAG_MULTI_def TAG_CORO_def TAG_INBOX_def

definition cqe_tag :: "u64 \<Rightarrow> u64" where
  "cqe_tag ud = ud AND TAG_MASK"

definition cqe_payload :: "u64 \<Rightarrow> u64" where
  "cqe_payload ud = ud AND NOT TAG_MASK"

text \<open>An object with the alignment of a pointer.\<close>

definition aligned8 :: "addr \<Rightarrow> bool" where
  "aligned8 p \<longleftrightarrow> p AND TAG_MASK = 0"

lemma tag_decode:
  assumes "aligned8 p" and "t AND NOT TAG_MASK = 0"
  shows "cqe_tag (p OR t) = t" and "cqe_payload (p OR t) = p"
proof -
  have p: "p AND TAG_MASK = 0" and t: "t AND NOT TAG_MASK = 0"
    using assms by (simp_all add: aligned8_def)
  have pb: "bit p n \<Longrightarrow> \<not> bit TAG_MASK n" for n
    using p by (metis bit_and_iff bit_0_eq bot_apply bot_bool_def)
  have tb: "bit t n \<Longrightarrow> bit TAG_MASK n" for n
    using t by (metis bit_and_iff bit_not_iff bit_imp_le_length bit_0_eq bot_apply bot_bool_def
        impossible_bit linorder_not_less possible_bit_word)
  show "cqe_tag (p OR t) = t" and "cqe_payload (p OR t) = p"
    unfolding cqe_tag_def cqe_payload_def
    by (rule bit_word_eqI; use pb tb in \<open>auto simp: bit_simps\<close>)+
qed

section \<open>The ring of provided buffers\<close>

record buf_entry =
  buf_addr :: addr
  buf_len :: u32
  buf_id :: u16

record buf_ring =
  br_tail :: u16
  br_bufs :: "nat \<Rightarrow> buf_entry"

text \<open>
  The liburing calls of the engine. \<open>lu_queue_init depth flags\<close> and \<open>lu_register_files n\<close> are the
  return values; \<open>lu_setup\<close> is the result of \<open>io_uring_setup_buf_ring\<close> (nothing for a null
  pointer) with its error; \<open>lu_malloc\<close> the block the aligned allocation returns.
\<close>

record liburing =
  lu_advanced :: u32
  lu_queue_init :: "u32 \<Rightarrow> u32 \<Rightarrow> int"
  lu_register_files :: "u32 \<Rightarrow> int"
  lu_setup :: "buf_ring option \<times> int"
  lu_ring_init :: "buf_ring \<Rightarrow> buf_ring"
  lu_malloc :: addr
  lu_mask :: "u32 \<Rightarrow> int"
  lu_add :: "buf_ring \<Rightarrow> addr \<Rightarrow> u32 \<Rightarrow> u16 \<Rightarrow> int \<Rightarrow> int \<Rightarrow> buf_ring"
  lu_advance :: "buf_ring \<Rightarrow> int \<Rightarrow> buf_ring"

text \<open>
  What \<open>io_uring_buf_ring_add(3)\<close> and its relatives document: an entry is stored at the offset given,
  counted from the tail and masked; advancing publishes that many entries from the old tail on;
  initialising sets the tail to 0.
\<close>

definition buf_ring_law :: "liburing \<Rightarrow> bool" where
  "buf_ring_law lu \<longleftrightarrow>
     (\<forall>br a l b m off. lu_add lu br a l b m off
        = br\<lparr> br_bufs := (br_bufs br)(nat ((uint (br_tail br) + off) AND m) :=
                \<lparr> buf_addr = a, buf_len = l, buf_id = b \<rparr>) \<rparr>)
     \<and> (\<forall>br n. lu_advance lu br n = br\<lparr> br_tail := br_tail br + of_int n \<rparr>)
     \<and> (\<forall>br. br_tail (lu_ring_init lu br) = 0)
     \<and> (\<forall>n. lu_mask lu n = uint n - 1)"

definition buffer_at :: "addr \<Rightarrow> u16 \<Rightarrow> addr" where
  "buffer_at base i = base + ucast (ucast i * BUF_BLOCK_SIZE)"

definition get_buffer :: "addr \<Rightarrow> u16 \<Rightarrow> addr" where
  "get_buffer base i = buffer_at base i"

definition return_buffer :: "liburing \<Rightarrow> addr \<Rightarrow> u16 \<Rightarrow> buf_ring \<Rightarrow> buf_ring" where
  "return_buffer lu base i br =
     lu_advance lu
       (lu_add lu br (get_buffer base i) BUF_BLOCK_SIZE i (lu_mask lu BUF_RING_SIZE) (uint (br_tail br))) 1"

text \<open>The loop of \<open>setup_provided_buffer_ring\<close> over \<open>i\<close>, with \<open>n\<close> entries left.\<close>

fun fill_buffers :: "liburing \<Rightarrow> addr \<Rightarrow> nat \<Rightarrow> u16 \<Rightarrow> buf_ring \<Rightarrow> buf_ring" where
  "fill_buffers lu base 0 i br = br"
| "fill_buffers lu base (Suc n) i br =
     fill_buffers lu base n (i + 1)
       (lu_add lu br (buffer_at base i) BUF_BLOCK_SIZE i (lu_mask lu BUF_RING_SIZE) (uint i))"

section \<open>Start-up and shutdown\<close>

datatype engine_error =
    QueueInitFailed int
  | RegisterFilesFailed int
  | SetupBufRingFailed int
  | BadAlloc

record io_engine =
  eng_initialized :: bool
  eng_ring :: "(u32 \<times> u32) option"   \<comment> \<open>depth and flags of the open ring\<close>
  eng_br :: "buf_ring option"
  eng_base :: addr

definition engine_new :: io_engine where
  "engine_new = \<lparr> eng_initialized = False, eng_ring = None, eng_br = None, eng_base = nullptr \<rparr>"

definition queue_depths :: "u32 list" where
  "queue_depths = [IO_QUEUE_DEPTH, 1024, 256]"

text \<open>The attempts in order; \<open>Inl\<close> is the last error.\<close>

fun try_depths :: "liburing \<Rightarrow> u32 list \<Rightarrow> int \<Rightarrow> int + (u32 \<times> u32)" where
  "try_depths lu [] last_error = Inl last_error"
| "try_depths lu (depth # ds) last_error =
     (if \<not> lu_queue_init lu depth (lu_advanced lu) < 0 then Inr (depth, lu_advanced lu)
      else if \<not> lu_queue_init lu depth 0 < 0 then Inr (depth, 0)
      else try_depths lu ds (- lu_queue_init lu depth 0))"

definition setup_provided_buffer_ring :: "liburing \<Rightarrow> io_engine \<Rightarrow> engine_error option \<times> io_engine" where
  "setup_provided_buffer_ring lu e =
     (case lu_setup lu of
        (None, err) \<Rightarrow> (Some (SetupBufRingFailed (- err)), e)
      | (Some br, err) \<Rightarrow>
          (let br1 = lu_ring_init lu br; e1 = e\<lparr> eng_br := Some br1, eng_base := lu_malloc lu \<rparr> in
           if lu_malloc lu = nullptr then (Some BadAlloc, e1)
           else (None, e1\<lparr> eng_br := Some (lu_advance lu
                  (fill_buffers lu (lu_malloc lu) (unat BUF_RING_SIZE) 0 br1) (uint BUF_RING_SIZE)) \<rparr>)))"

definition engine_init :: "liburing \<Rightarrow> io_engine \<Rightarrow> engine_error option \<times> io_engine" where
  "engine_init lu e =
     (case try_depths lu queue_depths 0 of
        Inl err \<Rightarrow> (Some (QueueInitFailed err), e)
      | Inr cfg \<Rightarrow>
          (let e1 = e\<lparr> eng_ring := Some cfg \<rparr>; ret = lu_register_files lu MAX_DIRECT_FDS in
           if ret < 0 then (Some (RegisterFilesFailed (- ret)), e1)
           else (case setup_provided_buffer_ring lu e1 of
                   (Some err, e2) \<Rightarrow> (Some err, e2)
                 | (None, e2) \<Rightarrow> (None, e2\<lparr> eng_initialized := True \<rparr>))))"

datatype release = FreeBufRing | FreeBuffers addr | QueueExit

definition engine_destroy :: "io_engine \<Rightarrow> release list" where
  "engine_destroy e =
     (if \<not> eng_initialized e then []
      else (if eng_br e \<noteq> None then [FreeBufRing] else [])
         @ (if eng_base e \<noteq> nullptr then [FreeBuffers (eng_base e)] else [])
         @ [QueueExit])"

definition engine_ring_fd :: "int \<Rightarrow> io_engine \<Rightarrow> int" where
  "engine_ring_fd fd e = (if eng_initialized e then fd else -1)"

section \<open>Requests\<close>

datatype sqe_prep =
    AcceptMultishot int
  | AcceptDirect int
  | RecvMultishot int
  | Recv int u32
  | Send int addr u64
  | CloseDirect int
  | MsgRing int u64

record sqe =
  sqe_op :: sqe_prep
  sqe_alloc_slot :: bool        \<comment> \<open>file index \<open>IORING_FILE_INDEX_ALLOC\<close>\<close>
  sqe_buffer_select :: bool
  sqe_fixed_file :: bool
  sqe_buf_group :: u16
  sqe_user_data :: u64

definition sqe_new :: "sqe_prep \<Rightarrow> sqe" where
  "sqe_new op = \<lparr> sqe_op = op, sqe_alloc_slot = False, sqe_buffer_select = False,
     sqe_fixed_file = False, sqe_buf_group = 0, sqe_user_data = 0 \<rparr>"

text \<open>
  The submission side of liburing: \<open>get\<close> claims an entry (nothing when the queue is full), \<open>put\<close>
  fills the claimed entry, \<open>submit\<close> hands the queue to the kernel. Each request is the ring after
  it, or nothing when the code dereferences the null entry.
\<close>

definition queue_sqe :: "('r \<Rightarrow> 'r option) \<Rightarrow> (sqe \<Rightarrow> 'r \<Rightarrow> 'r) \<Rightarrow> sqe \<Rightarrow> 'r \<Rightarrow> 'r option" where
  "queue_sqe get put e r = (case get r of None \<Rightarrow> None | Some r1 \<Rightarrow> Some (put e r1))"

definition accept_multishot ::
    "('r \<Rightarrow> 'r option) \<Rightarrow> (sqe \<Rightarrow> 'r \<Rightarrow> 'r) \<Rightarrow> int \<Rightarrow> addr \<Rightarrow> 'r \<Rightarrow> 'r option" where
  "accept_multishot get put fd op =
     queue_sqe get put ((sqe_new (AcceptMultishot fd))\<lparr> sqe_alloc_slot := True,
       sqe_user_data := op OR TAG_MULTI \<rparr>)"

definition recv_multishot ::
    "('r \<Rightarrow> 'r option) \<Rightarrow> (sqe \<Rightarrow> 'r \<Rightarrow> 'r) \<Rightarrow> int \<Rightarrow> addr \<Rightarrow> 'r \<Rightarrow> 'r option" where
  "recv_multishot get put fd op =
     queue_sqe get put ((sqe_new (RecvMultishot fd))\<lparr> sqe_buffer_select := True, sqe_fixed_file := True,
       sqe_buf_group := BUF_BGID, sqe_user_data := op OR TAG_MULTI \<rparr>)"

definition send_msg_ring ::
    "('r \<Rightarrow> 'r option) \<Rightarrow> (sqe \<Rightarrow> 'r \<Rightarrow> 'r) \<Rightarrow> ('r \<Rightarrow> 'r) \<Rightarrow> int \<Rightarrow> u64 \<Rightarrow> 'r \<Rightarrow> 'r option" where
  "send_msg_ring get put submit fd data r =
     (case get r of
        Some r1 \<Rightarrow> Some (put (sqe_new (MsgRing fd data)) r1)
      | None \<Rightarrow> queue_sqe get put (sqe_new (MsgRing fd data)) (submit r))"

definition accept_direct ::
    "('r \<Rightarrow> 'r option) \<Rightarrow> (sqe \<Rightarrow> 'r \<Rightarrow> 'r) \<Rightarrow> int \<Rightarrow> addr \<Rightarrow> 'r \<Rightarrow> 'r option" where
  "accept_direct get put fd ctx =
     queue_sqe get put ((sqe_new (AcceptDirect fd))\<lparr> sqe_alloc_slot := True,
       sqe_user_data := ctx OR TAG_IO \<rparr>)"

definition recv_direct ::
    "('r \<Rightarrow> 'r option) \<Rightarrow> (sqe \<Rightarrow> 'r \<Rightarrow> 'r) \<Rightarrow> int \<Rightarrow> addr \<Rightarrow> 'r \<Rightarrow> 'r option" where
  "recv_direct get put fd ctx =
     queue_sqe get put ((sqe_new (Recv fd BUF_BLOCK_SIZE))\<lparr> sqe_buffer_select := True,
       sqe_fixed_file := True, sqe_buf_group := BUF_BGID, sqe_user_data := ctx OR TAG_IO \<rparr>)"

definition send_direct ::
    "('r \<Rightarrow> 'r option) \<Rightarrow> (sqe \<Rightarrow> 'r \<Rightarrow> 'r) \<Rightarrow> int \<Rightarrow> addr \<Rightarrow> u64 \<Rightarrow> addr \<Rightarrow> 'r \<Rightarrow> 'r option" where
  "send_direct get put fd buf len ctx =
     queue_sqe get put ((sqe_new (Send fd buf len))\<lparr> sqe_fixed_file := True,
       sqe_user_data := ctx OR TAG_IO \<rparr>)"

definition close_direct ::
    "('r \<Rightarrow> 'r option) \<Rightarrow> (sqe \<Rightarrow> 'r \<Rightarrow> 'r) \<Rightarrow> int \<Rightarrow> addr \<Rightarrow> 'r \<Rightarrow> 'r option" where
  "close_direct get put fd ctx =
     queue_sqe get put ((sqe_new (CloseDirect fd))\<lparr> sqe_user_data := ctx OR TAG_IO \<rparr>)"

section \<open>Dispatch of completions\<close>

record cqe =
  cqe_user_data :: u64
  cqe_res :: int
  cqe_flags :: u32

datatype poll_action =
    CompleteIo addr int u32
  | InvokeMulti addr int u32
  | ScheduleCoro handle
  | DrainInbox
  | NoAction

definition poll_dispatch :: "cqe \<Rightarrow> poll_action" where
  "poll_dispatch e =
     (let tag = cqe_tag (cqe_user_data e); payload = cqe_payload (cqe_user_data e) in
      if tag = TAG_IO \<and> payload \<noteq> 0 then CompleteIo payload (cqe_res e) (cqe_flags e)
      else if tag = TAG_MULTI \<and> payload \<noteq> 0 then InvokeMulti payload (cqe_res e) (cqe_flags e)
      else if tag = TAG_CORO then ScheduleCoro payload
      else if tag = TAG_INBOX then DrainInbox
      else NoAction)"

section \<open>Buffers\<close>

lemma and_2047: "(x::int) AND 2047 = x mod 2048"
proof -
  have "x AND mask 11 = take_bit 11 x"
    by (simp add: take_bit_eq_mask)
  then show ?thesis
    by (simp add: mask_eq_exp_minus_1 take_bit_eq_mod)
qed

lemma buf_ring_lawD:
  assumes "buf_ring_law lu"
  shows "lu_add lu br a l b (lu_mask lu BUF_RING_SIZE) off
      = br\<lparr> br_bufs := (br_bufs br)(nat ((uint (br_tail br) + off) mod 2048) :=
          \<lparr> buf_addr = a, buf_len = l, buf_id = b \<rparr>) \<rparr>"
    and "lu_advance lu br n = br\<lparr> br_tail := br_tail br + of_int n \<rparr>"
    and "br_tail (lu_ring_init lu br) = 0"
  using assms and_2047 by (simp_all add: buf_ring_law_def BUF_RING_SIZE_def)

abbreviation entry_of :: "addr \<Rightarrow> u16 \<Rightarrow> buf_entry" where
  "entry_of base i \<equiv> \<lparr> buf_addr = buffer_at base i, buf_len = BUF_BLOCK_SIZE, buf_id = i \<rparr>"

lemma fill_buffers_fills:
  assumes "buf_ring_law lu" and "br_tail br = 0" and "unat i + n = 2048"
    and "\<And>j. j < unat i \<Longrightarrow> br_bufs br j = entry_of base (of_nat j)"
  shows "br_tail (fill_buffers lu base n i br) = 0
     \<and> (\<forall>j < 2048. br_bufs (fill_buffers lu base n i br) j = entry_of base (of_nat j))"
  using assms(2-4)
proof (induction n arbitrary: i br)
  case 0
  then show ?case by simp
next
  case (Suc n)
  let ?br = "lu_add lu br (buffer_at base i) BUF_BLOCK_SIZE i (lu_mask lu BUF_RING_SIZE) (uint i)"
  have i: "unat i < 2048"
    using Suc.prems(2) by simp
  then have next_i: "unat (i + 1) = Suc (unat i)"
    by (intro unat_Suc_less [where b = 2048]) (simp add: word_less_nat_alt)
  have add: "?br = br\<lparr> br_bufs := (br_bufs br)(unat i := entry_of base i) \<rparr>"
    using i Suc.prems(1) by (simp add: buf_ring_lawD(1) [OF assms(1)] nat_mod_distrib)
  have "br_bufs ?br j = entry_of base (of_nat j)" if "j < unat (i + 1)" for j
    using that Suc.prems(3) [of j] by (cases "j = unat i") (auto simp: add next_i)
  then have "br_tail (fill_buffers lu base n (i + 1) ?br) = 0
     \<and> (\<forall>j < 2048. br_bufs (fill_buffers lu base n (i + 1) ?br) j = entry_of base (of_nat j))"
    using Suc.prems(1,2) next_i by (intro Suc.IH) (simp_all add: add)
  then show ?case by simp
qed

lemma setup_ok:
  assumes "buf_ring_law lu" and "lu_setup lu = (Some br, err)" and "lu_malloc lu \<noteq> nullptr"
  shows "\<exists>br'. setup_provided_buffer_ring lu e
        = (None, e\<lparr> eng_br := Some br', eng_base := lu_malloc lu \<rparr>)
     \<and> br_tail br' = 2048 \<and> (\<forall>j < 2048. br_bufs br' j = entry_of (lu_malloc lu) (of_nat j))"
proof -
  let ?f = "fill_buffers lu (lu_malloc lu) (unat BUF_RING_SIZE) 0 (lu_ring_init lu br)"
  have f: "br_tail ?f = 0 \<and> (\<forall>j < 2048. br_bufs ?f j = entry_of (lu_malloc lu) (of_nat j))"
    using fill_buffers_fills [OF assms(1), of "lu_ring_init lu br" 0 2048]
    by (simp add: buf_ring_lawD(3) [OF assms(1)] BUF_RING_SIZE_def)
  then show ?thesis
    using assms(2,3)
    by (intro exI [of _ "?f\<lparr> br_tail := 2048 \<rparr>"])
      (simp add: setup_provided_buffer_ring_def Let_def buf_ring_lawD(2) [OF assms(1)] BUF_RING_SIZE_def)
qed

lemma buffer_at_offset: "unat (ucast (ucast (i :: u16) * BUF_BLOCK_SIZE :: u32) :: u64) = unat i * 2048"
proof -
  have "unat i < 65536"
    using unsigned_less [of i, where 'a = nat] by simp
  then have "unat (ucast i * BUF_BLOCK_SIZE :: u32) = unat i * 2048"
    by (simp add: BUF_BLOCK_SIZE_def unat_word_ariths unat_ucast_up)
  then show ?thesis
    by (simp add: unat_ucast_up)
qed

lemma return_buffer_effect:
  assumes "buf_ring_law lu"
  shows "return_buffer lu base i br = br\<lparr> br_tail := br_tail br + 1,
     br_bufs := (br_bufs br)((2 * unat (br_tail br)) mod 2048 := entry_of base i) \<rparr>"
proof -
  have "nat ((uint (br_tail br) + uint (br_tail br)) mod 2048) = (2 * unat (br_tail br)) mod 2048"
    by (simp add: nat_mod_distrib nat_mult_distrib flip: mult_2)
  then show ?thesis
    by (simp add: return_buffer_def get_buffer_def buf_ring_lawD [OF assms])
qed

section \<open>Dispatch of tagged pointers\<close>

lemma dispatch_tagged:
  assumes "aligned8 p" and "p \<noteq> nullptr"
  shows "poll_dispatch \<lparr> cqe_user_data = p OR TAG_IO, cqe_res = res, cqe_flags = fl \<rparr> = CompleteIo p res fl"
    and "poll_dispatch \<lparr> cqe_user_data = p OR TAG_MULTI, cqe_res = res, cqe_flags = fl \<rparr> = InvokeMulti p res fl"
    and "poll_dispatch \<lparr> cqe_user_data = p OR TAG_CORO, cqe_res = res, cqe_flags = fl \<rparr> = ScheduleCoro p"
proof -
  have tags: "TAG_IO AND NOT TAG_MASK = 0" "TAG_MULTI AND NOT TAG_MASK = 0" "TAG_CORO AND NOT TAG_MASK = 0"
    by (simp_all add: tag_consts)
  note dec = tags [THEN tag_decode(1) [OF assms(1)]] tags [THEN tag_decode(2) [OF assms(1)]]
  show "poll_dispatch \<lparr> cqe_user_data = p OR TAG_IO, cqe_res = res, cqe_flags = fl \<rparr> = CompleteIo p res fl"
    and "poll_dispatch \<lparr> cqe_user_data = p OR TAG_MULTI, cqe_res = res, cqe_flags = fl \<rparr> = InvokeMulti p res fl"
    and "poll_dispatch \<lparr> cqe_user_data = p OR TAG_CORO, cqe_res = res, cqe_flags = fl \<rparr> = ScheduleCoro p"
    using assms(2) by (simp_all only: poll_dispatch_def Let_def dec cqe.simps) (simp_all add: tag_consts)
qed

lemma dispatch_untagged:
  "poll_dispatch \<lparr> cqe_user_data = TAG_INBOX, cqe_res = res, cqe_flags = fl \<rparr> = DrainInbox"
  "poll_dispatch \<lparr> cqe_user_data = 0, cqe_res = res, cqe_flags = fl \<rparr> = NoAction"
  by (simp_all add: poll_dispatch_def cqe_tag_def cqe_payload_def Let_def) (simp_all add: tag_consts)

lemma queue_sqe_full: "get r = None \<Longrightarrow> queue_sqe get put e r = None"
  by (simp add: queue_sqe_def)

lemma queue_sqe_dispatch:
  assumes "aligned8 ctx" and "ctx \<noteq> nullptr" and "get r = Some r1"
  shows "sqe_user_data e = ctx OR TAG_IO \<Longrightarrow> \<exists>e'. queue_sqe get put e r = Some (put e' r1)
      \<and> poll_dispatch \<lparr> cqe_user_data = sqe_user_data e', cqe_res = res, cqe_flags = fl \<rparr> = CompleteIo ctx res fl"
    and "sqe_user_data e = ctx OR TAG_MULTI \<Longrightarrow> \<exists>e'. queue_sqe get put e r = Some (put e' r1)
      \<and> poll_dispatch \<lparr> cqe_user_data = sqe_user_data e', cqe_res = res, cqe_flags = fl \<rparr> = InvokeMulti ctx res fl"
  using assms(3) dispatch_tagged [OF assms(1,2)] by (auto simp: queue_sqe_def intro!: exI [of _ e])

section \<open>Properties\<close>

text \<open>
  C28: decoding inverts the pointer tagging: a completion that carries an 8-aligned, non-null
  pointer with the one-shot, multishot or coroutine tag is dispatched to exactly that object, the
  inbox tag drains the inbox, and user data 0 is ignored.
\<close>

theorem tagged_dispatch:
  assumes "aligned8 p" and "p \<noteq> nullptr"
  shows "poll_dispatch \<lparr> cqe_user_data = p OR TAG_IO, cqe_res = res, cqe_flags = fl \<rparr> = CompleteIo p res fl
     \<and> poll_dispatch \<lparr> cqe_user_data = p OR TAG_MULTI, cqe_res = res, cqe_flags = fl \<rparr> = InvokeMulti p res fl
     \<and> poll_dispatch \<lparr> cqe_user_data = p OR TAG_CORO, cqe_res = res, cqe_flags = fl \<rparr> = ScheduleCoro p
     \<and> poll_dispatch \<lparr> cqe_user_data = TAG_INBOX, cqe_res = res, cqe_flags = fl \<rparr> = DrainInbox
     \<and> poll_dispatch \<lparr> cqe_user_data = 0, cqe_res = res, cqe_flags = fl \<rparr> = NoAction"
  by (intro conjI dispatch_tagged dispatch_untagged assms)

theorem tagged_dispatch_witness:
  "poll_dispatch \<lparr> cqe_user_data = 4096 OR TAG_CORO, cqe_res = 0, cqe_flags = 0 \<rparr> = ScheduleCoro 4096"
proof -
  have "aligned8 4096" "(4096 :: addr) \<noteq> nullptr"
    by (simp_all add: aligned8_def TAG_MASK_def)
  from tagged_dispatch [OF this] show ?thesis by blast
qed

text \<open>
  C35: a request that finds a free submission entry queues exactly one entry, and the completion
  that carries this entry's user data is dispatched to the context of the request; the multishot
  requests likewise to their operation. A request that finds the submission queue full uses a null
  entry, except \<open>send_msg_ring\<close>, which first submits the queue and then tries once more.
\<close>

theorem request_reaches_context:
  assumes "aligned8 ctx" and "ctx \<noteq> nullptr" and "get r = Some r1" and "get full = None"
  shows "(\<forall>req \<in> {accept_direct get put fd ctx, recv_direct get put fd ctx,
                  send_direct get put fd buf len ctx, close_direct get put fd ctx}.
      req full = None \<and> (\<exists>e. req r = Some (put e r1)
        \<and> poll_dispatch \<lparr> cqe_user_data = sqe_user_data e, cqe_res = res, cqe_flags = fl \<rparr> = CompleteIo ctx res fl))
    \<and> (\<forall>req \<in> {accept_multishot get put fd ctx, recv_multishot get put fd ctx}.
      req full = None \<and> (\<exists>e. req r = Some (put e r1)
        \<and> poll_dispatch \<lparr> cqe_user_data = sqe_user_data e, cqe_res = res, cqe_flags = fl \<rparr> = InvokeMulti ctx res fl))
    \<and> (submit full = r \<longrightarrow> (\<exists>e. send_msg_ring get put submit fd d full = Some (put e r1)))"
proof -
  have one: "\<exists>e'. queue_sqe get put e r = Some (put e' r1)
      \<and> poll_dispatch \<lparr> cqe_user_data = sqe_user_data e', cqe_res = res, cqe_flags = fl \<rparr> = CompleteIo ctx res fl"
    if "sqe_user_data e = ctx OR TAG_IO" for e
    using assms(1-3) that by (rule queue_sqe_dispatch(1))
  have multi: "\<exists>e'. queue_sqe get put e r = Some (put e' r1)
      \<and> poll_dispatch \<lparr> cqe_user_data = sqe_user_data e', cqe_res = res, cqe_flags = fl \<rparr> = InvokeMulti ctx res fl"
    if "sqe_user_data e = ctx OR TAG_MULTI" for e
    using assms(1-3) that by (rule queue_sqe_dispatch(2))
  have "\<exists>e. send_msg_ring get put submit fd d full = Some (put e r1)" if "submit full = r"
    using that assms(3,4) by (auto simp: send_msg_ring_def queue_sqe_def)
  then show ?thesis
    using queue_sqe_full [of get full put, OF assms(4)]
    by (simp add: accept_direct_def recv_direct_def send_direct_def close_direct_def
        accept_multishot_def recv_multishot_def one multi)
qed

text \<open>A submission queue of one entry, for concrete runs.\<close>

definition one_entry_get :: "sqe list \<Rightarrow> sqe list option" where
  "one_entry_get r = (if length r < 1 then Some r else None)"

theorem request_reaches_context_witness:
  "recv_direct one_entry_get (\<lambda>e r. r @ [e]) 3 4096 [sqe_new (CloseDirect 3)] = None
   \<and> (\<exists>e. recv_direct one_entry_get (\<lambda>e r. r @ [e]) 3 4096 [] = Some [e])"
proof -
  have "aligned8 4096" "(4096 :: addr) \<noteq> nullptr"
    by (simp_all add: aligned8_def TAG_MASK_def)
  moreover have "one_entry_get [] = Some []" "one_entry_get [sqe_new (CloseDirect 3)] = None"
    by (simp_all add: one_entry_get_def)
  ultimately show ?thesis
    using request_reaches_context [of 4096 one_entry_get "[]" "[]" "[sqe_new (CloseDirect 3)]"
        "\<lambda>e r. r @ [e]" 3 0 0 0 0 id 0] unfolding append_Nil by blast
qed

text \<open>
  Start-up takes the first configuration the kernel accepts, in the order 4096, 1024, 256
  entries and, for each, the advanced flags before none; it fails with the error of the last attempt.
\<close>

lemma engine_negotiation:
  "try_depths lu queue_depths 0 =
     (case filter (\<lambda>(d, f). \<not> lu_queue_init lu d f < 0)
        [(4096, lu_advanced lu), (4096, 0), (1024, lu_advanced lu), (1024, 0), (256, lu_advanced lu), (256, 0)] of
        [] \<Rightarrow> Inl (- lu_queue_init lu 256 0)
      | cfg # _ \<Rightarrow> Inr cfg)"
  by (simp add: queue_depths_def IO_QUEUE_DEPTH_def)

text \<open>
  An initialised engine releases the buffer ring, the buffers and the ring exactly once, in that
  order. When start-up fails after the ring was opened, the exception leaves it open and the
  destructor releases nothing.
\<close>

lemma engine_release:
  assumes "engine_init lu engine_new = (err, e)" and "\<not> lu_queue_init lu 4096 (lu_advanced lu) < 0"
  shows "eng_ring e = Some (4096, lu_advanced lu)
     \<and> engine_destroy e = (if err = None then [FreeBufRing, FreeBuffers (lu_malloc lu), QueueExit] else [])"
proof -
  have "try_depths lu queue_depths 0 = Inr (4096, lu_advanced lu)"
    using assms(2) by (simp add: queue_depths_def IO_QUEUE_DEPTH_def)
  then show ?thesis
    using assms(1)
    by (auto simp: engine_init_def engine_new_def setup_provided_buffer_ring_def engine_destroy_def Let_def
        split: if_splits prod.splits option.splits)
qed

text \<open>A concrete liburing that follows the documented behaviour.\<close>

definition example_liburing :: "int \<Rightarrow> liburing" where
  "example_liburing reg = \<lparr> lu_advanced = 7, lu_queue_init = (\<lambda>_ _. 0), lu_register_files = (\<lambda>_. reg),
     lu_setup = (Some \<lparr> br_tail = 9, br_bufs = (\<lambda>_. \<lparr> buf_addr = 0, buf_len = 0, buf_id = 0 \<rparr>) \<rparr>, 0),
     lu_ring_init = (\<lambda>br. br\<lparr> br_tail := 0 \<rparr>), lu_malloc = 4096, lu_mask = (\<lambda>n. uint n - 1),
     lu_add = (\<lambda>br a l b m off. br\<lparr> br_bufs := (br_bufs br)(nat ((uint (br_tail br) + off) AND m) :=
        \<lparr> buf_addr = a, buf_len = l, buf_id = b \<rparr>) \<rparr>),
     lu_advance = (\<lambda>br n. br\<lparr> br_tail := br_tail br + of_int n \<rparr>) \<rparr>"

lemma example_liburing_law: "buf_ring_law (example_liburing reg)"
  by (simp add: buf_ring_law_def example_liburing_def)

lemma engine_release_instance:
  "\<exists>e. engine_init (example_liburing (-22)) engine_new = (Some (RegisterFilesFailed 22), e)
     \<and> eng_ring e \<noteq> None \<and> engine_destroy e = []"
proof -
  let ?lu = "example_liburing (-22)"
  have "try_depths ?lu queue_depths 0 = Inr (4096, 7)"
    by (simp add: queue_depths_def IO_QUEUE_DEPTH_def example_liburing_def)
  then obtain e where e: "engine_init ?lu engine_new = (Some (RegisterFilesFailed 22), e)"
    by (simp add: engine_init_def Let_def) (simp add: example_liburing_def)
  have "\<not> lu_queue_init ?lu 4096 (lu_advanced ?lu) < 0"
    by (simp add: example_liburing_def)
  from engine_release [OF e this] show ?thesis
    using e by simp
qed

text \<open>
  After start-up the buffer ring offers all 2048 buffers: entry \<open>i\<close> is buffer \<open>i\<close>, whose block
  of 2048 bytes lies at offset \<open>2048 * i\<close> of the allocation, and the tail is 2048.
\<close>

lemma setup_offers_all_buffers:
  assumes "buf_ring_law lu" and "lu_setup lu = (Some br, err)" and "lu_malloc lu \<noteq> nullptr" and "j < 2048"
  shows "\<exists>br' e'. setup_provided_buffer_ring lu e = (None, e') \<and> eng_br e' = Some br' \<and> br_tail br' = 2048
     \<and> br_bufs br' j = \<lparr> buf_addr = get_buffer (lu_malloc lu) (of_nat j), buf_len = 2048, buf_id = of_nat j \<rparr>
     \<and> get_buffer (lu_malloc lu) (of_nat j) = lu_malloc lu + of_nat (2048 * j)"
proof -
  obtain br' where br': "setup_provided_buffer_ring lu e = (None, e\<lparr> eng_br := Some br', eng_base := lu_malloc lu \<rparr>)"
    "br_tail br' = 2048" "br_bufs br' j = entry_of (lu_malloc lu) (of_nat j)"
    using setup_ok [OF assms(1-3), of e] assms(4) by auto
  have "unat (of_nat j :: u16) = j"
    using assms(4) by (simp add: unat_of_nat)
  moreover have "unat (of_nat (2048 * j) :: u64) = 2048 * j"
    using assms(4) unfolding unat_of_nat by simp
  ultimately have "ucast (ucast (of_nat j :: u16) * BUF_BLOCK_SIZE :: u32) = (of_nat (2048 * j) :: u64)"
    using buffer_at_offset [of "of_nat j"] unfolding word_unat_eq_iff by simp
  then have "get_buffer (lu_malloc lu) (of_nat j) = lu_malloc lu + of_nat (2048 * j)"
    by (simp add: get_buffer_def buffer_at_def)
  then show ?thesis
    using br' by (simp add: get_buffer_def BUF_BLOCK_SIZE_def)
qed

lemma setup_offers_all_buffers_instance:
  "\<exists>br' e'. setup_provided_buffer_ring (example_liburing 0) engine_new = (None, e') \<and> eng_br e' = Some br'
     \<and> buf_id (br_bufs br' 5) = 5"
  using setup_offers_all_buffers [OF example_liburing_law, of 0 _ _ 5 engine_new]
  by (auto simp: example_liburing_def)

text \<open>
  C39: \<open>return_buffer\<close> passes the ring's tail as the offset, which \<open>io_uring_buf_ring_add\<close> adds to
  the tail again. The buffer is stored at \<open>2 * tail\<close> instead of \<open>tail\<close> (modulo 2048), while the
  entry published by the advance is the one at \<open>tail\<close>: unless the tail is a multiple of 2048 that
  entry still holds an older buffer.
\<close>

lemma return_buffer_misplaces:
  assumes "buf_ring_law lu" and "unat (br_tail br) mod 2048 \<noteq> 0"
  shows "br_tail (return_buffer lu base i br) = br_tail br + 1
     \<and> br_bufs (return_buffer lu base i br) ((2 * unat (br_tail br)) mod 2048) = entry_of base i
     \<and> br_bufs (return_buffer lu base i br) (unat (br_tail br) mod 2048) = br_bufs br (unat (br_tail br) mod 2048)"
proof -
  let ?t = "unat (br_tail br)"
  have "(2 * ?t) mod 2048 \<noteq> ?t mod 2048"
  proof
    assume "(2 * ?t) mod 2048 = ?t mod 2048"
    then have "2048 dvd ?t"
      using mod_eq_dvd_iff_nat [of ?t "2 * ?t" 2048] by simp
    then show False
      using assms(2) by simp
  qed
  then show ?thesis
    by (simp add: return_buffer_effect [OF assms(1)])
qed

lemma return_buffer_misplaces_instance:
  "\<exists>e br. setup_provided_buffer_ring (example_liburing 0) engine_new = (None, e) \<and> eng_br e = Some br
     \<and> (let br2 = return_buffer (example_liburing 0) 4096 700 (return_buffer (example_liburing 0) 4096 600 br)
        in buf_id (br_bufs br2 0) = 600 \<and> buf_id (br_bufs br2 1) = 1 \<and> buf_id (br_bufs br2 2) = 700)"
proof -
  obtain br e where e: "setup_provided_buffer_ring (example_liburing 0) engine_new = (None, e)" "eng_br e = Some br"
    and br: "br_tail br = 2048" "\<forall>j < 2048. br_bufs br j = entry_of 4096 (of_nat j)"
    using setup_ok [OF example_liburing_law, of 0 _ _ engine_new] by (auto simp: example_liburing_def)
  let ?b1 = "return_buffer (example_liburing 0) 4096 600 br"
  have b1: "?b1 = br\<lparr> br_tail := 2049, br_bufs := (br_bufs br)(0 := entry_of 4096 600) \<rparr>"
    using br(1) by (simp add: return_buffer_effect [OF example_liburing_law])
  have "unat (br_tail ?b1) mod 2048 \<noteq> 0"
    by (simp add: b1)
  note mis = return_buffer_misplaces [OF example_liburing_law this, of 0 4096 700]
  let ?b2 = "return_buffer (example_liburing 0) 4096 700 ?b1"
  have "br_bufs ?b2 2 = entry_of 4096 700" and "br_bufs ?b2 1 = entry_of 4096 1"
    using mis br(2) by (simp_all add: b1)
  moreover have "br_bufs ?b2 0 = entry_of 4096 600"
    by (simp add: return_buffer_effect [OF example_liburing_law, where br = ?b1]) (simp add: b1)
  ultimately have "buf_id (br_bufs ?b2 0) = 600 \<and> buf_id (br_bufs ?b2 1) = 1 \<and> buf_id (br_bufs ?b2 2) = 700"
    by (simp only: buf_entry.simps)
  then show ?thesis
    using e unfolding Let_def by blast
qed

end
