(* ===== verification/Co_Mutex.thy ===== *)
theory Co_Mutex
  imports Io_Engine
begin

text \<open>
  \<open>CoMutex\<close> of \<open>include/novaio/comutex.hpp\<close> and \<open>src/comutex.cpp\<close>: a coroutine mutex whose state
  word is 0 (unlocked), 1 (locked, nobody queued) or the address of the newest waiting \<open>Awaiter\<close>,
  the head of a chain of waiters. \<open>await_suspend\<close> and \<open>unlock\<close> are cut at their accesses to the state
  word, and the steps of all coroutines interleave freely; the list \<open>waiters_head_\<close> is only used by
  \<open>unlock\<close>, that is, by the holder.
\<close>

section \<open>State\<close>

definition UNLOCKED :: u64 where "UNLOCKED = 0"
definition LOCKED_NO_WAITERS :: u64 where "LOCKED_NO_WAITERS = 1"

record mutex_awaiter =
  ma_coro :: handle
  ma_sched :: addr
  ma_next :: addr

text \<open>Where the owner of an \<open>Awaiter\<close> is: outside, in \<open>await_suspend\<close>, queued, holding the lock, or
  at one of the accesses of \<open>unlock\<close>.\<close>

datatype mutex_pc =
    MIdle
  | MTry u64        \<comment> \<open>\<open>old_state\<close> loaded, at the compare-exchange\<close>
  | MWaiting
  | MHolds
  | MXchg           \<comment> \<open>\<open>waiters_head_\<close> was null, at the first exchange\<close>
  | MCas
  | MXchg2
  | MRev u64        \<comment> \<open>at the reversal of the captured chain\<close>
  | MPop

text \<open>
  A wake-up: on the current scheduler by \<open>schedule\<close>, or on another one by a message to its ring.
  The histories hold the waiters in the order they were queued, and the wake-ups in order.
\<close>

datatype wakeup = WakeLocal handle | WakeRemote addr u64

record mutex_sys =
  mx_state :: u64
  mx_waiters_head :: addr
  mx_awaiters :: "addr \<Rightarrow> mutex_awaiter"
  mx_pc :: "addr \<Rightarrow> mutex_pc"
  mx_queued :: "(addr \<times> addr \<times> handle) list"
  mx_granted :: "(addr \<times> addr \<times> handle) list"
  mx_wakeups :: "wakeup list"

definition mutex_init :: "(addr \<Rightarrow> mutex_awaiter) \<Rightarrow> mutex_sys" where
  "mutex_init aw = \<lparr> mx_state = UNLOCKED, mx_waiters_head = nullptr, mx_awaiters = aw,
     mx_pc = (\<lambda>_. MIdle), mx_queued = [], mx_granted = [], mx_wakeups = [] \<rparr>"

definition set_pc :: "addr \<Rightarrow> mutex_pc \<Rightarrow> mutex_sys \<Rightarrow> mutex_sys" where
  "set_pc a pc s = s\<lparr> mx_pc := (mx_pc s)(a := pc) \<rparr>"

section \<open>lock\<close>

text \<open>\<open>await_suspend\<close> up to the load of the state word. The load need not return the newest value: what it
  returns is \<open>seen\<close>, here and in a compare-exchange that fails.\<close>

definition lock_begin :: "addr \<Rightarrow> handle \<Rightarrow> addr \<Rightarrow> u64 \<Rightarrow> mutex_sys \<Rightarrow> mutex_sys" where
  "lock_begin a h current_sched seen s =
     set_pc a (MTry seen)
       (s\<lparr> mx_awaiters := (mx_awaiters s)(a :=
             \<lparr> ma_coro = h, ma_sched = current_sched, ma_next = nullptr \<rparr>) \<rparr>)"

text \<open>One round of its loop; a weak compare-exchange may fail for no reason.\<close>

definition lock_try :: "addr \<Rightarrow> u64 \<Rightarrow> u64 \<Rightarrow> bool \<Rightarrow> mutex_sys \<Rightarrow> mutex_sys" where
  "lock_try a old_state seen spurious s =
     (if old_state = UNLOCKED
      then (if mx_state s = old_state \<and> \<not> spurious
            then set_pc a MHolds (s\<lparr> mx_state := LOCKED_NO_WAITERS \<rparr>)
            else set_pc a (MTry seen) s)
      else (let aw = (mx_awaiters s a)\<lparr> ma_next := (if old_state = LOCKED_NO_WAITERS then 0 else old_state) \<rparr>;
                s1 = s\<lparr> mx_awaiters := (mx_awaiters s)(a := aw) \<rparr>
            in if mx_state s = old_state \<and> \<not> spurious
               then set_pc a MWaiting (s1\<lparr> mx_state := a,
                      mx_queued := mx_queued s @ [(a, ma_sched aw, ma_coro aw)] \<rparr>)
               else set_pc a (MTry seen) s1))"

section \<open>unlock\<close>

text \<open>The reversal of the chain; \<open>None\<close> is a chain without an end.\<close>

partial_function (option) reverse_waiters ::
    "(addr \<Rightarrow> mutex_awaiter) \<Rightarrow> addr \<Rightarrow> addr \<Rightarrow> ((addr \<Rightarrow> mutex_awaiter) \<times> addr) option" where
  "reverse_waiters aw cur previous =
     (if cur \<noteq> nullptr
      then reverse_waiters (aw(cur := (aw cur)\<lparr> ma_next := previous \<rparr>)) (ma_next (aw cur)) cur
      else Some (aw, previous))"

declare reverse_waiters.simps [code]

definition unlock_begin :: "addr \<Rightarrow> mutex_sys \<Rightarrow> mutex_sys" where
  "unlock_begin a s = set_pc a (if mx_waiters_head s = nullptr then MXchg else MPop) s"

definition unlock_xchg :: "addr \<Rightarrow> mutex_sys \<Rightarrow> mutex_sys" where
  "unlock_xchg a s =
     set_pc a (if mx_state s = LOCKED_NO_WAITERS then MCas else MRev (mx_state s))
       (s\<lparr> mx_state := LOCKED_NO_WAITERS \<rparr>)"

definition unlock_cas :: "addr \<Rightarrow> mutex_sys \<Rightarrow> mutex_sys" where
  "unlock_cas a s =
     (if mx_state s = LOCKED_NO_WAITERS then set_pc a MIdle (s\<lparr> mx_state := UNLOCKED \<rparr>)
      else set_pc a MXchg2 s)"

definition unlock_xchg2 :: "addr \<Rightarrow> mutex_sys \<Rightarrow> mutex_sys" where
  "unlock_xchg2 a s = set_pc a (MRev (mx_state s)) (s\<lparr> mx_state := LOCKED_NO_WAITERS \<rparr>)"

definition unlock_rev :: "addr \<Rightarrow> u64 \<Rightarrow> mutex_sys \<Rightarrow> mutex_sys" where
  "unlock_rev a old_state s =
     (case reverse_waiters (mx_awaiters s) old_state nullptr of
        None \<Rightarrow> s
      | Some (aw, first) \<Rightarrow> set_pc a MPop (s\<lparr> mx_awaiters := aw, mx_waiters_head := first \<rparr>))"

text \<open>
  The hand-over: the oldest waiter is taken off the list and woken on its scheduler; it is then the
  holder. A waiter without a scheduler is taken off and not woken.
\<close>

definition unlock_pop :: "addr \<Rightarrow> addr \<Rightarrow> mutex_sys \<Rightarrow> mutex_sys" where
  "unlock_pop a current_sched s =
     (if mx_waiters_head s = nullptr then set_pc a MIdle s
      else (let to_resume = mx_waiters_head s; aw = mx_awaiters s to_resume;
                s1 = set_pc a MIdle (s\<lparr> mx_waiters_head := ma_next aw \<rparr>);
                granted = mx_granted s @ [(to_resume, ma_sched aw, ma_coro aw)]
            in if ma_sched aw = current_sched \<and> current_sched \<noteq> nullptr
               then set_pc to_resume MHolds (s1\<lparr> mx_granted := granted,
                      mx_wakeups := mx_wakeups s @ [WakeLocal (ma_coro aw)] \<rparr>)
               else if ma_sched aw \<noteq> nullptr
               then set_pc to_resume MHolds (s1\<lparr> mx_granted := granted,
                      mx_wakeups := mx_wakeups s @ [WakeRemote (ma_sched aw) (ma_coro aw OR TAG_CORO)] \<rparr>)
               else s1))"

text \<open>The next access of the holder \<open>a\<close>, on a thread whose current scheduler is \<open>current_sched\<close>.\<close>

definition holder_step :: "addr \<Rightarrow> addr \<Rightarrow> mutex_sys \<Rightarrow> mutex_sys" where
  "holder_step a current_sched s =
     (case mx_pc s a of
        MHolds \<Rightarrow> unlock_begin a s
      | MXchg \<Rightarrow> unlock_xchg a s
      | MCas \<Rightarrow> unlock_cas a s
      | MXchg2 \<Rightarrow> unlock_xchg2 a s
      | MRev old \<Rightarrow> unlock_rev a old s
      | MPop \<Rightarrow> unlock_pop a current_sched s
      | _ \<Rightarrow> s)"

section \<open>Interleavings\<close>

text \<open>
  \<open>mutex_reach P s\<close>: coroutines lock and unlock in any interleaving; the current schedulers of the
  locking threads satisfy \<open>P\<close>. An \<open>Awaiter\<close> is an 8-aligned object, and only the holder unlocks.
\<close>

inductive mutex_reach :: "(addr \<Rightarrow> bool) \<Rightarrow> mutex_sys \<Rightarrow> bool" for P :: "addr \<Rightarrow> bool" where
  mutex_start: "mutex_reach P (mutex_init aw)"
| mutex_lock: "mutex_reach P s \<Longrightarrow> mx_pc s a = MIdle \<Longrightarrow> aligned8 a \<Longrightarrow> a \<noteq> nullptr \<Longrightarrow> P sched \<Longrightarrow>
     mutex_reach P (lock_begin a h sched seen s)"
| mutex_try: "mutex_reach P s \<Longrightarrow> mx_pc s a = MTry old \<Longrightarrow> mutex_reach P (lock_try a old seen spurious s)"
| mutex_unlock: "mutex_reach P s \<Longrightarrow> mutex_reach P (holder_step a sched s)"

text \<open>Between the acquisition and the end of \<open>unlock\<close>.\<close>

fun holding :: "mutex_pc \<Rightarrow> bool" where
  "holding MIdle \<longleftrightarrow> False"
| "holding (MTry _) \<longleftrightarrow> False"
| "holding MWaiting \<longleftrightarrow> False"
| "holding _ \<longleftrightarrow> True"

end
