(* ===== verification/Co_Mutex_Props.thy ===== *)
theory Co_Mutex_Props
  imports Co_Mutex
begin

text \<open>
  The invariant of the coroutine mutex over all interleavings and what follows from it: mutual
  exclusion, first-in first-out hand-over, and that no waiter is forgotten. The abstract value of a
  state is its queue of waiters: the list kept by the holder, then the chain it has captured, then
  the chain behind the state word, the last two in reverse.
\<close>

section \<open>Chains of waiters\<close>

fun wpath :: "(addr \<Rightarrow> mutex_awaiter) \<Rightarrow> addr \<Rightarrow> addr list \<Rightarrow> bool" where
  "wpath aw c [] \<longleftrightarrow> c = nullptr"
| "wpath aw c (x # xs) \<longleftrightarrow> c = x \<and> x \<noteq> nullptr \<and> wpath aw (ma_next (aw x)) xs"

lemma wpath_cong:
  "(\<And>x. x \<in> set xs \<Longrightarrow> ma_next (aw' x) = ma_next (aw x)) \<Longrightarrow> wpath aw' c xs = wpath aw c xs"
  by (induction xs arbitrary: c) auto

lemma wpath_upd [simp]: "x \<notin> set xs \<Longrightarrow> wpath (aw(x := w)) c xs = wpath aw c xs"
  by (rule wpath_cong) auto

lemma wpath_null [simp]: "wpath aw 0 xs \<longleftrightarrow> xs = []"
  by (cases xs) auto

lemma wpath_head: "wpath aw c xs \<Longrightarrow> c \<noteq> nullptr \<Longrightarrow> xs = c # tl xs"
  by (cases xs) auto

definition entry :: "(addr \<Rightarrow> mutex_awaiter) \<Rightarrow> addr \<Rightarrow> addr \<times> addr \<times> handle" where
  "entry aw a = (a, ma_sched (aw a), ma_coro (aw a))"

lemma entry_next [simp]: "entry (aw(c := (aw c)\<lparr> ma_next := n \<rparr>)) = entry aw"
  by (simp add: entry_def fun_eq_iff)

lemma entry_cong: "(\<And>x. x \<in> set xs \<Longrightarrow> aw' x = aw x) \<Longrightarrow> map (entry aw') xs = map (entry aw) xs"
  by (simp add: entry_def)

text \<open>The reversal loop ends on a chain and yields the reversed chain, the entries unchanged.\<close>

lemma reverse_waiters_rev:
  assumes "wpath aw c xs" and "wpath aw p ys" and "distinct (xs @ ys)"
  shows "\<exists>aw' first. reverse_waiters aw c p = Some (aw', first) \<and> wpath aw' first (rev xs @ ys)
     \<and> entry aw' = entry aw \<and> (\<forall>x. x \<notin> set xs \<longrightarrow> aw' x = aw x)"
  using assms
proof (induction xs arbitrary: aw c p ys)
  case Nil
  then show ?case
    by (simp add: reverse_waiters.simps)
next
  case (Cons x xs)
  let ?aw = "aw(x := (aw x)\<lparr> ma_next := p \<rparr>)"
  have c: "c = x" "x \<noteq> nullptr" "wpath aw (ma_next (aw x)) xs" and x: "x \<notin> set xs" "x \<notin> set ys"
    using Cons.prems by auto
  have p1: "wpath ?aw (ma_next (aw x)) xs"
    using c(3) x(1) by simp
  have p2: "wpath ?aw x (x # ys)"
    using Cons.prems(2) c(2) x(2) by simp
  have d: "distinct (xs @ x # ys)"
    using Cons.prems(3) by auto
  obtain aw' first where r: "reverse_waiters ?aw (ma_next (aw x)) x = Some (aw', first)"
    "wpath aw' first (rev xs @ x # ys)" "entry aw' = entry ?aw" "\<forall>y. y \<notin> set xs \<longrightarrow> aw' y = ?aw y"
    using Cons.IH [OF p1 p2 d] by blast
  have "reverse_waiters aw c p = Some (aw', first)"
    using r(1) c by (subst reverse_waiters.simps) simp
  then show ?case
    using r by (intro exI [of _ aw'] exI [of _ first]) simp
qed

section \<open>The invariant\<close>

fun holder_ok :: "(addr \<Rightarrow> mutex_awaiter) \<Rightarrow> addr list \<Rightarrow> addr list \<Rightarrow> addr list \<Rightarrow> mutex_pc \<Rightarrow> bool" where
  "holder_ok aw xs ys zs MXchg \<longleftrightarrow> zs = [] \<and> ys = []"
| "holder_ok aw xs ys zs MCas \<longleftrightarrow> zs = [] \<and> ys = []"
| "holder_ok aw xs ys zs MXchg2 \<longleftrightarrow> zs = [] \<and> ys = [] \<and> xs \<noteq> []"
| "holder_ok aw xs ys zs (MRev old) \<longleftrightarrow> ys = [] \<and> zs \<noteq> [] \<and> wpath aw old zs"
| "holder_ok aw xs ys zs MPop \<longleftrightarrow> zs = [] \<and> ys \<noteq> []"
| "holder_ok aw xs ys zs MHolds \<longleftrightarrow> zs = []"
| "holder_ok aw xs ys zs _ \<longleftrightarrow> True"

definition chain_of :: "u64 \<Rightarrow> addr" where
  "chain_of st = (if st = LOCKED_NO_WAITERS then nullptr else st)"

text \<open>The chains: \<open>xs\<close> behind the state word, \<open>ys\<close> kept by the holder, \<open>zs\<close> just captured.\<close>

definition chains_ok :: "mutex_sys \<Rightarrow> addr list \<Rightarrow> addr list \<Rightarrow> addr list \<Rightarrow> bool" where
  "chains_ok s xs ys zs \<longleftrightarrow>
     wpath (mx_awaiters s) (chain_of (mx_state s)) xs \<and> wpath (mx_awaiters s) (mx_waiters_head s) ys
     \<and> distinct (ys @ rev zs @ rev xs)
     \<and> mx_queued s = mx_granted s @ map (entry (mx_awaiters s)) (ys @ rev zs @ rev xs)"

definition agents_ok :: "mutex_sys \<Rightarrow> addr list \<Rightarrow> addr list \<Rightarrow> addr list \<Rightarrow> bool" where
  "agents_ok s xs ys zs \<longleftrightarrow>
     (\<forall>a. mx_pc s a = MWaiting \<longleftrightarrow> a \<in> set (ys @ rev zs @ rev xs))
     \<and> (\<forall>a. mx_pc s a \<noteq> MIdle \<longrightarrow> a \<noteq> nullptr \<and> aligned8 a \<and> ma_sched (mx_awaiters s a) \<noteq> nullptr)"

definition lock_ok :: "mutex_sys \<Rightarrow> addr list \<Rightarrow> addr list \<Rightarrow> addr list \<Rightarrow> bool" where
  "lock_ok s xs ys zs \<longleftrightarrow>
     (if mx_state s = UNLOCKED then (\<forall>a. \<not> holding (mx_pc s a)) \<and> ys = [] \<and> zs = []
      else (\<exists>a. holding (mx_pc s a) \<and> (\<forall>b. holding (mx_pc s b) \<longrightarrow> b = a)
              \<and> holder_ok (mx_awaiters s) xs ys zs (mx_pc s a)))"

lemma lock_okI:
  assumes "mx_state s \<noteq> UNLOCKED" and "holding (mx_pc s a)" and "\<And>b. holding (mx_pc s b) \<Longrightarrow> b = a"
    and "holder_ok (mx_awaiters s) xs ys zs (mx_pc s a)"
  shows "lock_ok s xs ys zs"
  unfolding lock_ok_def if_not_P [OF assms(1)] by (intro exI [of _ a] conjI allI impI assms)

lemma lock_okE:
  assumes "lock_ok s xs ys zs" and "mx_state s \<noteq> UNLOCKED"
  obtains a where "holding (mx_pc s a)" and "\<And>b. holding (mx_pc s b) \<Longrightarrow> b = a"
    and "holder_ok (mx_awaiters s) xs ys zs (mx_pc s a)"
proof -
  obtain a where "holding (mx_pc s a)" "\<forall>b. holding (mx_pc s b) \<longrightarrow> b = a"
    "holder_ok (mx_awaiters s) xs ys zs (mx_pc s a)"
    using assms(1) unfolding lock_ok_def if_not_P [OF assms(2)] by (elim exE conjE)
  then show thesis
    using that by metis
qed

lemma lock_ok_unlocked:
  "mx_state s = UNLOCKED \<Longrightarrow> lock_ok s xs ys zs \<longleftrightarrow> (\<forall>a. \<not> holding (mx_pc s a)) \<and> ys = [] \<and> zs = []"
  by (simp add: lock_ok_def)

text \<open>The holder's own state, from the fact that it holds.\<close>

lemma lock_ok_holder:
  assumes "lock_ok s xs ys zs" and "holding (mx_pc s a)"
  shows "mx_state s \<noteq> UNLOCKED" and "\<And>b. holding (mx_pc s b) \<Longrightarrow> b = a"
    and "holder_ok (mx_awaiters s) xs ys zs (mx_pc s a)"
proof -
  show st: "mx_state s \<noteq> UNLOCKED"
    using assms lock_ok_unlocked by blast
  obtain c where c: "\<And>b. holding (mx_pc s b) \<Longrightarrow> b = c" "holder_ok (mx_awaiters s) xs ys zs (mx_pc s c)"
    using lock_okE [OF assms(1) st] by metis
  then have "c = a"
    using assms(2) by metis
  then show "\<And>b. holding (mx_pc s b) \<Longrightarrow> b = a" and "holder_ok (mx_awaiters s) xs ys zs (mx_pc s a)"
    using c by simp_all
qed

definition mutex_inv :: "mutex_sys \<Rightarrow> bool" where
  "mutex_inv s \<longleftrightarrow> (\<exists>xs ys zs. chains_ok s xs ys zs \<and> agents_ok s xs ys zs \<and> lock_ok s xs ys zs)"

lemma mutex_invI:
  "chains_ok s xs ys zs \<Longrightarrow> agents_ok s xs ys zs \<Longrightarrow> lock_ok s xs ys zs \<Longrightarrow> mutex_inv s"
  unfolding mutex_inv_def by blast

lemma aligned8_not_1: "aligned8 a \<Longrightarrow> a \<noteq> LOCKED_NO_WAITERS"
  by (auto simp: aligned8_def LOCKED_NO_WAITERS_def TAG_MASK_def)

lemma state_consts [simp]: "UNLOCKED \<noteq> LOCKED_NO_WAITERS" "LOCKED_NO_WAITERS \<noteq> UNLOCKED"
  "chain_of LOCKED_NO_WAITERS = nullptr" "chain_of UNLOCKED = nullptr"
  by (simp_all add: UNLOCKED_def LOCKED_NO_WAITERS_def chain_of_def)

lemma set_pc_sel [simp]:
  "mx_state (set_pc a pc s) = mx_state s" "mx_waiters_head (set_pc a pc s) = mx_waiters_head s"
  "mx_awaiters (set_pc a pc s) = mx_awaiters s" "mx_pc (set_pc a pc s) = (mx_pc s)(a := pc)"
  "mx_queued (set_pc a pc s) = mx_queued s" "mx_granted (set_pc a pc s) = mx_granted s"
  "mx_wakeups (set_pc a pc s) = mx_wakeups s"
  by (simp_all add: set_pc_def)

text \<open>A waiter that is not in a chain may move and write its own awaiter freely.\<close>

lemma holder_ok_cong:
  assumes "\<And>x. x \<in> set zs \<Longrightarrow> aw' x = aw x"
  shows "holder_ok aw' xs ys zs pc = holder_ok aw xs ys zs pc"
  using wpath_cong [of zs aw' aw] assms by (cases pc) auto

lemma outside_step:
  assumes inv: "chains_ok s xs ys zs" "agents_ok s xs ys zs" "lock_ok s xs ys zs"
    and a: "\<not> holding (mx_pc s a)" "mx_pc s a \<noteq> MWaiting" "a \<noteq> nullptr" "aligned8 a" "ma_sched w \<noteq> nullptr"
    and pc: "\<not> holding pc" "pc \<noteq> MWaiting"
  shows "mutex_inv (set_pc a pc (s\<lparr> mx_awaiters := (mx_awaiters s)(a := w) \<rparr>))"
proof (rule mutex_invI [of _ xs ys zs])
  let ?s = "set_pc a pc (s\<lparr> mx_awaiters := (mx_awaiters s)(a := w) \<rparr>)"
  have out: "a \<notin> set (ys @ rev zs @ rev xs)"
    using inv(2) a(2) by (auto simp: agents_ok_def)
  have same: "mx_awaiters ?s x = mx_awaiters s x" if "x \<in> set (ys @ rev zs @ rev xs)" for x
    using out that by auto
  show "chains_ok ?s xs ys zs"
    using inv(1) same entry_cong [of "ys @ rev zs @ rev xs" "mx_awaiters ?s" "mx_awaiters s"]
      wpath_cong [of xs "mx_awaiters ?s" "mx_awaiters s"] wpath_cong [of ys "mx_awaiters ?s" "mx_awaiters s"]
    by (simp add: chains_ok_def)
  show "agents_ok ?s xs ys zs"
    using inv(2) out a pc by (auto simp: agents_ok_def)
  have h: "holding (mx_pc ?s b) = holding (mx_pc s b)" for b
    using a(1) pc(1) by simp
  have keep: "holding (mx_pc s b) \<Longrightarrow> mx_pc ?s b = mx_pc s b" for b
    using a(1) by auto
  have ok: "holder_ok (mx_awaiters ?s) xs ys zs = holder_ok (mx_awaiters s) xs ys zs"
    using holder_ok_cong [of zs "mx_awaiters ?s" "mx_awaiters s"] same by (intro ext) auto
  show "lock_ok ?s xs ys zs"
  proof (cases "mx_state s = UNLOCKED")
    case True
    then show ?thesis
      using inv(3) h by (simp add: lock_ok_def)
  next
    case False
    from inv(3) False obtain b where b: "holding (mx_pc s b)" "\<And>d. holding (mx_pc s d) \<Longrightarrow> d = b"
      "holder_ok (mx_awaiters s) xs ys zs (mx_pc s b)"
      by (rule lock_okE) blast
    show ?thesis
    proof (rule lock_okI [of _ b])
      show "holder_ok (mx_awaiters ?s) xs ys zs (mx_pc ?s b)"
        using b(3) unfolding ok keep [OF b(1)] .
      show "holding (mx_pc ?s b)"
        using b(1) h by blast
      show "d = b" if "holding (mx_pc ?s d)" for d
        using b(2) h that by blast
    qed (use False in simp)
  qed
qed

section \<open>Every step keeps the invariant\<close>

lemma mutex_invE:
  assumes "mutex_inv s"
  obtains xs ys zs where "chains_ok s xs ys zs" and "agents_ok s xs ys zs" and "lock_ok s xs ys zs"
  using assms unfolding mutex_inv_def by blast

lemma agents_okD:
  assumes "agents_ok s xs ys zs"
  shows "mx_pc s a = MWaiting \<longleftrightarrow> a \<in> set (ys @ rev zs @ rev xs)"
    and "mx_pc s a \<noteq> MIdle \<Longrightarrow> a \<noteq> nullptr \<and> aligned8 a \<and> ma_sched (mx_awaiters s a) \<noteq> nullptr"
  using assms unfolding agents_ok_def by blast+

lemma inv_lock_begin:
  assumes "mutex_inv s" and "mx_pc s a = MIdle" and "aligned8 a" and "a \<noteq> nullptr" and "sched \<noteq> nullptr"
  shows "mutex_inv (lock_begin a h sched seen s)"
proof -
  obtain xs ys zs where inv: "chains_ok s xs ys zs" "agents_ok s xs ys zs" "lock_ok s xs ys zs"
    by (rule mutex_invE [OF assms(1)])
  show ?thesis
    unfolding lock_begin_def by (rule outside_step [OF inv]) (simp_all add: assms)
qed

lemma inv_lock_retry:
  assumes "mutex_inv s" and "mx_pc s a = MTry old" and "w = (mx_awaiters s a)\<lparr> ma_next := n \<rparr>"
  shows "mutex_inv (set_pc a (MTry new) (s\<lparr> mx_awaiters := (mx_awaiters s)(a := w) \<rparr>))"
proof -
  obtain xs ys zs where inv: "chains_ok s xs ys zs" "agents_ok s xs ys zs" "lock_ok s xs ys zs"
    by (rule mutex_invE [OF assms(1)])
  show ?thesis
    using agents_okD(2) [OF inv(2), of a] assms(2,3) by (intro outside_step [OF inv]) simp_all
qed

lemma inv_lock_free:
  assumes "mutex_inv s" and "mx_pc s a = MTry UNLOCKED" and "mx_state s = UNLOCKED"
  shows "mutex_inv (set_pc a MHolds (s\<lparr> mx_state := LOCKED_NO_WAITERS \<rparr>))"
proof -
  obtain xs ys zs where inv: "chains_ok s xs ys zs" "agents_ok s xs ys zs" "lock_ok s xs ys zs"
    by (rule mutex_invE [OF assms(1)])
  let ?s = "set_pc a MHolds (s\<lparr> mx_state := LOCKED_NO_WAITERS \<rparr>)"
  have none: "\<not> holding (mx_pc s b)" and empty: "ys = []" "zs = []" for b
    using inv(3) assms(3) by (simp_all add: lock_ok_unlocked)
  show ?thesis
  proof (rule mutex_invI)
    show "chains_ok ?s xs ys zs"
      using inv(1) assms(3) empty by (simp add: chains_ok_def)
    have "mx_pc ?s b = MWaiting \<longleftrightarrow> mx_pc s b = MWaiting" for b
      using assms(2) by simp
    moreover have "mx_pc ?s b \<noteq> MIdle \<Longrightarrow> mx_pc s b \<noteq> MIdle" for b
      using assms(2) by (cases "b = a") simp_all
    ultimately show "agents_ok ?s xs ys zs"
      using inv(2) unfolding agents_ok_def by simp
    show "lock_ok ?s xs ys zs"
    proof (rule lock_okI [of _ a])
      show "b = a" if "holding (mx_pc ?s b)" for b
        using none [of b] that by (cases "b = a") simp_all
    qed (simp_all add: empty)
  qed
qed

lemma inv_lock_queue:
  assumes "mutex_inv s" and "mx_pc s a = MTry (mx_state s)" and "mx_state s \<noteq> UNLOCKED"
    and "aw = (mx_awaiters s a)\<lparr> ma_next := chain_of (mx_state s) \<rparr>"
  shows "mutex_inv (set_pc a MWaiting (s\<lparr> mx_awaiters := (mx_awaiters s)(a := aw), mx_state := a,
     mx_queued := mx_queued s @ [(a, ma_sched aw, ma_coro aw)] \<rparr>))"
proof -
  obtain xs ys zs where inv: "chains_ok s xs ys zs" "agents_ok s xs ys zs" "lock_ok s xs ys zs"
    by (rule mutex_invE [OF assms(1)])
  let ?s = "set_pc a MWaiting (s\<lparr> mx_awaiters := (mx_awaiters s)(a := aw), mx_state := a,
     mx_queued := mx_queued s @ [(a, ma_sched aw, ma_coro aw)] \<rparr>)"
  have out: "a \<notin> set (ys @ rev zs @ rev xs)"
    using agents_okD(1) [OF inv(2), of a] assms(2) by simp
  have a: "a \<noteq> nullptr" "aligned8 a" "ma_sched (mx_awaiters s a) \<noteq> nullptr"
    using agents_okD(2) [OF inv(2), of a] assms(2) by simp_all
  then have ch: "chain_of a = a"
    using aligned8_not_1 by (simp add: chain_of_def)
  have ents: "map (entry (mx_awaiters ?s)) (ys @ rev zs @ rev xs) = map (entry (mx_awaiters s)) (ys @ rev zs @ rev xs)"
    using out by (intro entry_cong) auto
  show ?thesis
  proof (rule mutex_invI [of _ "a # xs" ys zs])
    show "chains_ok ?s (a # xs) ys zs"
      using inv(1) ents out a(1) assms(4) by (auto simp: chains_ok_def ch entry_def)
    show "agents_ok ?s (a # xs) ys zs"
      using inv(2) a assms(4) by (auto simp: agents_ok_def)
    obtain b where b: "holding (mx_pc s b)" "\<And>d. holding (mx_pc s d) \<Longrightarrow> d = b"
      "holder_ok (mx_awaiters s) xs ys zs (mx_pc s b)"
      using lock_okE [OF inv(3) assms(3)] by metis
    have ab: "b \<noteq> a"
      using b(1) assms(2) by auto
    show "lock_ok ?s (a # xs) ys zs"
    proof (rule lock_okI [of _ b])
      show "holding (mx_pc ?s b)"
        using b(1) ab by simp
      show "d = b" if "holding (mx_pc ?s d)" for d
        using b(2) [of d] that by (cases "d = a") simp_all
      have "holder_ok (mx_awaiters ?s) (a # xs) ys zs (mx_pc s b) = holder_ok (mx_awaiters s) (a # xs) ys zs (mx_pc s b)"
        using out by (intro holder_ok_cong) auto
      then show "holder_ok (mx_awaiters ?s) (a # xs) ys zs (mx_pc ?s b)"
        using b(3) ab by (cases "mx_pc s b") simp_all
      show "mx_state ?s \<noteq> UNLOCKED"
        using a(1) by (simp add: UNLOCKED_def)
    qed
  qed
qed

lemma inv_lock_try:
  assumes "mutex_inv s" and "mx_pc s a = MTry old"
  shows "mutex_inv (lock_try a old seen spurious s)"
proof -
  have w: "s\<lparr> mx_awaiters := (mx_awaiters s)(a := mx_awaiters s a) \<rparr> = s"
    by simp
  have retry: "mutex_inv (set_pc a (MTry seen) s)"
    using inv_lock_retry [OF assms, of "mx_awaiters s a" "ma_next (mx_awaiters s a)"] w by simp
  show ?thesis
  proof (cases "old = UNLOCKED")
    case True
    then show ?thesis
      using retry inv_lock_free [OF assms(1), of a] assms(2) by (simp add: lock_try_def)
  next
    case False
    let ?aw = "(mx_awaiters s a)\<lparr> ma_next := chain_of old \<rparr>"
    have c: "chain_of old = (if old = LOCKED_NO_WAITERS then 0 else old)"
      by (simp add: chain_of_def)
    show ?thesis
    proof (cases "mx_state s = old \<and> \<not> spurious")
      case True
      then show ?thesis
        using inv_lock_queue [OF assms(1), of a ?aw] False assms(2)
        by (simp add: lock_try_def Let_def c)
    next
      case other: False
      have "mutex_inv (set_pc a (MTry seen) (s\<lparr> mx_awaiters := (mx_awaiters s)(a := ?aw) \<rparr>))"
        by (rule inv_lock_retry [OF assms refl])
      then show ?thesis
        using False other by (auto simp: lock_try_def Let_def c)
    qed
  qed
qed

lemma holder_view:
  assumes "mutex_inv s" and "holding (mx_pc s a)"
  obtains xs ys zs where "chains_ok s xs ys zs" and "agents_ok s xs ys zs" and "mx_state s \<noteq> UNLOCKED"
    and "\<forall>b. holding (mx_pc s b) \<longrightarrow> b = a" and "holder_ok (mx_awaiters s) xs ys zs (mx_pc s a)"
proof -
  obtain xs ys zs where inv: "chains_ok s xs ys zs" "agents_ok s xs ys zs" "lock_ok s xs ys zs"
    by (rule mutex_invE [OF assms(1)])
  have "\<forall>b. holding (mx_pc s b) \<longrightarrow> b = a"
    using lock_ok_holder(2) [OF inv(3) assms(2)] by blast
  then show thesis
    using that [OF inv(1,2) lock_ok_holder(1) [OF inv(3) assms(2)] _ lock_ok_holder(3) [OF inv(3) assms(2)]]
    by blast
qed

text \<open>A step of the holder from one program point inside \<open>unlock\<close> to another.\<close>

lemma agents_ok_holder_move:
  assumes "agents_ok s xs ys zs" and "holding (mx_pc s a)" and "pc \<noteq> MWaiting"
    and "set (ys' @ rev zs' @ rev xs') = set (ys @ rev zs @ rev xs)"
    and "mx_pc s' = (mx_pc s)(a := pc)"
    and "\<And>b. ma_sched (mx_awaiters s' b) = ma_sched (mx_awaiters s b)"
  shows "agents_ok s' xs' ys' zs'"
proof -
  have "mx_pc s a \<noteq> MWaiting" and "mx_pc s a \<noteq> MIdle"
    using assms(2) by auto
  then show ?thesis
    using assms(1,3,5,6) unfolding agents_ok_def assms(4) by simp
qed

lemma lock_ok_holder_move:
  assumes "\<forall>b. holding (mx_pc s b) \<longrightarrow> b = a" and "mx_pc s' = (mx_pc s)(a := pc)" and "holding pc"
    and "mx_state s' \<noteq> UNLOCKED" and "holder_ok (mx_awaiters s') xs ys zs pc"
  shows "lock_ok s' xs ys zs"
proof (rule lock_okI [of _ a])
  show "b = a" if "holding (mx_pc s' b)" for b
    using that assms(1) assms(2) by (cases "b = a") simp_all
  show "holding (mx_pc s' a)" "mx_state s' \<noteq> UNLOCKED" "holder_ok (mx_awaiters s') xs ys zs (mx_pc s' a)"
    using assms(2-5) by simp_all
qed

lemma inv_unlock_begin:
  assumes "mutex_inv s" and "mx_pc s a = MHolds"
  shows "mutex_inv (unlock_begin a s)"
proof -
  have h: "holding (mx_pc s a)"
    using assms(2) by simp
  obtain xs ys zs where v: "chains_ok s xs ys zs" "agents_ok s xs ys zs" "mx_state s \<noteq> UNLOCKED"
    "\<forall>b. holding (mx_pc s b) \<longrightarrow> b = a" "holder_ok (mx_awaiters s) xs ys zs (mx_pc s a)"
    by (rule holder_view [OF assms(1) h])
  have z: "zs = []" and y: "mx_waiters_head s = nullptr \<longleftrightarrow> ys = []"
    using v(1,5) assms(2) by (cases ys; simp add: chains_ok_def)+
  show ?thesis
  proof (rule mutex_invI [of _ xs ys zs])
    show "chains_ok (unlock_begin a s) xs ys zs"
      using v(1) by (simp add: unlock_begin_def chains_ok_def)
    show "agents_ok (unlock_begin a s) xs ys zs"
      by (rule agents_ok_holder_move [OF v(2) h, of "if mx_waiters_head s = nullptr then MXchg else MPop"])
        (simp_all add: unlock_begin_def)
    show "lock_ok (unlock_begin a s) xs ys zs"
      using v(3) y z by (intro lock_ok_holder_move [OF v(4), of _ "if mx_waiters_head s = nullptr then MXchg else MPop"])
        (simp_all add: unlock_begin_def)
  qed
qed

text \<open>Both exchanges capture the chain behind the state word.\<close>

lemma inv_exchange:
  assumes "mutex_inv s" and "mx_pc s a = MXchg \<or> mx_pc s a = MXchg2"
    and "mx_pc s a = MXchg2 \<Longrightarrow> pc = MRev (mx_state s)"
    and "mx_pc s a = MXchg \<Longrightarrow> pc = (if mx_state s = LOCKED_NO_WAITERS then MCas else MRev (mx_state s))"
  shows "mutex_inv (set_pc a pc (s\<lparr> mx_state := LOCKED_NO_WAITERS \<rparr>))"
proof -
  have h: "holding (mx_pc s a)"
    using assms(2) by auto
  obtain xs ys zs where v: "chains_ok s xs ys zs" "agents_ok s xs ys zs" "mx_state s \<noteq> UNLOCKED"
    "\<forall>b. holding (mx_pc s b) \<longrightarrow> b = a" "holder_ok (mx_awaiters s) xs ys zs (mx_pc s a)"
    by (rule holder_view [OF assms(1) h])
  let ?s = "set_pc a pc (s\<lparr> mx_state := LOCKED_NO_WAITERS \<rparr>)"
  have e: "ys = []" "zs = []" and two: "mx_pc s a = MXchg2 \<Longrightarrow> xs \<noteq> []"
    using v(5) assms(2) by auto
  have path: "wpath (mx_awaiters s) (chain_of (mx_state s)) xs"
    using v(1) by (simp add: chains_ok_def)
  then have locked: "mx_state s = LOCKED_NO_WAITERS \<longleftrightarrow> xs = []"
    using v(3) by (cases xs) (auto simp: chain_of_def UNLOCKED_def split: if_splits)
  have pc: "pc = (if xs = [] then MCas else MRev (mx_state s))"
    using assms(2-4) two locked by auto
  show ?thesis
  proof (rule mutex_invI [of _ "[]" "[]" xs])
    show "chains_ok ?s [] [] xs"
      using v(1) e by (simp add: chains_ok_def)
    show "agents_ok ?s [] [] xs"
      by (rule agents_ok_holder_move [OF v(2) h, of pc]) (simp_all add: e pc)
    have "xs \<noteq> [] \<longrightarrow> wpath (mx_awaiters s) (mx_state s) xs"
      using locked path by (auto simp: chain_of_def)
    then show "lock_ok ?s [] [] xs"
      by (intro lock_ok_holder_move [OF v(4), of _ pc]) (simp_all add: pc)
  qed
qed

lemma inv_unlock_cas:
  assumes "mutex_inv s" and "mx_pc s a = MCas"
  shows "mutex_inv (unlock_cas a s)"
proof -
  have h: "holding (mx_pc s a)"
    using assms(2) by simp
  obtain xs ys zs where v: "chains_ok s xs ys zs" "agents_ok s xs ys zs" "mx_state s \<noteq> UNLOCKED"
    "\<forall>b. holding (mx_pc s b) \<longrightarrow> b = a" "holder_ok (mx_awaiters s) xs ys zs (mx_pc s a)"
    by (rule holder_view [OF assms(1) h])
  have e: "ys = []" "zs = []"
    using v(5) assms(2) by simp_all
  have path: "wpath (mx_awaiters s) (chain_of (mx_state s)) xs"
    using v(1) by (simp add: chains_ok_def)
  show ?thesis
  proof (cases "mx_state s = LOCKED_NO_WAITERS")
    case True
    let ?s = "set_pc a MIdle (s\<lparr> mx_state := UNLOCKED \<rparr>)"
    have x: "xs = []"
      using path True by simp
    have "mutex_inv ?s"
    proof (rule mutex_invI [of _ "[]" "[]" "[]"])
      show "chains_ok ?s [] [] []"
        using v(1) e x by (simp add: chains_ok_def)
      show "agents_ok ?s [] [] []"
        using v(2) e x by (simp add: agents_ok_def)
      have "\<not> holding (mx_pc ?s b)" for b
        using v(4) by (cases "b = a") auto
      then show "lock_ok ?s [] [] []"
        by (simp add: lock_ok_unlocked)
    qed
    then show ?thesis
      using True by (simp add: unlock_cas_def)
  next
    case False
    then have "xs \<noteq> []"
      using path v(3) by (auto simp: chain_of_def UNLOCKED_def)
    have "mutex_inv (set_pc a MXchg2 s)"
    proof (rule mutex_invI [of _ xs ys zs])
      show "chains_ok (set_pc a MXchg2 s) xs ys zs"
        using v(1) by (simp add: chains_ok_def)
      show "agents_ok (set_pc a MXchg2 s) xs ys zs"
        by (rule agents_ok_holder_move [OF v(2) h, of MXchg2]) simp_all
      show "lock_ok (set_pc a MXchg2 s) xs ys zs"
        using v(3) e \<open>xs \<noteq> []\<close> by (intro lock_ok_holder_move [OF v(4), of _ MXchg2]) simp_all
    qed
    then show ?thesis
      using False by (simp add: unlock_cas_def)
  qed
qed

lemma inv_unlock_rev:
  assumes "mutex_inv s" and "mx_pc s a = MRev old"
  shows "mutex_inv (unlock_rev a old s)" and "mx_pc (unlock_rev a old s) a = MPop"
proof -
  have h: "holding (mx_pc s a)"
    using assms(2) by simp
  obtain xs ys zs where v: "chains_ok s xs ys zs" "agents_ok s xs ys zs" "mx_state s \<noteq> UNLOCKED"
    "\<forall>b. holding (mx_pc s b) \<longrightarrow> b = a" "holder_ok (mx_awaiters s) xs ys zs (mx_pc s a)"
    by (rule holder_view [OF assms(1) h])
  have e: "ys = []" "zs \<noteq> []" and path: "wpath (mx_awaiters s) old zs"
    using v(5) assms(2) by simp_all
  have d: "distinct (rev zs @ rev xs)"
    using v(1) e by (simp add: chains_ok_def)
  obtain aw' first where r: "reverse_waiters (mx_awaiters s) old nullptr = Some (aw', first)"
    "wpath aw' first (rev zs)" "entry aw' = entry (mx_awaiters s)"
    "\<forall>x. x \<notin> set zs \<longrightarrow> aw' x = mx_awaiters s x"
    using reverse_waiters_rev [OF path, of nullptr "[]"] d by auto
  let ?s = "set_pc a MPop (s\<lparr> mx_awaiters := aw', mx_waiters_head := first \<rparr>)"
  have s: "unlock_rev a old s = ?s"
    by (simp add: unlock_rev_def r(1))
  then show "mx_pc (unlock_rev a old s) a = MPop"
    by simp
  have "wpath aw' (chain_of (mx_state s)) xs = wpath (mx_awaiters s) (chain_of (mx_state s)) xs"
    using d r(4) by (intro wpath_cong) auto
  then have "chains_ok ?s xs (rev zs) []"
    using v(1) r(2,3) e by (simp add: chains_ok_def)
  moreover have "ma_sched (aw' b) = ma_sched (mx_awaiters s b)" for b
    using fun_cong [OF r(3), of b] by (simp add: entry_def)
  then have "agents_ok ?s xs (rev zs) []"
    by (intro agents_ok_holder_move [OF v(2) h, of MPop]) (simp_all add: e)
  moreover have "lock_ok ?s xs (rev zs) []"
    using v(3) e by (intro lock_ok_holder_move [OF v(4), of _ MPop]) simp_all
  ultimately show "mutex_inv (unlock_rev a old s)"
    unfolding s by (rule mutex_invI)
qed

text \<open>The hand-over, when every waiter has a scheduler: the oldest waiter becomes the holder.\<close>

lemma unlock_pop_hands_over:
  assumes "mutex_inv s" and "mx_pc s a = MPop"
  shows "mutex_inv (unlock_pop a sched s)"
    and "\<exists>w. w \<noteq> a \<and> mx_pc s w = MWaiting \<and> mx_pc (unlock_pop a sched s) = (mx_pc s)(a := MIdle, w := MHolds)
       \<and> mx_granted (unlock_pop a sched s) = mx_granted s @ [entry (mx_awaiters s) w]
       \<and> mx_wakeups (unlock_pop a sched s) = mx_wakeups s
          @ [if ma_sched (mx_awaiters s w) = sched then WakeLocal (ma_coro (mx_awaiters s w))
             else WakeRemote (ma_sched (mx_awaiters s w)) (ma_coro (mx_awaiters s w) OR TAG_CORO)]
       \<and> mx_queued (unlock_pop a sched s) = mx_queued s"
proof -
  have h: "holding (mx_pc s a)"
    using assms(2) by simp
  obtain xs ys zs where v: "chains_ok s xs ys zs" "agents_ok s xs ys zs" "mx_state s \<noteq> UNLOCKED"
    "\<forall>b. holding (mx_pc s b) \<longrightarrow> b = a" "holder_ok (mx_awaiters s) xs ys zs (mx_pc s a)"
    by (rule holder_view [OF assms(1) h])
  have z: "zs = []" and "ys \<noteq> []"
    using v(5) assms(2) by simp_all
  then obtain w ws where y: "ys = w # ws"
    by (cases ys) auto
  have head: "mx_waiters_head s = w" "w \<noteq> nullptr" "wpath (mx_awaiters s) (ma_next (mx_awaiters s w)) ws"
    using v(1) y by (simp_all add: chains_ok_def)
  have waits: "mx_pc s w = MWaiting"
    using agents_okD(1) [OF v(2), of w] y by simp
  then have wa: "w \<noteq> a"
    using assms(2) by auto
  have ws: "ma_sched (mx_awaiters s w) \<noteq> nullptr"
    using agents_okD(2) [OF v(2), of w] waits by simp
  let ?aw = "mx_awaiters s w"
  let ?wake = "if ma_sched ?aw = sched then WakeLocal (ma_coro ?aw) else WakeRemote (ma_sched ?aw) (ma_coro ?aw OR TAG_CORO)"
  let ?s = "set_pc w MHolds (set_pc a MIdle (s\<lparr> mx_waiters_head := ma_next ?aw \<rparr>))
      \<lparr> mx_granted := mx_granted s @ [entry (mx_awaiters s) w], mx_wakeups := mx_wakeups s @ [?wake] \<rparr>"
  have s: "unlock_pop a sched s = ?s"
    using head(1,2) ws by (auto simp: unlock_pop_def Let_def entry_def set_pc_def)
  show "\<exists>w. w \<noteq> a \<and> mx_pc s w = MWaiting \<and> mx_pc (unlock_pop a sched s) = (mx_pc s)(a := MIdle, w := MHolds)
       \<and> mx_granted (unlock_pop a sched s) = mx_granted s @ [entry (mx_awaiters s) w]
       \<and> mx_wakeups (unlock_pop a sched s) = mx_wakeups s
          @ [if ma_sched (mx_awaiters s w) = sched then WakeLocal (ma_coro (mx_awaiters s w))
             else WakeRemote (ma_sched (mx_awaiters s w)) (ma_coro (mx_awaiters s w) OR TAG_CORO)]
       \<and> mx_queued (unlock_pop a sched s) = mx_queued s"
    using wa waits unfolding s by (intro exI [of _ w]) simp
  show "mutex_inv (unlock_pop a sched s)"
    unfolding s
  proof (rule mutex_invI [of _ xs ws "[]"])
    show "chains_ok ?s xs ws []"
      using v(1) head y z by (simp add: chains_ok_def)
    have d: "w \<notin> set (ws @ rev xs)"
      using v(1) y z by (simp add: chains_ok_def)
    show "agents_ok ?s xs ws []"
      unfolding agents_ok_def
    proof (intro conjI allI)
      fix b
      show "mx_pc ?s b = MWaiting \<longleftrightarrow> b \<in> set (ws @ rev [] @ rev xs)"
        using agents_okD(1) [OF v(2), of b] d y z assms(2) by auto
      show "mx_pc ?s b \<noteq> MIdle \<longrightarrow> b \<noteq> nullptr \<and> aligned8 b \<and> ma_sched (mx_awaiters ?s b) \<noteq> nullptr"
        using agents_okD(2) [OF v(2), of b] waits by auto
    qed
    show "lock_ok ?s xs ws []"
    proof (rule lock_okI [of _ w])
      show "b = w" if "holding (mx_pc ?s b)" for b
        using that v(4) by (cases "b = w"; cases "b = a") auto
    qed (use v(3) in simp_all)
  qed
qed

lemma inv_holder_step:
  assumes "mutex_inv s"
  shows "mutex_inv (holder_step a sched s)"
proof (cases "mx_pc s a")
  case MHolds
  then show ?thesis using inv_unlock_begin [OF assms] by (simp add: holder_step_def)
next
  case MXchg
  then show ?thesis
    using inv_exchange [OF assms, of a "if mx_state s = LOCKED_NO_WAITERS then MCas else MRev (mx_state s)"]
    by (simp add: holder_step_def unlock_xchg_def)
next
  case MCas
  then show ?thesis using inv_unlock_cas [OF assms] by (simp add: holder_step_def)
next
  case MXchg2
  then show ?thesis
    using inv_exchange [OF assms, of a "MRev (mx_state s)"] by (simp add: holder_step_def unlock_xchg2_def)
next
  case (MRev old)
  then show ?thesis using inv_unlock_rev(1) [OF assms] by (simp add: holder_step_def)
next
  case MPop
  then show ?thesis using unlock_pop_hands_over(1) [OF assms] by (simp add: holder_step_def)
qed (simp_all add: holder_step_def assms)

lemma inv_mutex_init: "mutex_inv (mutex_init aw)"
  by (rule mutex_invI [of _ "[]" "[]" "[]"])
    (simp_all add: mutex_init_def chains_ok_def agents_ok_def lock_ok_unlocked)

lemma mutex_reach_inv:
  assumes "mutex_reach P s" and "\<And>sched. P sched \<Longrightarrow> sched \<noteq> nullptr"
  shows "mutex_inv s"
  using assms(1)
proof (induction rule: mutex_reach.induct)
  case (mutex_start aw)
  show ?case by (rule inv_mutex_init)
next
  case (mutex_lock s a sched h seen)
  then show ?case using assms(2) by (intro inv_lock_begin) auto
next
  case (mutex_try s a old seen spurious)
  then show ?case by (intro inv_lock_try)
next
  case (mutex_unlock s a sched)
  then show ?case by (intro inv_holder_step)
qed

section \<open>Properties\<close>

abbreviation on_worker :: "addr \<Rightarrow> bool" where
  "on_worker sched \<equiv> sched \<noteq> nullptr"

lemma worker_reach_inv: "mutex_reach on_worker s \<Longrightarrow> mutex_inv s"
  by (rule mutex_reach_inv)

text \<open>
  Mutual exclusion: in every interleaving of coroutines that lock from worker threads, at most
  one of them holds the mutex, and the state word is 0 exactly when none does.
\<close>

lemma mutex_exclusion:
  assumes "mutex_reach on_worker s"
  shows "(holding (mx_pc s a) \<and> holding (mx_pc s b) \<longrightarrow> a = b)
     \<and> (mx_state s = UNLOCKED \<longleftrightarrow> (\<forall>c. \<not> holding (mx_pc s c)))"
proof -
  obtain xs ys zs where inv: "lock_ok s xs ys zs"
    using mutex_invE [OF worker_reach_inv [OF assms]] by metis
  have "a = b" if "holding (mx_pc s a)" "holding (mx_pc s b)"
    using lock_ok_holder(2) [OF inv that(1)] that(2) by metis
  moreover have "mx_state s = UNLOCKED \<longleftrightarrow> (\<forall>c. \<not> holding (mx_pc s c))"
    using lock_ok_unlocked [of s xs ys zs] inv lock_okE [OF inv] by metis
  ultimately show ?thesis
    by blast
qed

text \<open>A concrete schedule; events that are not possible are skipped.\<close>

datatype mutex_event = Lock addr handle addr | Retry addr | Unlock addr addr

fun mutex_run :: "mutex_event list \<Rightarrow> mutex_sys \<Rightarrow> mutex_sys" where
  "mutex_run [] s = s"
| "mutex_run (Lock a h sched # es) s =
     mutex_run es (if mx_pc s a = MIdle \<and> aligned8 a \<and> a \<noteq> nullptr then lock_begin a h sched (mx_state s) s else s)"
| "mutex_run (Retry a # es) s =
     mutex_run es (case mx_pc s a of MTry old \<Rightarrow> lock_try a old (mx_state s) False s | _ \<Rightarrow> s)"
| "mutex_run (Unlock a sched # es) s = mutex_run es (holder_step a sched s)"

fun locks_from :: "(addr \<Rightarrow> bool) \<Rightarrow> mutex_event \<Rightarrow> bool" where
  "locks_from P (Lock a h sched) \<longleftrightarrow> P sched"
| "locks_from P _ \<longleftrightarrow> True"

lemma mutex_run_reach: "mutex_reach P s \<Longrightarrow> list_all (locks_from P) es \<Longrightarrow> mutex_reach P (mutex_run es s)"
proof (induction es arbitrary: s)
  case (Cons e es)
  show ?case
  proof (cases e)
    case (Retry a)
    have "mutex_reach P (case mx_pc s a of MTry old \<Rightarrow> lock_try a old (mx_state s) False s | _ \<Rightarrow> s)"
      using Cons.prems(1) mutex_reach.mutex_try by (cases "mx_pc s a") auto
    then show ?thesis
      using Cons Retry by simp
  qed (use Cons in \<open>auto intro: mutex_reach.intros\<close>)
qed simp

definition no_awaiters :: "addr \<Rightarrow> mutex_awaiter" where
  "no_awaiters a = \<lparr> ma_coro = 0, ma_sched = 0, ma_next = 0 \<rparr>"

text \<open>Three coroutines lock in the order 8, 16, 24; 8 and then 16 unlock.\<close>

definition example_locks :: "mutex_event list" where
  "example_locks = [Lock 8 80 4096, Retry 8, Lock 16 160 4096, Retry 16, Lock 24 240 8192, Retry 24, Retry 24,
     Unlock 8 4096, Unlock 8 4096, Unlock 8 4096, Unlock 8 4096]"

lemma example_locks_reach: "mutex_reach on_worker (mutex_run example_locks (mutex_init no_awaiters))"
  by (rule mutex_run_reach [OF mutex_start]) (simp add: example_locks_def)

lemma mutex_exclusion_instance:
  "holding (mx_pc (mutex_run example_locks (mutex_init no_awaiters)) 16)
   \<and> \<not> holding (mx_pc (mutex_run example_locks (mutex_init no_awaiters)) 24)"
proof -
  have h: "holding (mx_pc (mutex_run example_locks (mutex_init no_awaiters)) 16)"
    by code_simp
  then show ?thesis
    using mutex_exclusion [OF example_locks_reach, of 16 24] by auto
qed

text \<open>
  C24: the mutex is handed over first-in first-out: the waiters woken so far are a prefix of the
  waiters in the order they were queued, each once and with the coroutine and scheduler it queued
  with, and the rest of that order is exactly the waiters that still wait.
\<close>

theorem mutex_fifo:
  assumes "mutex_reach on_worker s"
  shows "\<exists>rest. mx_queued s = mx_granted s @ rest \<and> distinct (map fst rest)
     \<and> (\<forall>a. mx_pc s a = MWaiting \<longleftrightarrow> a \<in> set (map fst rest))"
proof -
  obtain xs ys zs where inv: "chains_ok s xs ys zs" "agents_ok s xs ys zs"
    by (rule mutex_invE [OF worker_reach_inv [OF assms]])
  have "map fst (map (entry aw) ws) = ws" for aw ws
    by (simp add: entry_def o_def)
  then show ?thesis
    using inv agents_okD(1) [OF inv(2)]
    by (intro exI [of _ "map (entry (mx_awaiters s)) (ys @ rev zs @ rev xs)"])
      (simp only: chains_ok_def, blast)
qed

theorem mutex_fifo_witness:
  "map fst (mx_granted (mutex_run example_locks (mutex_init no_awaiters))) = [16]
   \<and> (\<exists>rest. map fst (mx_queued (mutex_run example_locks (mutex_init no_awaiters))) = [16] @ rest \<and> 24 \<in> set rest)"
proof -
  let ?s = "mutex_run example_locks (mutex_init no_awaiters)"
  have g: "map fst (mx_granted ?s) = [16]" and w: "mx_pc ?s 24 = MWaiting"
    by code_simp+
  obtain rest where "mx_queued ?s = mx_granted ?s @ rest" "\<forall>a. mx_pc ?s a = MWaiting \<longleftrightarrow> a \<in> set (map fst rest)"
    using mutex_fifo [OF example_locks_reach] by blast
  then have "map fst (mx_queued ?s) = [16] @ map fst rest" and "24 \<in> set (map fst rest)"
    using g w by simp_all
  then show ?thesis
    using g by blast
qed

text \<open>The holder's distance to the end of \<open>unlock\<close>, in its own steps.\<close>

fun unlock_rank :: "mutex_pc \<Rightarrow> nat" where
  "unlock_rank MHolds = 6"
| "unlock_rank MXchg = 5"
| "unlock_rank MCas = 4"
| "unlock_rank MXchg2 = 3"
| "unlock_rank (MRev _) = 2"
| "unlock_rank MPop = 1"
| "unlock_rank _ = 0"

lemma no_waiters_when_free:
  assumes "mutex_inv s" and "mx_pc s a = MCas" and "mx_state s = LOCKED_NO_WAITERS"
  shows "mx_pc s w \<noteq> MWaiting"
proof -
  have h: "holding (mx_pc s a)"
    using assms(2) by simp
  obtain xs ys zs where v: "chains_ok s xs ys zs" "agents_ok s xs ys zs" "mx_state s \<noteq> UNLOCKED"
    "\<forall>b. holding (mx_pc s b) \<longrightarrow> b = a" "holder_ok (mx_awaiters s) xs ys zs (mx_pc s a)"
    by (rule holder_view [OF assms(1) h])
  have "xs = []" "ys = []" "zs = []"
    using v(1,5) assms(2,3) by (simp_all add: chains_ok_def)
  then show ?thesis
    using agents_okD(1) [OF v(2), of w] by simp
qed

text \<open>
  C23: as long as all coroutines lock on workers, no waiter is forgotten and \<open>unlock\<close> is wait-free: while somebody waits, somebody holds the
  mutex; every step of the holder brings it closer to the end of \<open>unlock\<close>, which it reaches in at
  most six of its own steps whatever the others do; and when \<open>unlock\<close> ends, the mutex has been
  handed to a waiter if there was one, and is free otherwise.
\<close>

theorem mutex_no_lost_waiter:
  assumes "mutex_reach on_worker s" and "holding (mx_pc s a) \<or> mx_pc s b = MWaiting"
  shows "(\<exists>c. holding (mx_pc s c))
     \<and> (holding (mx_pc s a) \<longrightarrow>
          unlock_rank (mx_pc (holder_step a sched s) a) < unlock_rank (mx_pc s a)
        \<and> (mx_pc (holder_step a sched s) a = MIdle \<longrightarrow>
            (if \<exists>w. mx_pc s w = MWaiting
             then \<exists>w. mx_pc s w = MWaiting \<and> mx_pc (holder_step a sched s) w = MHolds
               \<and> mx_granted (holder_step a sched s) = mx_granted s @ [entry (mx_awaiters s) w]
             else mx_state (holder_step a sched s) = UNLOCKED)))"
proof -
  note inv = worker_reach_inv [OF assms(1)]
  obtain xs ys zs where i: "chains_ok s xs ys zs" "agents_ok s xs ys zs" "lock_ok s xs ys zs"
    by (rule mutex_invE [OF inv])
  have one: "\<exists>c. holding (mx_pc s c)"
  proof (rule ccontr)
    assume none: "\<not> (\<exists>c. holding (mx_pc s c))"
    then have "mx_state s = UNLOCKED"
      using lock_okE [OF i(3)] by metis
    then have "xs = []" "ys = []" "zs = []"
      using i(1,3) by (simp_all add: lock_ok_unlocked chains_ok_def)
    then have "mx_pc s b \<noteq> MWaiting"
      using agents_okD(1) [OF i(2), of b] by simp
    then show False
      using none assms(2) by blast
  qed
  have step: "unlock_rank (mx_pc (holder_step a sched s) a) < unlock_rank (mx_pc s a)
        \<and> (mx_pc (holder_step a sched s) a = MIdle \<longrightarrow>
            (if \<exists>w. mx_pc s w = MWaiting
             then \<exists>w. mx_pc s w = MWaiting \<and> mx_pc (holder_step a sched s) w = MHolds
               \<and> mx_granted (holder_step a sched s) = mx_granted s @ [entry (mx_awaiters s) w]
             else mx_state (holder_step a sched s) = UNLOCKED))" if h: "holding (mx_pc s a)"
  proof (cases "mx_pc s a")
    case MCas
    then show ?thesis
      using no_waiters_when_free [OF inv MCas] by (simp add: holder_step_def unlock_cas_def)
  next
    case (MRev old)
    then show ?thesis
      using inv_unlock_rev(2) [OF inv MRev] by (simp add: holder_step_def)
  next
    case MPop
    then have hs: "holder_step a sched s = unlock_pop a sched s"
      by (simp add: holder_step_def)
    obtain w where w: "w \<noteq> a" "mx_pc s w = MWaiting"
      "mx_pc (unlock_pop a sched s) = (mx_pc s)(a := MIdle, w := MHolds)"
      "mx_granted (unlock_pop a sched s) = mx_granted s @ [entry (mx_awaiters s) w]"
      using unlock_pop_hands_over(2) [OF inv MPop, of sched] by blast
    have "unlock_rank (mx_pc (unlock_pop a sched s) a) < unlock_rank (mx_pc s a)"
      using w(1,3) MPop by simp
    then show ?thesis
      unfolding hs using w(2,3,4) by (auto intro!: exI [of _ w])
  qed (use h in \<open>simp_all add: holder_step_def unlock_begin_def unlock_xchg_def unlock_xchg2_def\<close>)
  show ?thesis
    using one step by blast
qed

theorem mutex_no_lost_waiter_witness:
  "\<exists>c. holding (mx_pc (mutex_run example_locks (mutex_init no_awaiters)) c)"
proof -
  have "mx_pc (mutex_run example_locks (mutex_init no_awaiters)) 24 = MWaiting"
    by code_simp
  then show ?thesis
    using mutex_no_lost_waiter [OF example_locks_reach, of 24 24] by blast
qed

lemma wakeups_step:
  assumes "list_all2 wakes (mx_granted s) (mx_wakeups s)"
    and "\<And>a sch co. wakes (a, sch, co) (WakeLocal co)" and "\<And>a sch co. wakes (a, sch, co) (WakeRemote sch (co OR TAG_CORO))"
  shows "list_all2 wakes (mx_granted (holder_step a sched s)) (mx_wakeups (holder_step a sched s))"
  using assms
  by (auto simp: holder_step_def unlock_begin_def unlock_xchg_def unlock_cas_def unlock_xchg2_def unlock_rev_def
      unlock_pop_def Let_def split: mutex_pc.split option.split intro!: list_all2_appendI)

text \<open>
  Every hand-over wakes the coroutine of the waiter it grants, and no other: directly on the
  current scheduler, or by a message to the waiter's own scheduler which that scheduler's engine
  decodes as the request to schedule this coroutine.
\<close>

lemma mutex_wakes_granted:
  assumes "mutex_reach on_worker s"
  shows "list_all2 (\<lambda>(a, sch, co) w. w = WakeLocal co \<or> w = WakeRemote sch (co OR TAG_CORO))
           (mx_granted s) (mx_wakeups s)
     \<and> (aligned8 co \<and> co \<noteq> nullptr \<longrightarrow>
          poll_dispatch \<lparr> cqe_user_data = co OR TAG_CORO, cqe_res = res, cqe_flags = fl \<rparr> = ScheduleCoro co)"
proof (intro conjI impI)
  show "list_all2 (\<lambda>(a, sch, co) w. w = WakeLocal co \<or> w = WakeRemote sch (co OR TAG_CORO))
           (mx_granted s) (mx_wakeups s)"
    using assms
  proof (induction rule: mutex_reach.induct)
    case (mutex_try s a old seen spurious)
    then show ?case by (simp add: lock_try_def Let_def)
  next
    case (mutex_unlock s a sched)
    then show ?case by (intro wakeups_step) auto
  qed (simp_all add: mutex_init_def lock_begin_def)
qed (rule dispatch_tagged(3); simp)

lemma mutex_wakes_granted_instance:
  "length (mx_wakeups (mutex_run example_locks (mutex_init no_awaiters))) = 1"
proof -
  have "length (mx_granted (mutex_run example_locks (mutex_init no_awaiters))) = 1"
    by code_simp
  then show ?thesis
    using list_all2_lengthD [OF conjunct1 [OF mutex_wakes_granted [OF example_locks_reach]]] by simp
qed


lemmas mutex_eval = mutex_init_def lock_begin_def lock_try_def holder_step_def unlock_begin_def
  unlock_xchg_def unlock_cas_def unlock_xchg2_def unlock_rev_def unlock_pop_def Let_def
  UNLOCKED_def LOCKED_NO_WAITERS_def no_awaiters_def aligned8_def TAG_MASK_def

text \<open>
  C38: a waiter that locked on a thread without a scheduler is lost: the unlock that reaches it takes
  it off the list without waking it, nobody holds the mutex afterwards and it never becomes free.
\<close>

theorem mutex_drops_foreign_waiter:
  "\<exists>s. mutex_reach (\<lambda>_. True) s \<and> mx_pc s 16 = MWaiting \<and> mx_state s = LOCKED_NO_WAITERS
     \<and> mx_waiters_head s = nullptr \<and> (\<forall>c. \<not> holding (mx_pc s c)) \<and> mx_wakeups s = []"
proof -
  let ?es = "[Lock 8 80 4096, Retry 8, Lock 16 160 0, Retry 16,
     Unlock 8 4096, Unlock 8 4096, Unlock 8 4096, Unlock 8 4096]"
  let ?s = "mutex_run ?es (mutex_init no_awaiters)"
  have reach: "mutex_reach (\<lambda>_. True) ?s"
    by (rule mutex_run_reach [OF mutex_start]) simp
  have pc: "mx_pc ?s c = (if c = 16 then MWaiting else MIdle)" for c
    by (simp add: mutex_eval reverse_waiters.simps)
  have "mx_state ?s = LOCKED_NO_WAITERS \<and> mx_waiters_head ?s = nullptr \<and> mx_wakeups ?s = []"
    by code_simp
  then show ?thesis
    using reach pc by (intro exI [of _ ?s]) simp
qed

end
