(* ===== verification/Mutex_Weak.thy ===== *)
theory Mutex_Weak
  imports Co_Mutex_Props Release_Acquire
begin

text \<open>
  \<open>CoMutex\<close> on a memory with release and acquire. The state word is atomic; plain memory are the awaiters, the
  list \<open>waiters_head_\<close> and whatever the coroutines guard with the mutex. The steps are those of \<open>Co_Mutex\<close>;
  beside them runs what each coroutine has seen of the others. The memory orders are a parameter.
\<close>

section \<open>Views of the coroutines\<close>

datatype mutex_loc = MxState | MxHead | MxData | MxAwaiter addr

record mutex_orders =
  mo_load :: bool      \<comment> \<open>the first load of \<open>await_suspend\<close> is acquire\<close>
  mo_lock :: bool      \<comment> \<open>the compare-exchange that locks is acquire\<close>
  mo_queue :: bool     \<comment> \<open>the compare-exchange that queues is release\<close>
  mo_xchg :: bool      \<comment> \<open>the exchanges of \<open>unlock\<close> are acquire\<close>
  mo_unlock :: bool    \<comment> \<open>the compare-exchange that unlocks is release\<close>

definition mutex_code_orders :: mutex_orders where
  "mutex_code_orders = \<lparr> mo_load = True, mo_lock = True, mo_queue = True, mo_xchg = True, mo_unlock = True \<rparr>"

record mutex_views =
  mv_mem :: "(mutex_loc, u64) weak_mem"
  mv_view :: "addr \<Rightarrow> mutex_loc view"
  mv_race :: bool

type_synonym weak_mutex = "mutex_sys \<times> mutex_views"

definition mutex_views_init :: mutex_views where
  "mutex_views_init = \<lparr> mv_mem = \<lparr> wm_stores = (\<lambda>_. [(UNLOCKED, \<lambda>_. 0)]), wm_writes = (\<lambda>_. 0) \<rparr>,
     mv_view = (\<lambda>_ _. 0), mv_race = False \<rparr>"

text \<open>A plain access of \<open>a\<close>: reading counts like writing, so that no two accesses may be unordered.\<close>

definition touch :: "mutex_loc \<Rightarrow> addr \<Rightarrow> mutex_views \<Rightarrow> mutex_views" where
  "touch l a w =
     (let m = mv_mem w; V = mv_view w a; (m1, V1) = plain_access l m V
      in w\<lparr> mv_mem := m1, mv_view := (mv_view w)(a := V1), mv_race := (mv_race w \<or> races l m V) \<rparr>)"

definition state_load :: "bool \<Rightarrow> addr \<Rightarrow> nat \<Rightarrow> mutex_views \<Rightarrow> u64 \<times> mutex_views" where
  "state_load acquire a n w =
     (let (seen, V1) = weak_load acquire MxState n (mv_mem w) (mv_view w a)
      in (seen, w\<lparr> mv_view := (mv_view w)(a := V1) \<rparr>))"

definition state_rmw :: "bool \<Rightarrow> bool \<Rightarrow> u64 \<Rightarrow> addr \<Rightarrow> mutex_views \<Rightarrow> mutex_views" where
  "state_rmw acquire release v a w =
     (let (old, m1, V1) = weak_rmw acquire release MxState (\<lambda>_. v) (mv_mem w) (mv_view w a)
      in w\<lparr> mv_mem := m1, mv_view := (mv_view w)(a := V1) \<rparr>)"

section \<open>Steps\<close>

text \<open>\<open>n\<close> is the store a load proposes to read; a compare-exchange that succeeds reads the newest one.\<close>

definition weak_lock_begin :: "mutex_orders \<Rightarrow> addr \<Rightarrow> handle \<Rightarrow> addr \<Rightarrow> nat \<Rightarrow> weak_mutex \<Rightarrow> weak_mutex" where
  "weak_lock_begin ord a h sched n =
     (\<lambda>(s, w). let (seen, w1) = state_load (mo_load ord) a n (touch (MxAwaiter a) a w) in (lock_begin a h sched seen s, w1))"

definition weak_lock_try :: "mutex_orders \<Rightarrow> addr \<Rightarrow> u64 \<Rightarrow> nat \<Rightarrow> bool \<Rightarrow> weak_mutex \<Rightarrow> weak_mutex" where
  "weak_lock_try ord a old n spurious =
     (\<lambda>(s, w). let w1 = (if old = UNLOCKED then w else touch (MxAwaiter a) a w); (seen, w2) = state_load False a n w1
       in (lock_try a old seen spurious s,
           if mx_state s = old \<and> \<not> spurious
           then (if old = UNLOCKED then state_rmw (mo_lock ord) False LOCKED_NO_WAITERS a w1
                 else state_rmw False (mo_queue ord) a a w1)
           else w2))"

text \<open>The awaiters the reversal of a chain goes through.\<close>

partial_function (option) chain_nodes :: "(addr \<Rightarrow> mutex_awaiter) \<Rightarrow> addr \<Rightarrow> addr list \<Rightarrow> addr list option" where
  "chain_nodes aw c acc = (if c \<noteq> nullptr then chain_nodes aw (ma_next (aw c)) (acc @ [c]) else Some acc)"

declare chain_nodes.simps [code]

text \<open>The hand-over itself orders: \<open>schedule\<close> stays on the thread, and the ring message goes through the kernel.\<close>

definition views_unlock :: "mutex_orders \<Rightarrow> addr \<Rightarrow> mutex_sys \<Rightarrow> mutex_views \<Rightarrow> mutex_views" where
  "views_unlock ord a s w =
     (case mx_pc s a of
        MHolds \<Rightarrow> touch MxHead a w
      | MXchg \<Rightarrow> state_rmw (mo_xchg ord) False LOCKED_NO_WAITERS a w
      | MCas \<Rightarrow>
          (if mx_state s = LOCKED_NO_WAITERS then state_rmw False (mo_unlock ord) UNLOCKED a w
           else snd (state_load False a (newest (mv_mem w) MxState) w))
      | MXchg2 \<Rightarrow> state_rmw (mo_xchg ord) False LOCKED_NO_WAITERS a w
      | MRev old \<Rightarrow>
          (case chain_nodes (mx_awaiters s) old [] of
             None \<Rightarrow> w
           | Some zs \<Rightarrow> touch MxHead a (fold (\<lambda>z. touch (MxAwaiter z) a) zs w))
      | MPop \<Rightarrow>
          (let w1 = touch MxHead a w; y = mx_waiters_head s in
           if y = nullptr then w1
           else (let w2 = touch (MxAwaiter y) a w1 in
                 if ma_sched (mx_awaiters s y) \<noteq> nullptr
                 then w2\<lparr> mv_view := (mv_view w2)(y := sup (mv_view w2 y) (mv_view w2 a)) \<rparr> else w2))
      | _ \<Rightarrow> w)"

definition weak_holder_step :: "mutex_orders \<Rightarrow> addr \<Rightarrow> addr \<Rightarrow> weak_mutex \<Rightarrow> weak_mutex" where
  "weak_holder_step ord a sched = (\<lambda>(s, w). (holder_step a sched s, views_unlock ord a s w))"

text \<open>The holder works on what the mutex guards.\<close>

definition guarded_access :: "addr \<Rightarrow> weak_mutex \<Rightarrow> weak_mutex" where
  "guarded_access a = (\<lambda>(s, w). (s, if mx_pc s a = MHolds then touch MxData a w else w))"

text \<open>What a coroutine sees of another one by other means.\<close>

definition see_of :: "addr \<Rightarrow> addr \<Rightarrow> weak_mutex \<Rightarrow> weak_mutex" where
  "see_of a b = (\<lambda>(s, w). (s, w\<lparr> mv_view := (mv_view w)(a := sup (mv_view w a) (mv_view w b)) \<rparr>))"

inductive mutex_weak_reach :: "mutex_orders \<Rightarrow> (addr \<Rightarrow> bool) \<Rightarrow> weak_mutex \<Rightarrow> bool"
  for ord :: mutex_orders and P :: "addr \<Rightarrow> bool" where
  mw_start: "mutex_weak_reach ord P (mutex_init aw, mutex_views_init)"
| mw_lock: "mutex_weak_reach ord P z \<Longrightarrow> mx_pc (fst z) a = MIdle \<Longrightarrow> aligned8 a \<Longrightarrow> a \<noteq> nullptr \<Longrightarrow> P sched \<Longrightarrow>
     mutex_weak_reach ord P (weak_lock_begin ord a h sched n z)"
| mw_try: "mutex_weak_reach ord P z \<Longrightarrow> mx_pc (fst z) a = MTry old \<Longrightarrow>
     mutex_weak_reach ord P (weak_lock_try ord a old n spurious z)"
| mw_unlock: "mutex_weak_reach ord P z \<Longrightarrow> mutex_weak_reach ord P (weak_holder_step ord a sched z)"
| mw_access: "mutex_weak_reach ord P z \<Longrightarrow> mutex_weak_reach ord P (guarded_access a z)"
| mw_see: "mutex_weak_reach ord P z \<Longrightarrow> mutex_weak_reach ord P (see_of a b z)"

lemma mutex_weak_projects: "mutex_weak_reach ord P z \<Longrightarrow> mutex_reach P (fst z)"
proof (induction rule: mutex_weak_reach.induct)
  case (mw_lock z a sched h n)
  then show ?case
    by (cases z) (auto simp: weak_lock_begin_def split_beta intro: mutex_lock)
next
  case (mw_try z a old n spurious)
  then show ?case
    by (cases z) (auto simp: weak_lock_try_def split_beta Let_def intro: mutex_try)
next
  case (mw_unlock z a sched)
  then show ?case
    by (cases z) (auto simp: weak_holder_step_def intro: mutex_unlock)
qed (auto simp: guarded_access_def see_of_def split_beta intro: mutex_start)

section \<open>The invariant\<close>

definition knows :: "mutex_views \<Rightarrow> mutex_loc view \<Rightarrow> mutex_loc \<Rightarrow> bool" where
  "knows w V l \<longleftrightarrow> V l = wm_writes (mv_mem w) l"

definition in_bounds :: "mutex_views \<Rightarrow> mutex_loc view \<Rightarrow> bool" where
  "in_bounds w V \<longleftrightarrow> V MxState \<le> newest (mv_mem w) MxState \<and> (\<forall>l. l \<noteq> MxState \<longrightarrow> V l \<le> wm_writes (mv_mem w) l)"

definition handed_on :: "mutex_views \<Rightarrow> mutex_loc view" where
  "handed_on w = store_view (mv_mem w) MxState (newest (mv_mem w) MxState)"

text \<open>What one has to know to work with the lock: the list with its awaiters, and the guarded data.\<close>

definition knows_lock :: "mutex_sys \<Rightarrow> mutex_views \<Rightarrow> mutex_loc view \<Rightarrow> bool" where
  "knows_lock s w V \<longleftrightarrow> knows w V MxHead \<and> knows w V MxData
     \<and> (\<forall>ys. wpath (mx_awaiters s) (mx_waiters_head s) ys \<longrightarrow> (\<forall>y \<in> set ys. knows w V (MxAwaiter y)))"

definition views_ok :: "mutex_sys \<Rightarrow> mutex_views \<Rightarrow> bool" where
  "views_ok s w \<longleftrightarrow> \<not> mv_race w \<and> wm_stores (mv_mem w) MxState \<noteq> []
     \<and> store_value (mv_mem w) MxState (newest (mv_mem w) MxState) = mx_state s
     \<and> (\<forall>n \<le> newest (mv_mem w) MxState. in_bounds w (store_view (mv_mem w) MxState n)) \<and> (\<forall>a. in_bounds w (mv_view w a))
     \<and> (\<forall>a. mx_pc s a \<noteq> MWaiting \<longrightarrow> knows w (mv_view w a) (MxAwaiter a))
     \<and> (mx_state s = UNLOCKED \<longrightarrow> knows_lock s w (handed_on w))
     \<and> (\<forall>a. holding (mx_pc s a) \<longrightarrow> knows_lock s w (mv_view w a))
     \<and> (\<forall>xs. wpath (mx_awaiters s) (chain_of (mx_state s)) xs \<longrightarrow> (\<forall>x \<in> set xs. knows w (handed_on w) (MxAwaiter x)))
     \<and> (\<forall>a old zs. mx_pc s a = MRev old \<and> wpath (mx_awaiters s) old zs \<longrightarrow> (\<forall>z \<in> set zs. knows w (mv_view w a) (MxAwaiter z)))"

lemma views_okD:
  assumes "views_ok s w"
  shows "\<not> mv_race w" and "wm_stores (mv_mem w) MxState \<noteq> []"
    and "store_value (mv_mem w) MxState (newest (mv_mem w) MxState) = mx_state s"
    and "n \<le> newest (mv_mem w) MxState \<Longrightarrow> in_bounds w (store_view (mv_mem w) MxState n)" and "in_bounds w (mv_view w a)"
    and "mx_pc s a \<noteq> MWaiting \<Longrightarrow> knows w (mv_view w a) (MxAwaiter a)"
    and "mx_state s = UNLOCKED \<Longrightarrow> knows_lock s w (handed_on w)"
    and "holding (mx_pc s a) \<Longrightarrow> knows_lock s w (mv_view w a)"
    and "wpath (mx_awaiters s) (chain_of (mx_state s)) xs \<Longrightarrow> x \<in> set xs \<Longrightarrow> knows w (handed_on w) (MxAwaiter x)"
    and "mx_pc s a = MRev old \<Longrightarrow> wpath (mx_awaiters s) old zs \<Longrightarrow> z \<in> set zs \<Longrightarrow> knows w (mv_view w a) (MxAwaiter z)"
  using assms unfolding views_ok_def by blast+

lemma views_okI:
  assumes "\<not> mv_race w" and "wm_stores (mv_mem w) MxState \<noteq> []"
    and "store_value (mv_mem w) MxState (newest (mv_mem w) MxState) = mx_state s"
    and "\<And>n. n \<le> newest (mv_mem w) MxState \<Longrightarrow> in_bounds w (store_view (mv_mem w) MxState n)" and "\<And>a. in_bounds w (mv_view w a)"
    and "\<And>a. mx_pc s a \<noteq> MWaiting \<Longrightarrow> knows w (mv_view w a) (MxAwaiter a)"
    and "mx_state s = UNLOCKED \<Longrightarrow> knows_lock s w (handed_on w)"
    and "\<And>a. holding (mx_pc s a) \<Longrightarrow> knows_lock s w (mv_view w a)"
    and "\<And>xs x. wpath (mx_awaiters s) (chain_of (mx_state s)) xs \<Longrightarrow> x \<in> set xs \<Longrightarrow> knows w (handed_on w) (MxAwaiter x)"
    and "\<And>a old zs z. mx_pc s a = MRev old \<Longrightarrow> wpath (mx_awaiters s) old zs \<Longrightarrow> z \<in> set zs \<Longrightarrow> knows w (mv_view w a) (MxAwaiter z)"
  shows "views_ok s w"
  using assms unfolding views_ok_def by blast

lemma knows_lockD:
  assumes "knows_lock s w V"
  shows "knows w V MxHead" and "knows w V MxData"
    and "wpath (mx_awaiters s) (mx_waiters_head s) ys \<Longrightarrow> y \<in> set ys \<Longrightarrow> knows w V (MxAwaiter y)"
  using assms unfolding knows_lock_def by blast+

lemma wpath_unique: "wpath aw c xs \<Longrightarrow> wpath aw c ys \<Longrightarrow> xs = ys"
proof (induction xs arbitrary: c ys)
  case (Cons x xs)
  then show ?case
    by (cases ys) auto
qed (auto)

lemma chain_nodes_wpath: "wpath aw c xs \<Longrightarrow> chain_nodes aw c acc = Some (acc @ xs)"
proof (induction xs arbitrary: c acc)
  case (Cons x xs)
  then show ?case
    using chain_nodes.simps [of aw c acc] by simp
qed (simp add: chain_nodes.simps)

lemma views_ok_init: "views_ok (mutex_init aw) mutex_views_init"
  by (rule views_okI) (simp_all add: mutex_init_def mutex_views_init_def newest_def in_bounds_def knows_def
      knows_lock_def handed_on_def)

section \<open>Accesses\<close>

lemma touch_sel [simp]:
  "mv_view (touch l a w) = (mv_view w)(a := (mv_view w a)(l := Suc (wm_writes (mv_mem w) l)))"
  "wm_stores (mv_mem (touch l a w)) = wm_stores (mv_mem w)" "newest (mv_mem (touch l a w)) = newest (mv_mem w)"
  "wm_writes (mv_mem (touch l a w)) = (wm_writes (mv_mem w))(l := Suc (wm_writes (mv_mem w) l))"
  "handed_on (touch l a w) = handed_on w"
  "mv_race (touch l a w) \<longleftrightarrow> mv_race w \<or> \<not> knows w (mv_view w a) l"
  by (auto simp: touch_def split_beta Let_def handed_on_def races_def knows_def)

lemma knows_touch [simp]:
  "knows (touch l a w) V l' \<longleftrightarrow> (if l' = l then V l = Suc (wm_writes (mv_mem w) l) else knows w V l')"
  by (auto simp: knows_def)

lemma in_bounds_touch: "in_bounds w V \<Longrightarrow> in_bounds (touch l a w) V"
  by (simp add: in_bounds_def le_SucI)

lemma in_bounds_touched: "in_bounds w V \<Longrightarrow> l \<noteq> MxState \<Longrightarrow> in_bounds (touch l a w) (V(l := Suc (wm_writes (mv_mem w) l)))"
  by (simp add: in_bounds_def)

lemma view_upd [simp]:
  "knows (w\<lparr> mv_view := f \<rparr>) = knows w" "in_bounds (w\<lparr> mv_view := f \<rparr>) = in_bounds w"
  "handed_on (w\<lparr> mv_view := f \<rparr>) = handed_on w" "knows_lock s (w\<lparr> mv_view := f \<rparr>) = knows_lock s w"
  by (simp_all add: knows_def in_bounds_def handed_on_def knows_lock_def fun_eq_iff)

lemma knows_grow:
  "knows w V l \<Longrightarrow> l \<noteq> MxState \<Longrightarrow> V l \<le> U l \<Longrightarrow> in_bounds w U \<Longrightarrow> knows w U l"
  by (auto simp: knows_def in_bounds_def intro: le_antisym)

lemma knows_lock_grow:
  assumes "knows_lock s w V" and "\<And>l. l \<noteq> MxState \<Longrightarrow> V l \<le> U l" and "in_bounds w U"
  shows "knows_lock s w U"
proof -
  have "knows w U l" if "knows w V l" "l \<noteq> MxState" for l
    using that by (intro knows_grow [of w V l U] assms)
  then show ?thesis
    using assms(1) unfolding knows_lock_def by blast
qed

lemma in_bounds_sup: "in_bounds w V \<Longrightarrow> in_bounds w U \<Longrightarrow> in_bounds w (sup V U)"
  by (simp add: in_bounds_def)

text \<open>A coroutine may learn more at any time.\<close>

lemma views_ok_grow:
  assumes V: "views_ok s w" and U: "\<And>l. l \<noteq> MxState \<Longrightarrow> mv_view w a l \<le> U l" "in_bounds w U"
  shows "views_ok s (w\<lparr> mv_view := (mv_view w)(a := U) \<rparr>)"
proof -
  note D = views_okD [OF V]
  have k: "knows w (((mv_view w)(a := U)) b) l" if "knows w (mv_view w b) l" "l \<noteq> MxState" for b l
    using that knows_grow [of w "mv_view w a" l U] U by (cases "b = a") simp_all
  have kl: "knows_lock s w (((mv_view w)(a := U)) b)" if "knows_lock s w (mv_view w b)" for b
    using that knows_lock_grow [of s w "mv_view w a" U] U by (cases "b = a") simp_all
  show ?thesis
  proof (rule views_okI)
    show "in_bounds (w\<lparr> mv_view := (mv_view w)(a := U) \<rparr>) (mv_view (w\<lparr> mv_view := (mv_view w)(a := U) \<rparr>) b)" for b
      using D(5) [of b] U(2) by simp
    show "knows (w\<lparr> mv_view := (mv_view w)(a := U) \<rparr>) (mv_view (w\<lparr> mv_view := (mv_view w)(a := U) \<rparr>) b) (MxAwaiter b)"
      if "mx_pc s b \<noteq> MWaiting" for b
      using k [OF D(6) [OF that]] by simp
    show "knows_lock s (w\<lparr> mv_view := (mv_view w)(a := U) \<rparr>) (mv_view (w\<lparr> mv_view := (mv_view w)(a := U) \<rparr>) b)"
      if "holding (mx_pc s b)" for b
      using kl [OF D(8) [OF that]] by simp
    show "knows (w\<lparr> mv_view := (mv_view w)(a := U) \<rparr>) (mv_view (w\<lparr> mv_view := (mv_view w)(a := U) \<rparr>) b) (MxAwaiter z)"
      if "mx_pc s b = MRev old" "wpath (mx_awaiters s) old zs" "z \<in> set zs" for b old zs z
      using k [OF D(10) [OF that]] by simp
  qed (use D(1-4,7,9) in simp_all)
qed

lemma views_ok_load:
  assumes V: "views_ok s w"
  shows "views_ok s (snd (state_load acquire a n w))"
proof -
  note D = views_okD [OF V]
  let ?i = "read_at (mv_mem w) MxState n (mv_view w a)" and ?U = "snd (weak_load acquire MxState n (mv_mem w) (mv_view w a))"
  have i: "?i \<le> newest (mv_mem w) MxState"
    using read_at_bounds(2) [of "mv_view w a" MxState "mv_mem w" n] D(5) [of a] by (simp add: in_bounds_def)
  have "in_bounds w ((mv_view w a)(MxState := ?i))"
    using D(5) [of a] i by (simp add: in_bounds_def)
  then have "in_bounds w ?U"
    using in_bounds_sup [OF _ D(4) [OF i]] by (simp add: weak_load_def Let_def)
  moreover have "mv_view w a l \<le> ?U l" if "l \<noteq> MxState" for l
    using that by (simp add: weak_load_def Let_def)
  ultimately show ?thesis
    using views_ok_grow [OF V] by (simp add: state_load_def split_beta)
qed

lemma views_ok_see: "views_ok s w \<Longrightarrow> views_ok s (snd (see_of a b (s, w)))"
  using views_ok_grow [of s w a] in_bounds_sup views_okD(5) by (simp add: see_of_def)

section \<open>The chains of waiters\<close>

text \<open>What the invariant of the interleavings says of whom one finds in the chains.\<close>

lemma chains_wait:
  assumes "mutex_inv s"
  obtains xs ys where "wpath (mx_awaiters s) (chain_of (mx_state s)) xs" and "wpath (mx_awaiters s) (mx_waiters_head s) ys"
    and "distinct (ys @ xs)" and "\<And>x. x \<in> set (ys @ xs) \<Longrightarrow> mx_pc s x = MWaiting"
    and "\<And>a old. mx_pc s a = MRev old \<Longrightarrow> \<exists>zs. wpath (mx_awaiters s) old zs \<and> distinct (zs @ xs)
      \<and> (\<forall>z \<in> set zs. mx_pc s z = MWaiting) \<and> ys = [] \<and> zs \<noteq> []"
proof -
  obtain xs ys zs where inv: "chains_ok s xs ys zs" "agents_ok s xs ys zs" "lock_ok s xs ys zs"
    by (rule mutex_invE [OF assms])
  have rev: "\<exists>zs. wpath (mx_awaiters s) old zs \<and> distinct (zs @ xs) \<and> (\<forall>z \<in> set zs. mx_pc s z = MWaiting) \<and> ys = [] \<and> zs \<noteq> []"
    if "mx_pc s a = MRev old" for a old
    using lock_ok_holder(3) [OF inv(3), of a] that inv(1) agents_okD(1) [OF inv(2)]
    by (intro exI [of _ zs]) (auto simp: chains_ok_def)
  show thesis
    using inv(1) agents_okD(1) [OF inv(2)] rev by (intro that [of xs ys]) (auto simp: chains_ok_def)
qed

lemma one_holder:
  assumes "mutex_inv s" and "holding (mx_pc s a)"
  shows "mx_state s \<noteq> UNLOCKED" and "holding (mx_pc s b) \<Longrightarrow> b = a"
  using lock_ok_holder [OF _ assms(2)] mutex_invE [OF assms(1)] by metis+

lemma wpath_outside: "wpath aw c xs \<Longrightarrow> a \<notin> set xs \<Longrightarrow> wpath (aw(a := u)) c ys \<Longrightarrow> ys = xs"
  using wpath_unique [of "aw(a := u)" c ys xs] wpath_upd [of a xs aw u c] by simp

section \<open>Every step keeps it\<close>

text \<open>A coroutine that neither waits nor holds works on its own awaiter.\<close>

lemma views_ok_outside:
  assumes M: "mutex_inv s" and V: "views_ok s w"
    and a: "\<not> holding (mx_pc s a)" "mx_pc s a \<noteq> MWaiting" and pc: "\<not> holding pc" "pc \<noteq> MWaiting"
  shows "views_ok (set_pc a pc (s\<lparr> mx_awaiters := (mx_awaiters s)(a := u) \<rparr>)) (touch (MxAwaiter a) a w)"
proof -
  note D = views_okD [OF V]
  obtain xs ys where C: "wpath (mx_awaiters s) (chain_of (mx_state s)) xs" "wpath (mx_awaiters s) (mx_waiters_head s) ys"
    "\<And>x. x \<in> set (ys @ xs) \<Longrightarrow> mx_pc s x = MWaiting"
    "\<And>b old. mx_pc s b = MRev old \<Longrightarrow> \<exists>zs. wpath (mx_awaiters s) old zs \<and> (\<forall>z \<in> set zs. mx_pc s z = MWaiting)"
    by (rule chains_wait [OF M]) metis
  have out: "a \<notin> set ys" "a \<notin> set xs"
    using C(3) a(2) by auto
  let ?s = "set_pc a pc (s\<lparr> mx_awaiters := (mx_awaiters s)(a := u) \<rparr>)" and ?w = "touch (MxAwaiter a) a w"
  have kl: "knows_lock ?s ?w U'" if "knows_lock s w U" "\<And>l. l \<noteq> MxAwaiter a \<Longrightarrow> U' l = U l" for U U'
    using that(1) knows_lockD(3) [OF that(1) C(2)] wpath_outside [OF C(2) out(1)] out(1) that(2)
    by (auto simp: knows_lock_def knows_def)
  show ?thesis
  proof (rule views_okI)
    show "\<not> mv_race ?w"
      using D(1) D(6) [OF a(2)] by simp
    show "in_bounds ?w (store_view (mv_mem ?w) MxState n)" if "n \<le> newest (mv_mem ?w) MxState" for n
      using that D(4) [of n] by (simp add: in_bounds_touch)
    show "in_bounds ?w (mv_view ?w b)" for b
      using D(5) [of b] by (cases "b = a") (simp_all add: in_bounds_touch in_bounds_touched)
    show "knows ?w (mv_view ?w b) (MxAwaiter b)" if "mx_pc ?s b \<noteq> MWaiting" for b
      using that D(6) [of b] by (cases "b = a") simp_all
    show "knows_lock ?s ?w (handed_on ?w)" if "mx_state ?s = UNLOCKED"
      using kl [OF D(7)] that by simp
    show "knows_lock ?s ?w (mv_view ?w b)" if "holding (mx_pc ?s b)" for b
      using that pc(1) kl [OF D(8) [of b]] by (cases "b = a") simp_all
    show "knows ?w (handed_on ?w) (MxAwaiter x)" if "wpath (mx_awaiters ?s) (chain_of (mx_state ?s)) xs'" "x \<in> set xs'" for xs' x
      using that wpath_outside [OF C(1) out(2)] D(9) [OF C(1), of x] out(2) by auto
    show "knows ?w (mv_view ?w b) (MxAwaiter z)"
      if "mx_pc ?s b = MRev old" "wpath (mx_awaiters ?s) old zs'" "z \<in> set zs'" for b old zs' z
    proof -
      have b: "b \<noteq> a" "mx_pc s b = MRev old"
        using that(1) pc(1) by (auto split: if_splits)
      obtain zs where zs: "wpath (mx_awaiters s) old zs" "\<forall>z \<in> set zs. mx_pc s z = MWaiting"
        using C(4) [OF b(2)] by blast
      have "a \<notin> set zs"
        using zs(2) a(2) by blast
      then have "zs' = zs" and "z \<noteq> a"
        using that(2,3) wpath_outside [OF zs(1)] by auto
      then show ?thesis
        using D(10) [OF b(2) zs(1)] that(3) b(1) by simp
    qed
  qed (use D(2,3) in simp_all)
qed

text \<open>A read-modify-write of the state word: who releases with it hands on all it knows, who acquires with it gets
  all that was handed on before.\<close>

lemma state_rmw_facts:
  fixes acquire release :: bool and a :: addr and v :: u64 and w :: mutex_views
  assumes "views_ok s w"
  defines "w' \<equiv> state_rmw acquire release v a w"
  defines "U \<equiv> (if acquire then sup (mv_view w a) (handed_on w) else mv_view w a)(MxState := Suc (newest (mv_mem w) MxState))"
  shows "\<not> mv_race w'" and "wm_stores (mv_mem w') MxState \<noteq> []"
    and "store_value (mv_mem w') MxState (newest (mv_mem w') MxState) = v"
    and "n \<le> newest (mv_mem w') MxState \<Longrightarrow> in_bounds w' (store_view (mv_mem w') MxState n)"
    and "mv_view w' = (mv_view w)(a := U)" and "in_bounds w' U" and "in_bounds w X \<Longrightarrow> in_bounds w' X"
    and "knows w' X l = knows w X l"
    and "l \<noteq> MxState \<Longrightarrow> knows w (mv_view w a) l \<or> acquire \<and> knows w (handed_on w) l \<Longrightarrow> knows w U l"
    and "l \<noteq> MxState \<Longrightarrow> knows w (handed_on w) l \<or> release \<and> knows w (mv_view w a) l \<Longrightarrow> knows w (handed_on w') l"
proof -
  note D = views_okD [OF assms(1)]
  let ?m = "mv_mem w" and ?N = "newest (mv_mem w) MxState"
  let ?r = "weak_rmw acquire release MxState (\<lambda>_. v) ?m (mv_view w a)"
  have w': "w' = w\<lparr> mv_mem := fst (snd ?r), mv_view := (mv_view w)(a := snd (snd ?r)) \<rparr>"
    by (simp add: w'_def state_rmw_def split_beta Let_def)
  note N = rmw_newest [OF D(2), where a = acquire and r = release and f = "\<lambda>_. v" and V = "mv_view w a"]
  note R = rmw_views [OF D(2), where a = acquire and r = release and f = "\<lambda>_. v" and V = "mv_view w a"]
  have new: "newest (mv_mem w') MxState = Suc ?N"
    using N(1) by (simp add: w')
  have wr: "wm_writes (mv_mem w') = wm_writes ?m"
    by (simp add: w')
  have U: "snd (snd ?r) = U"
    using R(1) by (simp add: U_def handed_on_def)
  have H: "handed_on w' = sup (if release then U else (\<lambda>_. 0)(MxState := Suc ?N)) (handed_on w)"
    using R(2) [unfolded U] new by (simp add: handed_on_def w')
  show "\<not> mv_race w'" "wm_stores (mv_mem w') MxState \<noteq> []" "store_value (mv_mem w') MxState (newest (mv_mem w') MxState) = v"
    using D(1) N by (simp_all add: w')
  show view: "mv_view w' = (mv_view w)(a := U)"
    using U by (simp add: w')
  show kn: "knows w' X l = knows w X l" for X l
    by (simp add: knows_def wr)
  show grow: "in_bounds w X \<Longrightarrow> in_bounds w' X" for X
    by (simp add: in_bounds_def new wr)
  have Hb: "in_bounds w (handed_on w)"
    using D(4) by (simp add: handed_on_def)
  have "in_bounds w (if acquire then sup (mv_view w a) (handed_on w) else mv_view w a)"
    using D(5) [of a] in_bounds_sup [OF _ Hb] by simp
  then show Ub: "in_bounds w' U"
    by (simp add: U_def in_bounds_def new wr)
  have "in_bounds w' (handed_on w')"
    unfolding H using in_bounds_sup Ub grow [OF Hb] by (auto simp: in_bounds_def new)
  then show "in_bounds w' (store_view (mv_mem w') MxState n)" if "n \<le> newest (mv_mem w') MxState"
    using that D(4) [of n, THEN grow] R(3) [of n] new
    by (cases "n = Suc ?N") (simp_all add: handed_on_def w')
  show "knows w U l" if "l \<noteq> MxState" "knows w (mv_view w a) l \<or> acquire \<and> knows w (handed_on w) l"
  proof -
    have "U l \<le> wm_writes ?m l"
      using Ub that(1) by (simp add: in_bounds_def wr)
    moreover have "wm_writes ?m l \<le> U l"
      using that by (auto simp: U_def knows_def)
    ultimately show ?thesis
      by (simp add: knows_def)
  qed
  show "knows w (handed_on w') l" if l: "l \<noteq> MxState" and k: "knows w (handed_on w) l \<or> release \<and> knows w (mv_view w a) l"
  proof -
    have "handed_on w' l \<le> wm_writes ?m l"
      using \<open>in_bounds w' (handed_on w')\<close> l by (simp add: in_bounds_def wr)
    moreover have "mv_view w a l \<le> U l"
      using l by (simp add: U_def)
    then have "wm_writes ?m l \<le> handed_on w' l"
      using k by (auto simp: H knows_def le_supI1 intro: order_trans)
    ultimately show ?thesis
      by (simp add: knows_def)
  qed
qed

lemma views_ok_rmw:
  assumes V: "views_ok s w" and s': "mx_state s' = v" "mx_awaiters s' = mx_awaiters s" "mx_waiters_head s' = mx_waiters_head s"
      "mx_pc s' = (mx_pc s)(a := pc)"
    and a: "mx_pc s a \<noteq> MWaiting"
    and free: "v = UNLOCKED \<Longrightarrow> release \<and> knows_lock s w (mv_view w a)"
    and held: "holding pc \<Longrightarrow> knows_lock s w (mv_view w a) \<or> acquire \<and> knows_lock s w (handed_on w)"
    and chain: "\<And>xs x. wpath (mx_awaiters s) (chain_of v) xs \<Longrightarrow> x \<in> set xs
      \<Longrightarrow> knows w (handed_on w) (MxAwaiter x) \<or> release \<and> knows w (mv_view w a) (MxAwaiter x)"
    and rev: "\<And>old zs z. pc = MRev old \<Longrightarrow> wpath (mx_awaiters s) old zs \<Longrightarrow> z \<in> set zs
      \<Longrightarrow> knows w (mv_view w a) (MxAwaiter z) \<or> acquire \<and> knows w (handed_on w) (MxAwaiter z)"
  shows "views_ok s' (state_rmw acquire release v a w)"
proof -
  note D = views_okD [OF V]
    and F = state_rmw_facts(1-8,10) [OF V, where acquire = acquire and release = release and v = v and a = a]
    and K = state_rmw_facts(9) [OF V, where acquire = acquire and a = a]
  have kl: "knows_lock s' (state_rmw acquire release v a w) X \<longleftrightarrow> knows_lock s w X" for X
    by (simp add: knows_lock_def F(8) s')
  show ?thesis
  proof (rule views_okI)
    show "in_bounds (state_rmw acquire release v a w) (mv_view (state_rmw acquire release v a w) b)" for b
      using F(6) F(7) [OF D(5) [of b]] by (simp add: F(5))
    show "knows (state_rmw acquire release v a w) (mv_view (state_rmw acquire release v a w) b) (MxAwaiter b)"
      if "mx_pc s' b \<noteq> MWaiting" for b
      using that D(6) [of b] D(6) [OF a] K [of "MxAwaiter a"] by (cases "b = a") (simp_all add: F(5,8) s'(4))
    show "knows_lock s' (state_rmw acquire release v a w) (handed_on (state_rmw acquire release v a w))" if "mx_state s' = UNLOCKED"
      unfolding kl using free that F(9) s'(1) by (simp add: knows_lock_def)
    show "knows_lock s' (state_rmw acquire release v a w) (mv_view (state_rmw acquire release v a w) b)" if "holding (mx_pc s' b)" for b
      unfolding kl F(5) using that D(8) [of b] held K by (cases "b = a") (auto simp: knows_lock_def s'(4))
    show "knows (state_rmw acquire release v a w) (handed_on (state_rmw acquire release v a w)) (MxAwaiter x)"
      if "wpath (mx_awaiters s') (chain_of (mx_state s')) xs" "x \<in> set xs" for xs x
      unfolding F(8) using that chain F(9) s'(1,2) by simp
    show "knows (state_rmw acquire release v a w) (mv_view (state_rmw acquire release v a w) b) (MxAwaiter z)"
      if "mx_pc s' b = MRev old" "wpath (mx_awaiters s') old zs" "z \<in> set zs" for b old zs z
      unfolding F(8) F(5) using that rev D(10) [of b old zs z] K [of "MxAwaiter z"] s'(2,4) by (cases "b = a") simp_all
  qed (use F(1-4) s'(1) in simp_all)
qed

text \<open>The holder works on the list, the guarded data and awaiters of waiters that are not behind the state word.\<close>

lemma views_ok_touch_held:
  assumes M: "mutex_inv s" and V: "views_ok s w" and a: "holding (mx_pc s a)" and l: "l = MxHead \<or> l = MxData"
  shows "views_ok s (touch l a w)"
proof -
  note D = views_okD [OF V] and H = one_holder [OF M a]
  have kn: "knows w (mv_view w a) l"
    using knows_lockD(1,2) [OF D(8) [OF a]] l by blast
  have lne: "l \<noteq> MxState" "MxAwaiter x \<noteq> l" for x
    using l by auto
  show ?thesis
  proof (rule views_okI)
    show "in_bounds (touch l a w) (store_view (mv_mem (touch l a w)) MxState n)" if "n \<le> newest (mv_mem (touch l a w)) MxState" for n
      using that D(4) [of n] by (simp add: in_bounds_touch)
    show "in_bounds (touch l a w) (mv_view (touch l a w) b)" for b
      using D(5) [of b] lne(1) by (cases "b = a") (simp_all add: in_bounds_touch in_bounds_touched)
    show "knows (touch l a w) (mv_view (touch l a w) b) (MxAwaiter b)" if "mx_pc s b \<noteq> MWaiting" for b
      using that D(6) [of b] lne(2) by (cases "b = a") (simp_all add: knows_def)
    show "knows_lock s (touch l a w) (mv_view (touch l a w) b)" if "holding (mx_pc s b)" for b
      using D(8) [OF a] H(2) [OF that] lne by (auto simp: knows_lock_def knows_def)
    show "knows (touch l a w) (mv_view (touch l a w) b) (MxAwaiter z)"
      if "mx_pc s b = MRev old" "wpath (mx_awaiters s) old zs" "z \<in> set zs" for b old zs z
      using D(10) [OF that] lne(2) by (auto simp: knows_def)
    show "knows (touch l a w) (handed_on (touch l a w)) (MxAwaiter x)"
      if "wpath (mx_awaiters s) (chain_of (mx_state s)) xs" "x \<in> set xs" for xs x
      using D(9) [OF that] lne(2) by simp
  qed (use D(1-3) H(1) kn in simp_all)
qed

lemma views_ok_touch_waiter:
  assumes M: "mutex_inv s" and V: "views_ok s w" and a: "holding (mx_pc s a)" and y: "mx_pc s y = MWaiting"
    and kn: "knows w (mv_view w a) (MxAwaiter y)"
    and out: "\<And>xs. wpath (mx_awaiters s) (chain_of (mx_state s)) xs \<Longrightarrow> y \<notin> set xs"
  shows "views_ok s (touch (MxAwaiter y) a w)"
proof -
  note D = views_okD [OF V] and H = one_holder [OF M a]
  show ?thesis
  proof (rule views_okI)
    show "in_bounds (touch (MxAwaiter y) a w) (store_view (mv_mem (touch (MxAwaiter y) a w)) MxState n)"
      if "n \<le> newest (mv_mem (touch (MxAwaiter y) a w)) MxState" for n
      using that D(4) [of n] by (simp add: in_bounds_touch)
    show "in_bounds (touch (MxAwaiter y) a w) (mv_view (touch (MxAwaiter y) a w) b)" for b
      using D(5) [of b] by (cases "b = a") (simp_all add: in_bounds_touch in_bounds_touched)
    show "knows (touch (MxAwaiter y) a w) (mv_view (touch (MxAwaiter y) a w) b) (MxAwaiter b)" if "mx_pc s b \<noteq> MWaiting" for b
      using that D(6) [of b] y by (cases "b = y"; cases "b = a") (simp_all add: knows_def)
    show "knows_lock s (touch (MxAwaiter y) a w) (mv_view (touch (MxAwaiter y) a w) b)" if "holding (mx_pc s b)" for b
      using D(8) [OF a] H(2) [OF that] by (auto simp: knows_lock_def knows_def)
    show "knows (touch (MxAwaiter y) a w) (mv_view (touch (MxAwaiter y) a w) b) (MxAwaiter z)"
      if "mx_pc s b = MRev old" "wpath (mx_awaiters s) old zs" "z \<in> set zs" for b old zs z
      using D(10) [OF that] H(2) [of b] that(1) by (auto simp: knows_def)
    show "knows (touch (MxAwaiter y) a w) (handed_on (touch (MxAwaiter y) a w)) (MxAwaiter x)"
      if "wpath (mx_awaiters s) (chain_of (mx_state s)) xs" "x \<in> set xs" for xs x
      using D(9) [OF that] out [OF that(1)] that(2) by auto
  qed (use D(1-3) H(1) kn in simp_all)
qed

lemma views_ok_set_pc:
  assumes V: "views_ok s w" and a: "mx_pc s a \<noteq> MWaiting" and pc: "holding pc \<Longrightarrow> holding (mx_pc s a)" "\<And>old. pc \<noteq> MRev old"
  shows "views_ok (set_pc a pc s) w"
proof -
  note D = views_okD [OF V]
  have kl: "knows_lock (set_pc a pc s) w X \<longleftrightarrow> knows_lock s w X" for X
    by (simp add: knows_lock_def)
  show ?thesis
  proof (rule views_okI)
    show "knows w (mv_view w b) (MxAwaiter b)" if "mx_pc (set_pc a pc s) b \<noteq> MWaiting" for b
      using that D(6) [of b] D(6) [OF a] by (cases "b = a") simp_all
    show "knows_lock (set_pc a pc s) w (mv_view w b)" if "holding (mx_pc (set_pc a pc s) b)" for b
      unfolding kl using that D(8) [of b] pc(1) by (cases "b = a") simp_all
    show "knows w (mv_view w b) (MxAwaiter z)"
      if "mx_pc (set_pc a pc s) b = MRev old" "wpath (mx_awaiters (set_pc a pc s)) old zs" "z \<in> set zs" for b old zs z
      using that D(10) [of b old zs z] pc(2) [of old] by (cases "b = a") simp_all
  qed (use D(1-5,7,9) kl in simp_all)
qed

lemma views_ok_lock_begin:
  assumes M: "mutex_inv s" and V: "views_ok s w" and a: "mx_pc s a = MIdle"
  shows "views_ok (fst (weak_lock_begin ord a h sched n (s, w))) (snd (weak_lock_begin ord a h sched n (s, w)))"
proof -
  have "views_ok (lock_begin a h sched seen s) (touch (MxAwaiter a) a w)" for seen
    unfolding lock_begin_def using a by (intro views_ok_outside [OF M V]) simp_all
  then show ?thesis
    using views_ok_load by (auto simp: weak_lock_begin_def split_beta Let_def)
qed

lemma views_ok_lock_try:
  assumes M: "mutex_inv s" and V: "views_ok s w" and a: "mx_pc s a = MTry old"
    and ord: "mo_lock ord" "mo_queue ord"
  shows "views_ok (fst (weak_lock_try ord a old n spurious (s, w))) (snd (weak_lock_try ord a old n spurious (s, w)))"
proof -
  let ?aw = "(mx_awaiters s a)\<lparr> ma_next := chain_of old \<rparr>"
  let ?s1 = "\<lambda>pc. set_pc a pc (s\<lparr> mx_awaiters := (mx_awaiters s)(a := ?aw) \<rparr>)" and ?w1 = "touch (MxAwaiter a) a w"
  have c: "chain_of old = (if old = LOCKED_NO_WAITERS then 0 else old)"
    by (simp add: chain_of_def)
  have V1: "views_ok (?s1 pc) ?w1" if "\<not> holding pc" "pc \<noteq> MWaiting" for pc
    using that a by (intro views_ok_outside [OF M V]) simp_all
  consider (lock) "old = UNLOCKED" "mx_state s = old \<and> \<not> spurious" | (queue) "old \<noteq> UNLOCKED" "mx_state s = old \<and> \<not> spurious"
    | (again) "old = UNLOCKED" "\<not> (mx_state s = old \<and> \<not> spurious)" | (retry) "old \<noteq> UNLOCKED" "\<not> (mx_state s = old \<and> \<not> spurious)"
    by blast
  then show ?thesis
  proof cases
    case lock
    have "views_ok (set_pc a MHolds (s\<lparr> mx_state := LOCKED_NO_WAITERS \<rparr>)) (state_rmw True False LOCKED_NO_WAITERS a w)"
      by (rule views_ok_rmw [OF V, where pc = MHolds]) (use a lock views_okD(7) [OF V] in simp_all)
    then show ?thesis
      using lock ord(1) by (simp add: weak_lock_try_def lock_try_def split_beta Let_def)
  next
    case queue
    have "a \<noteq> nullptr" "aligned8 a"
      using mutex_invE [OF M] agents_okD(2) [of s _ _ _ a] a by (metis mutex_pc.distinct(1))+
    then have ca: "chain_of a = a" and a0: "a \<noteq> UNLOCKED"
      using aligned8_not_1 by (auto simp: chain_of_def UNLOCKED_def)
    have V2: "views_ok (?s1 (MTry old)) ?w1"
      by (rule V1) simp_all
    have "views_ok (set_pc a MWaiting (s\<lparr> mx_awaiters := (mx_awaiters s)(a := ?aw), mx_state := a,
        mx_queued := mx_queued s @ [(a, ma_sched ?aw, ma_coro ?aw)] \<rparr>)) (state_rmw False True a a ?w1)"
    proof (rule views_ok_rmw [OF V2, where pc = MWaiting])
      fix xs x
      assume xs: "wpath (mx_awaiters (?s1 (MTry old))) (chain_of a) xs" "x \<in> set xs"
      then obtain xs' where xs': "xs = a # xs'" "wpath (mx_awaiters (?s1 (MTry old))) (chain_of old) xs'"
        using \<open>a \<noteq> nullptr\<close> ca by (cases xs) auto
      show "knows ?w1 (handed_on ?w1) (MxAwaiter x) \<or> True \<and> knows ?w1 (mv_view ?w1 a) (MxAwaiter x)"
      proof (cases "x = a")
        case True
        then show ?thesis
          by simp
      next
        case False
        then show ?thesis
          using views_okD(9) [OF V2, of xs' x] xs(2) xs' queue(2) by simp
      qed
    qed (use a0 in simp_all)
    then show ?thesis
      using queue ord(2) c by (simp add: weak_lock_try_def lock_try_def split_beta Let_def)
  next
    case again
    have "views_ok (set_pc a (MTry seen) s) w" for seen
      using a by (intro views_ok_set_pc [OF V]) simp_all
    then show ?thesis
      using again views_ok_load by (auto simp: weak_lock_try_def lock_try_def split_beta Let_def)
  next
    case retry
    have "views_ok (?s1 (MTry seen)) ?w1" for seen
      by (rule V1) simp_all
    then show ?thesis
      using retry views_ok_load c by (auto simp: weak_lock_try_def lock_try_def split_beta Let_def)
  qed
qed

text \<open>\<open>unlock\<close>.\<close>

lemma views_ok_exchange:
  assumes M: "mutex_inv s" and V: "views_ok s w" and a: "holding (mx_pc s a)"
    and pc: "\<not> (\<exists>old. pc = MRev old) \<or> pc = MRev (mx_state s) \<and> mx_state s \<noteq> LOCKED_NO_WAITERS"
  shows "views_ok (set_pc a pc (s\<lparr> mx_state := LOCKED_NO_WAITERS \<rparr>)) (state_rmw True False LOCKED_NO_WAITERS a w)"
proof (rule views_ok_rmw [OF V, where pc = pc])
  show "mx_pc s a \<noteq> MWaiting"
    using a by auto
  show "knows_lock s w (mv_view w a) \<or> True \<and> knows_lock s w (handed_on w)"
    using views_okD(8) [OF V a] by blast
  show "knows w (mv_view w a) (MxAwaiter z) \<or> True \<and> knows w (handed_on w) (MxAwaiter z)"
    if "pc = MRev old" "wpath (mx_awaiters s) old zs" "z \<in> set zs" for old zs z
    using that pc views_okD(9) [OF V, of zs z] by (auto simp: chain_of_def)
qed simp_all

lemma views_ok_reversal:
  assumes M: "mutex_inv s" and V: "views_ok s w" and pc: "mx_pc s a = MRev old"
  shows "views_ok (unlock_rev a old s) (views_unlock ord a s w)"
proof -
  obtain xs zs where xs: "wpath (mx_awaiters s) (chain_of (mx_state s)) xs"
    and zs: "wpath (mx_awaiters s) old zs" "distinct (zs @ xs)" "\<forall>z \<in> set zs. mx_pc s z = MWaiting"
    by (rule chains_wait [OF M]) (use pc in metis)
  have a: "holding (mx_pc s a)"
    by (simp add: pc)
  have out: "z \<notin> set xs'" if "z \<in> set zs" "wpath (mx_awaiters s) (chain_of (mx_state s)) xs'" for z xs'
    using that zs(2) wpath_unique [OF xs] by auto
  have fold: "views_ok s (fold (\<lambda>z. touch (MxAwaiter z) a) us u)" if "set us \<subseteq> set zs" "views_ok s u" for us u
    using that
  proof (induction us arbitrary: u)
    case (Cons z us)
    then have z: "z \<in> set zs"
      by simp
    have "views_ok s (touch (MxAwaiter z) a u)"
      using z zs(3) views_okD(10) [OF Cons.prems(2) pc zs(1) z] out [OF z]
      by (intro views_ok_touch_waiter [OF M Cons.prems(2) a]) simp_all
    then show ?case
      using Cons by simp
  qed simp
  let ?w = "touch MxHead a (fold (\<lambda>z. touch (MxAwaiter z) a) zs w)"
  have V1: "views_ok s ?w"
    using fold [OF _ V] by (intro views_ok_touch_held [OF M _ a]) simp_all
  note D = views_okD [OF V1]
  obtain aw' first where rev: "reverse_waiters (mx_awaiters s) old nullptr = Some (aw', first)"
    "wpath aw' first (rev zs)" "\<forall>x. x \<notin> set zs \<longrightarrow> aw' x = mx_awaiters s x"
    using reverse_waiters_rev [OF zs(1), of nullptr "[]"] zs(2) by auto
  have s': "unlock_rev a old s = set_pc a MPop (s\<lparr> mx_awaiters := aw', mx_waiters_head := first \<rparr>)"
    by (simp add: unlock_rev_def rev(1))
  have w': "views_unlock ord a s w = ?w"
    using chain_nodes_wpath [OF zs(1), of "[]"] by (simp add: views_unlock_def pc)
  have "wpath aw' (chain_of (mx_state s)) xs = wpath (mx_awaiters s) (chain_of (mx_state s)) xs"
    by (rule wpath_cong) (use rev(3) zs(2) in auto)
  then have xs': "wpath aw' (chain_of (mx_state s)) xs"
    using xs by simp
  show ?thesis
    unfolding s' w'
  proof (rule views_okI)
    show "knows ?w (mv_view ?w b) (MxAwaiter b)"
      if "mx_pc (set_pc a MPop (s\<lparr> mx_awaiters := aw', mx_waiters_head := first \<rparr>)) b \<noteq> MWaiting" for b
      using that D(6) [of b] D(6) [of a] pc by (cases "b = a") (simp_all split: if_splits)
    show "knows_lock (set_pc a MPop (s\<lparr> mx_awaiters := aw', mx_waiters_head := first \<rparr>)) ?w (mv_view ?w b)"
      if "holding (mx_pc (set_pc a MPop (s\<lparr> mx_awaiters := aw', mx_waiters_head := first \<rparr>)) b)" for b
    proof -
      have b: "b = a"
        using that one_holder(2) [OF M a, of b] by (cases "b = a") simp_all
      have "knows ?w (mv_view ?w a) (MxAwaiter y)" if "wpath aw' first ys" "y \<in> set ys" for ys y
        using wpath_unique [OF that(1) rev(2)] that(2) by (intro D(10) [OF pc zs(1)]) simp
      moreover have "mx_awaiters (set_pc a MPop (s\<lparr> mx_awaiters := aw', mx_waiters_head := first \<rparr>)) = aw'"
        "mx_waiters_head (set_pc a MPop (s\<lparr> mx_awaiters := aw', mx_waiters_head := first \<rparr>)) = first"
        by simp_all
      ultimately show ?thesis
        using knows_lockD(1,2) [OF D(8) [OF a]] unfolding b knows_lock_def by metis
    qed
    show "knows ?w (handed_on ?w) (MxAwaiter x)"
      if "wpath (mx_awaiters (set_pc a MPop (s\<lparr> mx_awaiters := aw', mx_waiters_head := first \<rparr>)))
          (chain_of (mx_state (set_pc a MPop (s\<lparr> mx_awaiters := aw', mx_waiters_head := first \<rparr>)))) us" "x \<in> set us" for us x
      using that D(9) [OF xs, of x] wpath_unique [OF xs', of us] by simp
    show "knows ?w (mv_view ?w b) (MxAwaiter z)"
      if "mx_pc (set_pc a MPop (s\<lparr> mx_awaiters := aw', mx_waiters_head := first \<rparr>)) b = MRev old'"
      for b old' z
      using that one_holder(2) [OF M a, of b] by (cases "b = a") simp_all
    show "knows_lock (set_pc a MPop (s\<lparr> mx_awaiters := aw', mx_waiters_head := first \<rparr>)) ?w (handed_on ?w)"
      if "mx_state (set_pc a MPop (s\<lparr> mx_awaiters := aw', mx_waiters_head := first \<rparr>)) = UNLOCKED"
      using that one_holder(1) [OF M a] by simp
  qed (use D(1-5) in simp_all)
qed

text \<open>The hand-over: the waiter taken off the list is the holder from here on and knows what it needs.\<close>

lemma views_ok_hand_over:
  assumes M: "mutex_inv s" and V: "views_ok s w" and pc: "mx_pc s a = MPop"
  shows "views_ok (unlock_pop a sched s) (views_unlock ord a s w)"
proof (cases "mx_waiters_head s = nullptr")
  case True
  have "views_ok (set_pc a MIdle s) (touch MxHead a w)"
    using pc by (intro views_ok_set_pc views_ok_touch_held [OF M V]) simp_all
  then show ?thesis
    using True by (simp add: unlock_pop_def views_unlock_def pc)
next
  case False
  let ?y = "mx_waiters_head s"
  obtain xs ys where C: "wpath (mx_awaiters s) (chain_of (mx_state s)) xs" "wpath (mx_awaiters s) ?y ys" "distinct (ys @ xs)"
    "\<And>x. x \<in> set (ys @ xs) \<Longrightarrow> mx_pc s x = MWaiting"
    by (rule chains_wait [OF M]) metis
  obtain ys' where ys: "ys = ?y # ys'" "wpath (mx_awaiters s) (ma_next (mx_awaiters s ?y)) ys'"
    using C(2) False by (cases ys) auto
  have wait: "mx_pc s ?y = MWaiting"
    by (rule C(4)) (metis ys(1) list.set_intros(1) Un_iff set_append)
  moreover have "ma_sched (mx_awaiters s ?y) \<noteq> nullptr"
  proof -
    obtain xs1 ys1 zs1 where "agents_ok s xs1 ys1 zs1"
      by (rule mutex_invE [OF M])
    then show ?thesis
      using agents_okD(2) wait by fastforce
  qed
  ultimately have y: "mx_pc s ?y = MWaiting" "ma_sched (mx_awaiters s ?y) \<noteq> nullptr"
    by simp_all
  have a: "holding (mx_pc s a)"
    by (simp add: pc)
  let ?w1 = "touch MxHead a w"
  have V1: "views_ok s ?w1"
    by (rule views_ok_touch_held [OF M V a]) simp
  let ?w2 = "touch (MxAwaiter ?y) a ?w1"
  have "knows ?w1 (mv_view ?w1 a) (MxAwaiter ?y)"
    using knows_lockD(3) [OF views_okD(8) [OF V1 a] C(2)] ys(1) by (metis list.set_intros(1))
  moreover have "?y \<notin> set us" if "wpath (mx_awaiters s) (chain_of (mx_state s)) us" for us
    using wpath_unique [OF C(1) that] C(3) ys(1) by (metis IntI distinct_append empty_iff list.set_intros(1))
  ultimately have V2: "views_ok s ?w2"
    by (intro views_ok_touch_waiter [OF M V1 a y(1)])
  note D = views_okD [OF V2]
  let ?U = "sup (mv_view ?w2 ?y) (mv_view ?w2 a)"
  have U: "in_bounds ?w2 ?U"
    by (intro in_bounds_sup D(5))
  have V3: "views_ok s (?w2\<lparr> mv_view := (mv_view ?w2)(?y := ?U) \<rparr>)"
    by (rule views_ok_grow [OF V2]) (simp_all only: U sup_apply sup_ge1)
  let ?w3 = "?w2\<lparr> mv_view := (mv_view ?w2)(?y := ?U) \<rparr>"
  note E = views_okD [OF V3]
  have kl: "knows_lock s ?w3 ?U"
    using knows_lock_grow [OF D(8) [OF a], of ?U] U by simp
  have own: "knows ?w3 ?U (MxAwaiter ?y)"
    using knows_grow [of ?w2 "mv_view ?w2 a" "MxAwaiter ?y" ?U] U by simp
  have w': "views_unlock ord a s w = ?w3"
    using False y(2) by (simp add: views_unlock_def pc Let_def)
  have s': "mx_state (unlock_pop a sched s) = mx_state s" "mx_awaiters (unlock_pop a sched s) = mx_awaiters s"
    "mx_waiters_head (unlock_pop a sched s) = ma_next (mx_awaiters s ?y)"
    "mx_pc (unlock_pop a sched s) = (mx_pc s)(a := MIdle, ?y := MHolds)"
    using False y(2) by (auto simp: unlock_pop_def Let_def)
  have view_y: "mv_view ?w3 ?y = ?U"
    by simp
  show ?thesis
    unfolding w'
  proof (rule views_okI)
    show "knows ?w3 (mv_view ?w3 b) (MxAwaiter b)" if "mx_pc (unlock_pop a sched s) b \<noteq> MWaiting" for b
    proof (cases "b = ?y")
      case True
      then show ?thesis
        using own view_y by (simp only:)
    next
      case False
      then have "mx_pc s b \<noteq> MWaiting"
        using that pc by (cases "b = a") (simp_all add: s'(4))
      then show ?thesis
        by (rule E(6))
    qed
    show "knows_lock (unlock_pop a sched s) ?w3 (mv_view ?w3 b)" if "holding (mx_pc (unlock_pop a sched s) b)" for b
    proof -
      have "b = ?y"
        using that one_holder(2) [OF M a, of b] by (auto simp: s'(4) split: if_splits)
      moreover have "us = ys'" if "wpath (mx_awaiters s) (ma_next (mx_awaiters s ?y)) us" for us
        using wpath_unique [OF that ys(2)] .
      moreover have "knows ?w3 ?U (MxAwaiter u)" if "u \<in> set ys'" for u
        using knows_lockD(3) [OF kl C(2), of u] that ys(1) by (metis list.set_intros(2))
      ultimately show ?thesis
        using knows_lockD(1,2) [OF kl] unfolding knows_lock_def s' by (metis view_y)
    qed
    show "knows ?w3 (mv_view ?w3 b) (MxAwaiter z)"
      if "mx_pc (unlock_pop a sched s) b = MRev old" "wpath (mx_awaiters (unlock_pop a sched s)) old zs" "z \<in> set zs" for b old zs z
    proof -
      have "mx_pc s b = MRev old"
        using that(1) by (simp add: s'(4) split: if_splits)
      moreover have "b = a"
        by (rule one_holder(2) [OF M a]) (simp add: calculation)
      ultimately show ?thesis
        using pc by simp
    qed
    show "knows_lock (unlock_pop a sched s) ?w3 (handed_on ?w3)" if "mx_state (unlock_pop a sched s) = UNLOCKED"
      using that one_holder(1) [OF M a] s'(1) by simp
    show "knows ?w3 (handed_on ?w3) (MxAwaiter x)"
      if "wpath (mx_awaiters (unlock_pop a sched s)) (chain_of (mx_state (unlock_pop a sched s))) us" "x \<in> set us" for us x
      using that unfolding s' by (rule E(9))
    show "store_value (mv_mem ?w3) MxState (newest (mv_mem ?w3) MxState) = mx_state (unlock_pop a sched s)"
      unfolding s' by (rule E(3))
  qed (rule E(1,2,4,5); assumption?)+
qed

lemma views_ok_holder_step:
  assumes M: "mutex_inv s" and V: "views_ok s w" and ord: "mo_xchg ord" "mo_unlock ord"
  shows "views_ok (holder_step a sched s) (views_unlock ord a s w)"
proof (cases "mx_pc s a")
  case MHolds
  have "views_ok (set_pc a pc s) (touch MxHead a w)" if "pc = MXchg \<or> pc = MPop" for pc
    using that MHolds by (intro views_ok_set_pc views_ok_touch_held [OF M V]) auto
  then show ?thesis
    using MHolds by (simp add: holder_step_def unlock_begin_def views_unlock_def)
next
  case MXchg
  have "views_ok (set_pc a (if mx_state s = LOCKED_NO_WAITERS then MCas else MRev (mx_state s)) (s\<lparr> mx_state := LOCKED_NO_WAITERS \<rparr>))
      (state_rmw True False LOCKED_NO_WAITERS a w)"
    using MXchg by (intro views_ok_exchange [OF M V]) auto
  then show ?thesis
    using MXchg ord by (simp add: holder_step_def unlock_xchg_def views_unlock_def)
next
  case MCas
  show ?thesis
  proof (cases "mx_state s = LOCKED_NO_WAITERS")
    case True
    have "views_ok (set_pc a MIdle (s\<lparr> mx_state := UNLOCKED \<rparr>)) (state_rmw False True UNLOCKED a w)"
      by (rule views_ok_rmw [OF V, where pc = MIdle]) (use MCas views_okD(8) [OF V, of a] in simp_all)
    then show ?thesis
      using MCas True ord by (simp add: holder_step_def unlock_cas_def views_unlock_def)
  next
    case False
    have "views_ok (set_pc a MXchg2 s) w"
      using MCas by (intro views_ok_set_pc [OF V]) simp_all
    then show ?thesis
      using MCas False views_ok_load by (simp add: holder_step_def unlock_cas_def views_unlock_def)
  qed
next
  case MXchg2
  have "mx_state s \<noteq> LOCKED_NO_WAITERS"
  proof
    assume st: "mx_state s = LOCKED_NO_WAITERS"
    obtain xs ys zs where "chains_ok s xs ys zs" "lock_ok s xs ys zs"
      by (rule mutex_invE [OF M])
    then show False
      using lock_ok_holder(3) [of s xs ys zs a] MXchg2 st by (auto simp: chains_ok_def)
  qed
  then have "views_ok (set_pc a (MRev (mx_state s)) (s\<lparr> mx_state := LOCKED_NO_WAITERS \<rparr>)) (state_rmw True False LOCKED_NO_WAITERS a w)"
    using MXchg2 by (intro views_ok_exchange [OF M V]) simp_all
  then show ?thesis
    using MXchg2 ord by (simp add: holder_step_def unlock_xchg2_def views_unlock_def)
next
  case (MRev old)
  then show ?thesis
    using views_ok_reversal [OF M V MRev] by (simp add: holder_step_def)
next
  case MPop
  then show ?thesis
    using views_ok_hand_over [OF M V MPop] by (simp add: holder_step_def)
qed (use V in \<open>simp_all add: holder_step_def views_unlock_def\<close>)

lemma mutex_weak_views_ok:
  assumes "mutex_weak_reach ord on_worker z" and ord: "mo_lock ord" "mo_queue ord" "mo_xchg ord" "mo_unlock ord"
  shows "views_ok (fst z) (snd z)"
  using assms(1)
proof induction
  case (mw_start aw)
  then show ?case
    by (simp add: views_ok_init)
next
  case (mw_lock z a sched h n)
  then show ?case
    using views_ok_lock_begin [OF worker_reach_inv [OF mutex_weak_projects [OF mw_lock.hyps(1)]]] by (cases z) simp
next
  case (mw_try z a old n spurious)
  then show ?case
    using views_ok_lock_try [OF worker_reach_inv [OF mutex_weak_projects [OF mw_try.hyps(1)]]] ord by (cases z) simp
next
  case (mw_unlock z a sched)
  then show ?case
    using views_ok_holder_step [OF worker_reach_inv [OF mutex_weak_projects [OF mw_unlock.hyps(1)]]] ord
    by (cases z) (simp add: weak_holder_step_def)
next
  case (mw_access z a)
  then show ?case
    using views_ok_touch_held [OF worker_reach_inv [OF mutex_weak_projects [OF mw_access.hyps(1)]]]
    by (cases z) (simp add: guarded_access_def)
next
  case (mw_see z a b)
  then show ?case
    using views_ok_see by (cases z) (simp add: see_of_def)
qed

section \<open>What the mutex promises\<close>

text \<open>
  C3: mutual exclusion, also on a memory with release and acquire, where a load of the state word may return
  an old value: in every execution of coroutines that lock from worker threads, at most one of them holds
  the mutex, the state word is 0 exactly when none does, and with the orders the code asks for no two
  accesses to the guarded data, to the list of waiters or to an awaiter race.
\<close>

theorem mutex_protects:
  assumes "mutex_weak_reach mutex_code_orders on_worker z"
  shows "(holding (mx_pc (fst z) a) \<and> holding (mx_pc (fst z) b) \<longrightarrow> a = b)
    \<and> (mx_state (fst z) = UNLOCKED \<longleftrightarrow> (\<forall>c. \<not> holding (mx_pc (fst z) c))) \<and> \<not> mv_race (snd z)"
  using mutex_exclusion [OF mutex_weak_projects [OF assms]] views_okD(1) [OF mutex_weak_views_ok [OF assms]]
  by (auto simp: mutex_code_orders_def)

text \<open>The first load of \<open>await_suspend\<close> could as well be relaxed.\<close>

lemma mutex_first_load_relaxed:
  "mutex_weak_reach (mutex_code_orders\<lparr> mo_load := False \<rparr>) on_worker z \<Longrightarrow> \<not> mv_race (snd z)"
  using mutex_weak_views_ok views_okD(1) by (fastforce simp: mutex_code_orders_def)

text \<open>Executions; events that are not possible are skipped.\<close>

datatype weak_mutex_event = WLock addr handle addr nat | WTry addr nat | WHold addr addr | WAccess addr

fun weak_mutex_run :: "mutex_orders \<Rightarrow> weak_mutex_event list \<Rightarrow> weak_mutex \<Rightarrow> weak_mutex" where
  "weak_mutex_run ord [] z = z"
| "weak_mutex_run ord (WLock a h sched n # es) z = weak_mutex_run ord es
     (if mx_pc (fst z) a = MIdle \<and> aligned8 a \<and> a \<noteq> nullptr \<and> sched \<noteq> nullptr then weak_lock_begin ord a h sched n z else z)"
| "weak_mutex_run ord (WTry a n # es) z = weak_mutex_run ord es
     (case mx_pc (fst z) a of MTry old \<Rightarrow> weak_lock_try ord a old n False z | _ \<Rightarrow> z)"
| "weak_mutex_run ord (WHold a sched # es) z = weak_mutex_run ord es (weak_holder_step ord a sched z)"
| "weak_mutex_run ord (WAccess a # es) z = weak_mutex_run ord es (guarded_access a z)"

lemma weak_mutex_run_reach: "mutex_weak_reach ord on_worker z \<Longrightarrow> mutex_weak_reach ord on_worker (weak_mutex_run ord es z)"
proof (induction ord es z rule: weak_mutex_run.induct)
  case (3 ord a n es z)
  have "mutex_weak_reach ord on_worker (case mx_pc (fst z) a of MTry old \<Rightarrow> weak_lock_try ord a old n False z | _ \<Rightarrow> z)"
    using "3.prems" mw_try by (cases "mx_pc (fst z) a") auto
  then show ?case
    using "3.IH" by simp
next
  case (2 ord a h sched n es z)
  show ?case
    using "2.IH" "2.prems" mw_lock [OF "2.prems", of a sched h n] by simp
qed (auto intro: mw_unlock mw_access)

abbreviation weak_mutex_start :: weak_mutex where
  "weak_mutex_start \<equiv> (mutex_init no_awaiters, mutex_views_init)"

text \<open>Both coroutines work under the lock; the second one first sees the mutex as free, queues and gets it.\<close>

definition contended :: "weak_mutex_event list" where
  "contended = [WLock 8 80 4096 0, WTry 8 0, WAccess 8, WLock 16 160 8192 0, WTry 16 1, WTry 16 1,
     WHold 8 4096, WHold 8 4096, WHold 8 4096, WHold 8 4096, WAccess 16]"

text \<open>Views of the coroutines 8 and 16 in a form that evaluates.\<close>

definition seen_view :: "nat \<Rightarrow> nat \<Rightarrow> nat \<Rightarrow> nat \<Rightarrow> nat \<Rightarrow> mutex_loc view" where
  "seen_view st hh dt x y l = (case l of MxState \<Rightarrow> st | MxHead \<Rightarrow> hh | MxData \<Rightarrow> dt
     | MxAwaiter a \<Rightarrow> if a = 8 then x else if a = 16 then y else 0)"

definition both :: "mutex_loc view \<Rightarrow> mutex_loc view \<Rightarrow> addr \<Rightarrow> mutex_loc view" where
  "both v w a = (if a = 8 then v else if a = 16 then w else seen_view 0 0 0 0 0)"

lemma seen_view_simps:
  "seen_view st hh dt x y MxState = st" "seen_view st hh dt x y MxHead = hh" "seen_view st hh dt x y MxData = dt"
  "seen_view st hh dt x y (MxAwaiter 8) = x" "seen_view st hh dt x y (MxAwaiter 16) = y"
  "(seen_view st hh dt x y)(MxState := n) = seen_view n hh dt x y" "(seen_view st hh dt x y)(MxHead := n) = seen_view st n dt x y"
  "(seen_view st hh dt x y)(MxData := n) = seen_view st hh n x y" "(seen_view st hh dt x y)(MxAwaiter 8 := n) = seen_view st hh dt n y"
  "(seen_view st hh dt x y)(MxAwaiter 16 := n) = seen_view st hh dt x n"
  "sup (seen_view st hh dt x y) (seen_view st' hh' dt' x' y') = seen_view (max st st') (max hh hh') (max dt dt') (max x x') (max y y')"
  by (auto simp: seen_view_def fun_eq_iff sup_nat_def split: mutex_loc.split)

lemma both_simps:
  "both v w 8 = v" "both v w 16 = w" "(both v w)(8 := u) = both u w" "(both v w)(16 := u) = both v u"
  by (auto simp: both_def fun_eq_iff)

lemma mutex_start_eq:
  "mutex_views_init = \<lparr> mv_mem = \<lparr> wm_stores = (\<lambda>_. [(UNLOCKED, seen_view 0 0 0 0 0)]), wm_writes = seen_view 0 0 0 0 0 \<rparr>,
     mv_view = both (seen_view 0 0 0 0 0) (seen_view 0 0 0 0 0), mv_race = False \<rparr>"
proof -
  have "seen_view 0 0 0 0 0 = (\<lambda>_. 0)"
    by (simp add: seen_view_def fun_eq_iff split: mutex_loc.split)
  then show ?thesis by (simp add: mutex_views_init_def both_def fun_eq_iff)
qed

lemma zero_at: "(\<lambda>_. 0)(MxState := n) = seen_view n 0 0 0 0"
  by (auto simp: seen_view_def fun_eq_iff split: mutex_loc.split)

lemmas mutex_run_simps = weak_lock_begin_def weak_lock_try_def weak_holder_step_def views_unlock_def guarded_access_def
  touch_def state_load_def state_rmw_def weak_load_def weak_rmw_def plain_access_def races_def read_at_def newest_def
  lock_begin_def lock_try_def holder_step_def unlock_begin_def unlock_xchg_def unlock_cas_def unlock_xchg2_def unlock_rev_def
  unlock_pop_def set_pc_def mutex_init_def no_awaiters_def UNLOCKED_def LOCKED_NO_WAITERS_def aligned8_def TAG_MASK_def
  mutex_code_orders_def Let_def seen_view_simps both_simps zero_at mutex_start_eq chain_nodes.simps reverse_waiters.simps

theorem mutex_protects_witness:
  "mx_pc (fst (weak_mutex_run mutex_code_orders contended weak_mutex_start)) 16 = MHolds
   \<and> mx_pc (fst (weak_mutex_run mutex_code_orders contended weak_mutex_start)) 8 = MIdle
   \<and> \<not> mv_race (snd (weak_mutex_run mutex_code_orders contended weak_mutex_start))"
proof -
  have "mx_pc (fst (weak_mutex_run mutex_code_orders contended weak_mutex_start)) 16 = MHolds"
    and "mx_pc (fst (weak_mutex_run mutex_code_orders contended weak_mutex_start)) 8 = MIdle"
    by (simp_all add: contended_def mutex_run_simps)
  then show ?thesis
    using mutex_protects [OF weak_mutex_run_reach [OF mw_start]] by blast
qed

text \<open>The other four orders are needed: with any of them relaxed some execution races.\<close>

lemma mutex_orders_needed:
  assumes "ord \<in> {mutex_code_orders\<lparr> mo_lock := False \<rparr>, mutex_code_orders\<lparr> mo_unlock := False \<rparr>,
      mutex_code_orders\<lparr> mo_queue := False \<rparr>, mutex_code_orders\<lparr> mo_xchg := False \<rparr>}"
  shows "\<exists>z. mutex_weak_reach ord on_worker z \<and> mv_race (snd z)"
proof -
  let ?free = "[WLock 8 80 4096 0, WTry 8 0, WAccess 8, WHold 8 4096, WHold 8 4096, WHold 8 4096,
      WLock 16 160 8192 0, WTry 16 0, WAccess 16]"
  have "mv_race (snd (weak_mutex_run (mutex_code_orders\<lparr> mo_lock := False \<rparr>) ?free weak_mutex_start))"
    "mv_race (snd (weak_mutex_run (mutex_code_orders\<lparr> mo_unlock := False \<rparr>) ?free weak_mutex_start))"
    "mv_race (snd (weak_mutex_run (mutex_code_orders\<lparr> mo_queue := False \<rparr>) contended weak_mutex_start))"
    "mv_race (snd (weak_mutex_run (mutex_code_orders\<lparr> mo_xchg := False \<rparr>) contended weak_mutex_start))"
    by (simp_all add: contended_def mutex_run_simps)
  moreover have "mutex_weak_reach ord on_worker (weak_mutex_run ord es weak_mutex_start)" for es
    by (rule weak_mutex_run_reach [OF mw_start])
  ultimately show ?thesis
    using assms by (elim insertE emptyE) blast+
qed

end
