(* ===== verification/Event.thy ===== *)
theory Event
  imports Novaio_Prelude
begin

text \<open>
  \<open>Event\<close> of \<open>include/novaio/event.hpp\<close>: a one-shot event with a list of waiters under a
  \<open>std::mutex\<close>. The awaiting coroutines (named by the address of their \<open>Awaiter\<close>) and any number of
  threads calling \<open>set\<close> (named by numbers) interleave at their accesses to \<open>signaled_\<close>, the mutex
  and the list.
\<close>

section \<open>State\<close>

record event_awaiter =
  ea_coro :: handle
  ea_sched :: addr
  ea_next :: addr

datatype await_pc =
    EIdle
  | EWantLock        \<comment> \<open>\<open>await_ready\<close> was false, the awaiter is filled in\<close>
  | ELocked          \<comment> \<open>in \<open>await_suspend\<close>, mutex held\<close>
  | EChecked         \<comment> \<open>\<open>signaled_\<close> was false under the mutex\<close>
  | EPushed          \<comment> \<open>in the list, mutex still held\<close>
  | ERefused         \<comment> \<open>\<open>signaled_\<close> was true, mutex still held\<close>
  | EParked          \<comment> \<open>\<open>await_suspend\<close> returned true\<close>
  | EThrough         \<comment> \<open>did not suspend\<close>
  | EResumed

datatype setter_pc =
    SIdle
  | SWantLock        \<comment> \<open>the exchange returned false\<close>
  | SLocked
  | STook addr       \<comment> \<open>list taken, mutex still held\<close>
  | SLoop addr
  | SDone

datatype mutex_owner = NoOwner | AwaiterOwns addr | SetterOwns nat

text \<open>How \<open>resume_waiter\<close> continues a coroutine: on the current scheduler, by a task dispatched to
  the waiter's core, or right here when it had no scheduler. A null coroutine is skipped.\<close>

datatype resume_kind = ResumeLocal handle | ResumeDispatched addr handle | ResumeInline handle | ResumeNone

record event_sys =
  ev_signaled :: bool
  ev_mutex :: mutex_owner
  ev_waiters :: addr
  ev_awaiters :: "addr \<Rightarrow> event_awaiter"
  ev_await_pc :: "addr \<Rightarrow> await_pc"
  ev_set_pc :: "nat \<Rightarrow> setter_pc"
  ev_resumed :: "(addr \<times> resume_kind) list"
  ev_taken :: bool    \<comment> \<open>history: some \<open>set\<close> has taken the list\<close>

definition event_init :: "(addr \<Rightarrow> event_awaiter) \<Rightarrow> event_sys" where
  "event_init aw = \<lparr> ev_signaled = False, ev_mutex = NoOwner, ev_waiters = nullptr, ev_awaiters = aw,
     ev_await_pc = (\<lambda>_. EIdle), ev_set_pc = (\<lambda>_. SIdle), ev_resumed = [], ev_taken = False \<rparr>"

definition at_await :: "addr \<Rightarrow> await_pc \<Rightarrow> event_sys \<Rightarrow> event_sys" where
  "at_await a pc s = s\<lparr> ev_await_pc := (ev_await_pc s)(a := pc) \<rparr>"

definition at_set :: "nat \<Rightarrow> setter_pc \<Rightarrow> event_sys \<Rightarrow> event_sys" where
  "at_set i pc s = s\<lparr> ev_set_pc := (ev_set_pc s)(i := pc) \<rparr>"

section \<open>Awaiting\<close>

text \<open>\<open>seen\<close> is what the load of \<open>signaled_\<close> returned: it may be behind the flag.\<close>

definition event_await :: "addr \<Rightarrow> handle \<Rightarrow> addr \<Rightarrow> bool \<Rightarrow> event_sys \<Rightarrow> event_sys" where
  "event_await a h sched seen s =
     (if seen then at_await a EThrough s
      else at_await a EWantLock (s\<lparr> ev_awaiters := (ev_awaiters s)(a :=
             \<lparr> ea_coro = h, ea_sched = sched, ea_next = nullptr \<rparr>) \<rparr>))"

text \<open>The next access of the awaiter; taking the mutex waits until it is free. \<open>seen\<close> is used by the load only.\<close>

definition await_step :: "addr \<Rightarrow> bool \<Rightarrow> event_sys \<Rightarrow> event_sys" where
  "await_step a seen s =
     (case ev_await_pc s a of
        EWantLock \<Rightarrow>
          (if ev_mutex s = NoOwner then at_await a ELocked (s\<lparr> ev_mutex := AwaiterOwns a \<rparr>) else s)
      | ELocked \<Rightarrow> at_await a (if seen then ERefused else EChecked) s
      | EChecked \<Rightarrow> at_await a EPushed (s\<lparr> ev_awaiters := (ev_awaiters s)(a :=
             (ev_awaiters s a)\<lparr> ea_next := ev_waiters s \<rparr>), ev_waiters := a \<rparr>)
      | EPushed \<Rightarrow> at_await a EParked (s\<lparr> ev_mutex := NoOwner \<rparr>)
      | ERefused \<Rightarrow> at_await a EThrough (s\<lparr> ev_mutex := NoOwner \<rparr>)
      | _ \<Rightarrow> s)"

section \<open>Setting\<close>

definition resume_waiter :: "addr \<Rightarrow> addr \<Rightarrow> handle \<Rightarrow> resume_kind" where
  "resume_waiter current_sched sched coro =
     (if coro = nullptr then ResumeNone
      else if sched \<noteq> nullptr \<and> current_sched = sched then ResumeLocal coro
      else if sched \<noteq> nullptr then ResumeDispatched sched coro
      else ResumeInline coro)"

definition set_step :: "nat \<Rightarrow> addr \<Rightarrow> event_sys \<Rightarrow> event_sys" where
  "set_step i current_sched s =
     (case ev_set_pc s i of
        SIdle \<Rightarrow> at_set i (if ev_signaled s then SDone else SWantLock) (s\<lparr> ev_signaled := True \<rparr>)
      | SWantLock \<Rightarrow>
          (if ev_mutex s = NoOwner then at_set i SLocked (s\<lparr> ev_mutex := SetterOwns i \<rparr>) else s)
      | SLocked \<Rightarrow> at_set i (STook (ev_waiters s)) (s\<lparr> ev_waiters := nullptr, ev_taken := True \<rparr>)
      | STook w \<Rightarrow> at_set i (SLoop w) (s\<lparr> ev_mutex := NoOwner \<rparr>)
      | SLoop w \<Rightarrow>
          (if w = nullptr then at_set i SDone s
           else (let aw = ev_awaiters s w in
                 at_await w EResumed (at_set i (SLoop (ea_next aw))
                   (s\<lparr> ev_resumed := ev_resumed s @ [(w, resume_waiter current_sched (ea_sched aw) (ea_coro aw))] \<rparr>))))
      | SDone \<Rightarrow> s)"

text \<open>Under the mutex the load is not behind once \<open>set\<close> has had the mutex to take the list.\<close>

inductive event_reach :: "event_sys \<Rightarrow> bool" where
  event_start: "event_reach (event_init aw)"
| event_wait: "event_reach s \<Longrightarrow> ev_await_pc s a = EIdle \<Longrightarrow> a \<noteq> nullptr \<Longrightarrow> (seen \<longrightarrow> ev_signaled s) \<Longrightarrow>
     event_reach (event_await a h sched seen s)"
| event_await_step: "event_reach s \<Longrightarrow>
     (ev_await_pc s a = ELocked \<longrightarrow> (seen \<longrightarrow> ev_signaled s) \<and> (ev_taken s \<longrightarrow> seen)) \<Longrightarrow> event_reach (await_step a seen s)"
| event_set_step: "event_reach s \<Longrightarrow> event_reach (set_step i sched s)"

section \<open>The invariant\<close>

fun epath :: "(addr \<Rightarrow> event_awaiter) \<Rightarrow> addr \<Rightarrow> addr list \<Rightarrow> bool" where
  "epath aw c [] \<longleftrightarrow> c = nullptr"
| "epath aw c (x # xs) \<longleftrightarrow> c = x \<and> x \<noteq> nullptr \<and> epath aw (ea_next (aw x)) xs"

lemma epath_upd [simp]: "x \<notin> set xs \<Longrightarrow> epath (aw(x := w)) c xs = epath aw c xs"
  by (induction xs arbitrary: c) auto

lemma epath_null [simp]: "epath aw 0 xs \<longleftrightarrow> xs = []"
  by (cases xs) auto

definition in_section :: "await_pc \<Rightarrow> bool" where
  "in_section pc \<longleftrightarrow> pc \<in> {ELocked, EChecked, EPushed, ERefused}"

definition parked :: "await_pc \<Rightarrow> bool" where
  "parked pc \<longleftrightarrow> pc \<in> {EPushed, EParked}"

fun set_active :: "setter_pc \<Rightarrow> bool" where
  "set_active SIdle \<longleftrightarrow> False"
| "set_active SDone \<longleftrightarrow> False"
| "set_active _ \<longleftrightarrow> True"

fun set_in_section :: "setter_pc \<Rightarrow> bool" where
  "set_in_section SLocked \<longleftrightarrow> True"
| "set_in_section (STook _) \<longleftrightarrow> True"
| "set_in_section _ \<longleftrightarrow> False"

text \<open>The setter's part: before it has taken the list, and the list \<open>cs\<close> it still has to resume.\<close>

fun setter_ok :: "(addr \<Rightarrow> event_awaiter) \<Rightarrow> bool \<Rightarrow> addr list \<Rightarrow> setter_pc \<Rightarrow> bool" where
  "setter_ok aw tk cs SWantLock \<longleftrightarrow> \<not> tk \<and> cs = []"
| "setter_ok aw tk cs SLocked \<longleftrightarrow> \<not> tk \<and> cs = []"
| "setter_ok aw tk cs (STook w) \<longleftrightarrow> tk \<and> epath aw w cs"
| "setter_ok aw tk cs (SLoop w) \<longleftrightarrow> tk \<and> epath aw w cs"
| "setter_ok aw tk cs _ \<longleftrightarrow> True"

definition mutex_ok :: "event_sys \<Rightarrow> bool" where
  "mutex_ok s \<longleftrightarrow> (\<forall>a. in_section (ev_await_pc s a) \<longleftrightarrow> ev_mutex s = AwaiterOwns a)
     \<and> (\<forall>i. set_in_section (ev_set_pc s i) \<longleftrightarrow> ev_mutex s = SetterOwns i)"

definition lists_ok :: "event_sys \<Rightarrow> addr list \<Rightarrow> addr list \<Rightarrow> bool" where
  "lists_ok s ws cs \<longleftrightarrow>
     epath (ev_awaiters s) (ev_waiters s) ws \<and> distinct (ws @ cs)
     \<and> (\<forall>a. parked (ev_await_pc s a) \<longleftrightarrow> a \<in> set ws \<union> set cs)
     \<and> (\<forall>a\<in>set cs. ev_await_pc s a = EParked)
     \<and> ev_await_pc s nullptr = EIdle
     \<and> distinct (map fst (ev_resumed s)) \<and> (\<forall>a. a \<in> set (map fst (ev_resumed s)) \<longleftrightarrow> ev_await_pc s a = EResumed)"

definition setters_ok :: "event_sys \<Rightarrow> addr list \<Rightarrow> addr list \<Rightarrow> bool" where
  "setters_ok s ws cs \<longleftrightarrow>
     (\<forall>i j. set_active (ev_set_pc s i) \<longrightarrow> set_active (ev_set_pc s j) \<longrightarrow> i = j)
     \<and> (\<forall>i. setter_ok (ev_awaiters s) (ev_taken s) cs (ev_set_pc s i))
     \<and> (\<forall>i. ev_set_pc s i \<noteq> SIdle \<longrightarrow> ev_signaled s)
     \<and> (ev_taken s \<longrightarrow> ev_signaled s \<and> ws = [] \<and> (\<forall>a. ev_await_pc s a \<noteq> EChecked))
     \<and> (ev_signaled s \<and> \<not> ev_taken s \<longrightarrow> (\<exists>i. ev_set_pc s i \<in> {SWantLock, SLocked}))
     \<and> ((\<forall>i. \<not> set_active (ev_set_pc s i)) \<longrightarrow> cs = [])"

definition event_inv :: "event_sys \<Rightarrow> bool" where
  "event_inv s \<longleftrightarrow> mutex_ok s \<and> (\<exists>ws cs. lists_ok s ws cs \<and> setters_ok s ws cs)"

lemma event_invI: "mutex_ok s \<Longrightarrow> lists_ok s ws cs \<Longrightarrow> setters_ok s ws cs \<Longrightarrow> event_inv s"
  unfolding event_inv_def by blast

lemma event_invE:
  assumes "event_inv s"
  obtains ws cs where "mutex_ok s" and "lists_ok s ws cs" and "setters_ok s ws cs"
  using assms unfolding event_inv_def by blast

lemma inv_event_init: "event_inv (event_init aw)"
  by (rule event_invI [of _ "[]" "[]"])
    (simp_all add: event_init_def mutex_ok_def lists_ok_def setters_ok_def in_section_def parked_def)

section \<open>Every step keeps it\<close>

lemma at_sel [simp]:
  "ev_signaled (at_await a pc s) = ev_signaled s" "ev_mutex (at_await a pc s) = ev_mutex s"
  "ev_waiters (at_await a pc s) = ev_waiters s" "ev_awaiters (at_await a pc s) = ev_awaiters s"
  "ev_await_pc (at_await a pc s) = (ev_await_pc s)(a := pc)" "ev_set_pc (at_await a pc s) = ev_set_pc s"
  "ev_resumed (at_await a pc s) = ev_resumed s" "ev_taken (at_await a pc s) = ev_taken s"
  "ev_signaled (at_set i spc s) = ev_signaled s" "ev_mutex (at_set i spc s) = ev_mutex s"
  "ev_waiters (at_set i spc s) = ev_waiters s" "ev_awaiters (at_set i spc s) = ev_awaiters s"
  "ev_await_pc (at_set i spc s) = ev_await_pc s" "ev_set_pc (at_set i spc s) = (ev_set_pc s)(i := spc)"
  "ev_resumed (at_set i spc s) = ev_resumed s" "ev_taken (at_set i spc s) = ev_taken s"
  by (simp_all add: at_await_def at_set_def)

lemma setter_ok_upd:
  "a \<notin> set cs \<Longrightarrow> setter_ok (aw(a := w)) tk cs pc = setter_ok aw tk cs pc"
  by (cases pc) simp_all

lemma lists_okD:
  assumes "lists_ok s ws cs"
  shows "epath (ev_awaiters s) (ev_waiters s) ws" and "distinct (ws @ cs)"
    and "parked (ev_await_pc s a) \<longleftrightarrow> a \<in> set ws \<union> set cs"
    and "ev_await_pc s nullptr = EIdle"
    and "distinct (map fst (ev_resumed s))" and "a \<in> set (map fst (ev_resumed s)) \<longleftrightarrow> ev_await_pc s a = EResumed"
    and "a \<in> set cs \<Longrightarrow> ev_await_pc s a = EParked"
  using assms unfolding lists_ok_def by blast+

lemma setters_okD:
  assumes "setters_ok s ws cs"
  shows "set_active (ev_set_pc s i) \<Longrightarrow> set_active (ev_set_pc s j) \<Longrightarrow> i = j"
    and "setter_ok (ev_awaiters s) (ev_taken s) cs (ev_set_pc s i)"
    and "ev_set_pc s i \<noteq> SIdle \<Longrightarrow> ev_signaled s"
    and "ev_taken s \<Longrightarrow> ev_signaled s \<and> ws = []"
    and "ev_taken s \<Longrightarrow> ev_await_pc s a \<noteq> EChecked"
    and "ev_signaled s \<Longrightarrow> \<not> ev_taken s \<Longrightarrow> \<exists>i. ev_set_pc s i \<in> {SWantLock, SLocked}"
    and "(\<And>i. \<not> set_active (ev_set_pc s i)) \<Longrightarrow> cs = []"
  using assms unfolding setters_ok_def by blast+

lemma setters_okI:
  assumes "\<And>i j. set_active (ev_set_pc s i) \<Longrightarrow> set_active (ev_set_pc s j) \<Longrightarrow> i = j"
    and "\<And>i. setter_ok (ev_awaiters s) (ev_taken s) cs (ev_set_pc s i)"
    and "\<And>i. ev_set_pc s i \<noteq> SIdle \<Longrightarrow> ev_signaled s"
    and "ev_taken s \<Longrightarrow> ev_signaled s \<and> ws = []"
    and "\<And>a. ev_taken s \<Longrightarrow> ev_await_pc s a \<noteq> EChecked"
    and "ev_signaled s \<Longrightarrow> \<not> ev_taken s \<Longrightarrow> \<exists>i. ev_set_pc s i \<in> {SWantLock, SLocked}"
    and "(\<And>i. \<not> set_active (ev_set_pc s i)) \<Longrightarrow> cs = []"
  shows "setters_ok s ws cs"
  using assms unfolding setters_ok_def by blast

text \<open>A step of an awaiter between program points that keep its place in the lists.\<close>

lemma await_move:
  assumes inv: "mutex_ok s" "lists_ok s ws cs" "setters_ok s ws cs"
    and a: "a \<noteq> nullptr" "ev_await_pc s a \<noteq> EResumed" "pc \<noteq> EResumed" "parked pc = parked (ev_await_pc s a)"
    and still: "ev_await_pc s a = EParked \<Longrightarrow> pc = EParked"
    and checked: "pc = EChecked \<Longrightarrow> \<not> ev_taken s"
    and m: "in_section pc \<longleftrightarrow> m = AwaiterOwns a" "in_section (ev_await_pc s a) \<or> ev_mutex s = NoOwner \<or> m = ev_mutex s"
    and m2: "m = NoOwner \<or> m = AwaiterOwns a \<or> m = ev_mutex s"
  shows "event_inv (at_await a pc (s\<lparr> ev_mutex := m \<rparr>))"
proof (rule event_invI [of _ ws cs])
  let ?s = "at_await a pc (s\<lparr> ev_mutex := m \<rparr>)"
  have own: "in_section (ev_await_pc s b) \<longleftrightarrow> ev_mutex s = AwaiterOwns b" "set_in_section (ev_set_pc s i) \<longleftrightarrow> ev_mutex s = SetterOwns i" for b i
    using inv(1) unfolding mutex_ok_def by blast+
  show "mutex_ok ?s"
    unfolding mutex_ok_def using own m m2 by auto
  show "lists_ok ?s ws cs"
    using inv(2) a still unfolding lists_ok_def by auto
  show "setters_ok ?s ws cs"
    using inv(3) checked unfolding setters_ok_def by auto
qed

lemma inv_event_await:
  assumes "event_inv s" and "ev_await_pc s a = EIdle" and "a \<noteq> nullptr"
  shows "event_inv (event_await a h sched seen s)"
proof -
  obtain ws cs where inv: "mutex_ok s" "lists_ok s ws cs" "setters_ok s ws cs"
    by (rule event_invE [OF assms(1)])
  have out: "a \<notin> set ws" "a \<notin> set cs"
    using lists_okD(3) [OF inv(2), of a] assms(2) by (auto simp: parked_def)
  let ?s = "s\<lparr> ev_awaiters := (ev_awaiters s)(a := \<lparr> ea_coro = h, ea_sched = sched, ea_next = nullptr \<rparr>) \<rparr>"
  have inv': "mutex_ok ?s" "lists_ok ?s ws cs" "setters_ok ?s ws cs"
    using inv out by (simp_all add: mutex_ok_def lists_ok_def setters_ok_def setter_ok_upd)
  have "\<not> in_section (ev_await_pc s a)"
    using assms(2) by (simp add: in_section_def)
  then have notowner: "ev_mutex s \<noteq> AwaiterOwns a"
    using inv(1) unfolding mutex_ok_def by blast
  have w1: "event_inv (at_await a EThrough (s\<lparr> ev_mutex := ev_mutex s \<rparr>))"
    using assms notowner by (intro await_move [OF inv]) (auto simp: parked_def in_section_def)
  have w2: "event_inv (at_await a EWantLock (?s\<lparr> ev_mutex := ev_mutex s \<rparr>))"
    using assms notowner by (intro await_move [OF inv']) (auto simp: parked_def in_section_def)
  have "s\<lparr> ev_mutex := ev_mutex s \<rparr> = s" "?s\<lparr> ev_mutex := ev_mutex s \<rparr> = ?s"
    by simp_all
  then show ?thesis
    using w1 w2 by (simp add: event_await_def)
qed

lemma inv_await_push:
  assumes "event_inv s" and "ev_await_pc s a = EChecked"
  shows "event_inv (await_step a seen s)"
proof -
  obtain ws cs where inv: "mutex_ok s" "lists_ok s ws cs" "setters_ok s ws cs"
    by (rule event_invE [OF assms(1)])
  have a: "a \<noteq> nullptr" "a \<notin> set ws" "a \<notin> set cs"
    using lists_okD(3) [OF inv(2), of a] lists_okD(4) [OF inv(2)] assms(2) by (auto simp: parked_def)
  have nt: "\<not> ev_taken s"
    using setters_okD(5) [OF inv(3), of a] assms(2) by auto
  have step: "await_step a seen s = at_await a EPushed (s\<lparr> ev_awaiters := (ev_awaiters s)(a :=
             (ev_awaiters s a)\<lparr> ea_next := ev_waiters s \<rparr>), ev_waiters := a \<rparr>)"
    using assms(2) by (simp add: await_step_def)
  show ?thesis
    unfolding step
  proof (rule event_invI [of _ "a # ws" cs])
    show "mutex_ok (at_await a EPushed (s\<lparr> ev_awaiters := (ev_awaiters s)(a :=
             (ev_awaiters s a)\<lparr> ea_next := ev_waiters s \<rparr>), ev_waiters := a \<rparr>))"
      using inv(1) assms(2) unfolding mutex_ok_def by (auto simp: in_section_def)
    show "lists_ok (at_await a EPushed (s\<lparr> ev_awaiters := (ev_awaiters s)(a :=
             (ev_awaiters s a)\<lparr> ea_next := ev_waiters s \<rparr>), ev_waiters := a \<rparr>)) (a # ws) cs"
      using inv(2) a assms(2) unfolding lists_ok_def by (auto simp: parked_def)
    show "setters_ok (at_await a EPushed (s\<lparr> ev_awaiters := (ev_awaiters s)(a :=
             (ev_awaiters s a)\<lparr> ea_next := ev_waiters s \<rparr>), ev_waiters := a \<rparr>)) (a # ws) cs"
      using inv(3) a nt unfolding setters_ok_def by (simp add: setter_ok_upd)
  qed
qed

lemma inv_await_step:
  assumes "event_inv s" and "ev_await_pc s a = ELocked \<Longrightarrow> ev_taken s \<Longrightarrow> seen"
  shows "event_inv (await_step a seen s)"
proof -
  obtain ws cs where inv: "mutex_ok s" "lists_ok s ws cs" "setters_ok s ws cs"
    by (rule event_invE [OF assms(1)])
  have a: "a \<noteq> nullptr" if "ev_await_pc s a \<noteq> EIdle"
    using lists_okD(4) [OF inv(2)] that by auto
  have owner: "in_section (ev_await_pc s a) \<Longrightarrow> ev_mutex s = AwaiterOwns a"
    using inv(1) unfolding mutex_ok_def by blast
  have same: "s\<lparr> ev_mutex := ev_mutex s \<rparr> = s"
    by simp
  show ?thesis
  proof (cases "ev_await_pc s a")
    case EWantLock
    have "event_inv (at_await a ELocked (s\<lparr> ev_mutex := AwaiterOwns a \<rparr>))" if "ev_mutex s = NoOwner"
      using a that EWantLock by (intro await_move [OF inv]) (auto simp: parked_def in_section_def)
    then show ?thesis
      using EWantLock assms by (simp add: await_step_def)
  next
    case ELocked
    have "event_inv (at_await a (if seen then ERefused else EChecked) (s\<lparr> ev_mutex := ev_mutex s \<rparr>))"
      using a ELocked owner assms(2) by (intro await_move [OF inv]) (auto simp: parked_def in_section_def)
    then show ?thesis
      unfolding same using ELocked by (simp add: await_step_def)
  next
    case EChecked
    then show ?thesis
      using inv_await_push [OF assms(1)] by simp
  next
    case EPushed
    have "event_inv (at_await a EParked (s\<lparr> ev_mutex := NoOwner \<rparr>))"
      using a EPushed owner by (intro await_move [OF inv]) (auto simp: parked_def in_section_def)
    then show ?thesis
      using EPushed by (simp add: await_step_def)
  next
    case ERefused
    have "event_inv (at_await a EThrough (s\<lparr> ev_mutex := NoOwner \<rparr>))"
      using a ERefused owner by (intro await_move [OF inv]) (auto simp: parked_def in_section_def)
    then show ?thesis
      using ERefused by (simp add: await_step_def)
  qed (simp_all add: await_step_def assms)
qed

lemma inv_set_step:
  assumes "event_inv s"
  shows "event_inv (set_step i sched s)"
proof -
  obtain ws cs where inv: "mutex_ok s" "lists_ok s ws cs" "setters_ok s ws cs"
    by (rule event_invE [OF assms(1)])
  have own: "in_section (ev_await_pc s b) \<longleftrightarrow> ev_mutex s = AwaiterOwns b"
    "set_in_section (ev_set_pc s j) \<longleftrightarrow> ev_mutex s = SetterOwns j" for b j
    using inv(1) unfolding mutex_ok_def by blast+
  note sD = setters_okD [OF inv(3)]
  have only: "set_active (ev_set_pc s i) \<Longrightarrow> j \<noteq> i \<Longrightarrow> \<not> set_active (ev_set_pc s j)" for j
    using sD(1) [of i j] by blast
  have notmine: "\<not> set_in_section (ev_set_pc s i) \<Longrightarrow> ev_mutex s \<noteq> SetterOwns i"
    using own(2) [of i] by simp
  have inactive_ok: "\<not> set_active pc \<Longrightarrow> setter_ok aw tk l pc" for aw tk l pc
    by (cases pc) simp_all
  show ?thesis
  proof (cases "ev_set_pc s i")
    case SIdle
    show ?thesis
    proof (cases "ev_signaled s")
      case True
      have "event_inv (at_set i SDone (s\<lparr> ev_signaled := True \<rparr>))"
      proof (rule event_invI [of _ ws cs])
        show "mutex_ok (at_set i SDone (s\<lparr> ev_signaled := True \<rparr>))"
          using own SIdle notmine unfolding mutex_ok_def by auto
        show "lists_ok (at_set i SDone (s\<lparr> ev_signaled := True \<rparr>)) ws cs"
          using inv(2) by (simp add: lists_ok_def)
        show "setters_ok (at_set i SDone (s\<lparr> ev_signaled := True \<rparr>)) ws cs"
        proof (rule setters_okI)
          fix j k
          assume "set_active (ev_set_pc (at_set i SDone (s\<lparr> ev_signaled := True \<rparr>)) j)"
            and "set_active (ev_set_pc (at_set i SDone (s\<lparr> ev_signaled := True \<rparr>)) k)"
          then show "j = k"
            using sD(1) [of j k] by (simp split: if_splits)
        next
          assume "\<not> ev_taken (at_set i SDone (s\<lparr> ev_signaled := True \<rparr>))"
          then obtain j where "ev_set_pc s j \<in> {SWantLock, SLocked}"
            using sD(6) True by auto
          then show "\<exists>j. ev_set_pc (at_set i SDone (s\<lparr> ev_signaled := True \<rparr>)) j \<in> {SWantLock, SLocked}"
            using SIdle by (intro exI [of _ j]) auto
        next
          assume none: "\<And>j. \<not> set_active (ev_set_pc (at_set i SDone (s\<lparr> ev_signaled := True \<rparr>)) j)"
          have "\<not> set_active (ev_set_pc s j)" for j
            using none [of j] SIdle by (cases "j = i") auto
          then show "cs = []"
            by (rule sD(7))
        qed (use sD(2,4,5) in auto)
      qed
      then show ?thesis
        using SIdle True by (simp add: set_step_def)
    next
      case False
      then have idle: "ev_set_pc s j = SIdle" for j
        using sD(3) [of j] by blast
      have nt: "\<not> ev_taken s" and cs: "cs = []"
        using False sD(4,7) idle by auto
      have "event_inv (at_set i SWantLock (s\<lparr> ev_signaled := True \<rparr>))"
      proof (rule event_invI [of _ ws cs])
        show "mutex_ok (at_set i SWantLock (s\<lparr> ev_signaled := True \<rparr>))"
          using own idle notmine unfolding mutex_ok_def by auto
        show "lists_ok (at_set i SWantLock (s\<lparr> ev_signaled := True \<rparr>)) ws cs"
          using inv(2) by (simp add: lists_ok_def)
        show "setters_ok (at_set i SWantLock (s\<lparr> ev_signaled := True \<rparr>)) ws cs"
          using nt cs idle unfolding setters_ok_def by (auto split: if_splits)
      qed
      then show ?thesis
        using SIdle False by (simp add: set_step_def)
    qed
  next
    case SWantLock
    show ?thesis
    proof (cases "ev_mutex s = NoOwner")
      case True
      have nt: "\<not> ev_taken s" and cs: "cs = []" and sig: "ev_signaled s"
        using sD(2) [of i] sD(3) [of i] SWantLock by auto
      have "event_inv (at_set i SLocked (s\<lparr> ev_mutex := SetterOwns i \<rparr>))"
      proof (rule event_invI [of _ ws cs])
        show "mutex_ok (at_set i SLocked (s\<lparr> ev_mutex := SetterOwns i \<rparr>))"
          using own True unfolding mutex_ok_def by auto
        show "lists_ok (at_set i SLocked (s\<lparr> ev_mutex := SetterOwns i \<rparr>)) ws cs"
          using inv(2) by (simp add: lists_ok_def)
        show "setters_ok (at_set i SLocked (s\<lparr> ev_mutex := SetterOwns i \<rparr>)) ws cs"
          using only SWantLock nt cs sig inactive_ok unfolding setters_ok_def by auto
      qed
      then show ?thesis
        using SWantLock True by (simp add: set_step_def)
    qed (use SWantLock assms in \<open>simp add: set_step_def\<close>)
  next
    case SLocked
    have nt: "\<not> ev_taken s" and cs: "cs = []" and sig: "ev_signaled s"
      using sD(2) [of i] sD(3) [of i] SLocked by auto
    have mine: "ev_mutex s = SetterOwns i"
      using own(2) [of i] SLocked by simp
    then have nochk: "ev_await_pc s a \<noteq> EChecked" for a
      using own(1) [of a] by (auto simp: in_section_def)
    let ?s = "at_set i (STook (ev_waiters s)) (s\<lparr> ev_waiters := nullptr, ev_taken := True \<rparr>)"
    have "event_inv ?s"
    proof (rule event_invI [of _ "[]" ws])
      show "mutex_ok ?s"
        using own mine unfolding mutex_ok_def by auto
      have "ev_await_pc s a = EParked" if "a \<in> set ws" for a
        using lists_okD(3) [OF inv(2), of a] own(1) [of a] mine that by (auto simp: parked_def in_section_def)
      then show "lists_ok ?s [] ws"
        using inv(2) cs by (simp add: lists_ok_def)
      show "setters_ok ?s [] ws"
        using only SLocked sig nochk inactive_ok lists_okD(1) [OF inv(2)] unfolding setters_ok_def by auto
    qed
    then show ?thesis
      using SLocked by (simp add: set_step_def)
  next
    case (STook w)
    have tk: "ev_taken s" "epath (ev_awaiters s) w cs"
      using sD(2) [of i] STook by auto
    have mine: "ev_mutex s = SetterOwns i"
      using own(2) [of i] STook by simp
    let ?s = "at_set i (SLoop w) (s\<lparr> ev_mutex := NoOwner \<rparr>)"
    have "event_inv ?s"
    proof (rule event_invI [of _ ws cs])
      show "mutex_ok ?s"
        using own mine unfolding mutex_ok_def by auto
      show "lists_ok ?s ws cs"
        using inv(2) by (simp add: lists_ok_def)
      show "setters_ok ?s ws cs"
        using only STook tk sD(4,5) inactive_ok unfolding setters_ok_def by auto
    qed
    then show ?thesis
      using STook by (simp add: set_step_def)
  next
    case (SLoop w)
    have tk: "ev_taken s" "epath (ev_awaiters s) w cs"
      using sD(2) [of i] SLoop by auto
    show ?thesis
    proof (cases "w = nullptr")
      case True
      have "event_inv (at_set i SDone s)"
      proof (rule event_invI [of _ ws cs])
        show "mutex_ok (at_set i SDone s)"
          using own notmine SLoop unfolding mutex_ok_def by auto
        show "lists_ok (at_set i SDone s) ws cs"
          using inv(2) by (simp add: lists_ok_def)
        show "setters_ok (at_set i SDone s) ws cs"
          using only SLoop tk True sD(4,5) inactive_ok unfolding setters_ok_def by auto
      qed
      then show ?thesis
        using SLoop True by (simp add: set_step_def)
    next
      case False
      then obtain ds where ds: "cs = w # ds" "epath (ev_awaiters s) (ea_next (ev_awaiters s w)) ds"
        using tk(2) by (cases cs) auto
      have w: "w \<notin> set ds" "w \<notin> set ws" "parked (ev_await_pc s w)"
        using lists_okD(2) [OF inv(2)] lists_okD(3) [OF inv(2), of w] ds(1) by auto
      have pw: "ev_await_pc s w = EParked" "ev_set_pc s i = SLoop w" "w \<noteq> nullptr"
        using lists_okD(7) [OF inv(2), of w] ds(1) SLoop False by auto
      have nw: "ev_mutex s \<noteq> AwaiterOwns w"
        using own(1) [of w] pw(1) by (simp add: in_section_def)
      let ?s = "at_await w EResumed (at_set i (SLoop (ea_next (ev_awaiters s w)))
        (s\<lparr> ev_resumed := ev_resumed s @ [(w, resume_waiter sched (ea_sched (ev_awaiters s w)) (ea_coro (ev_awaiters s w)))] \<rparr>))"
      have "event_inv ?s"
      proof (rule event_invI [of _ ws ds])
        show "mutex_ok ?s"
          using own pw nw notmine SLoop unfolding mutex_ok_def by (auto simp: in_section_def)
        show "lists_ok ?s ws ds"
          using inv(2) ds(1) pw w unfolding lists_ok_def by (auto simp: parked_def)
        show "setters_ok ?s ws ds"
          using only SLoop tk ds sD(4,5) inactive_ok unfolding setters_ok_def by auto
      qed
      then show ?thesis
        using SLoop False by (simp add: set_step_def Let_def)
    qed
  qed (simp add: set_step_def assms)
qed



lemma event_reach_inv: "event_reach s \<Longrightarrow> event_inv s"
  by (induction rule: event_reach.induct)
    (simp_all add: inv_event_init inv_event_await inv_await_step inv_set_step)

section \<open>Concrete runs\<close>

text \<open>Two coroutines wait; the second has read a clear flag when \<open>set\<close> is called, but gets the mutex
  before it.\<close>

definition event_sample0 :: event_sys where
  "event_sample0 =
     event_await 20 200 2 False (await_step 10 False (await_step 10 False (await_step 10 False (await_step 10 False
       (event_await 10 100 1 False (event_init (\<lambda>_. \<lparr> ea_coro = 0, ea_sched = 0, ea_next = 0 \<rparr>)))))))"

definition event_sample1 :: event_sys where
  "event_sample1 = await_step 20 False (await_step 20 False (set_step 0 1 (await_step 20 False (await_step 20 False event_sample0))))"

definition event_sample2 :: event_sys where
  "event_sample2 = set_step 0 1 (set_step 0 1 (set_step 0 1 event_sample1))"

definition event_sample :: event_sys where
  "event_sample = set_step 0 1 (set_step 0 1 (set_step 0 1 event_sample2))"

lemmas event_run = event_init_def event_await_def await_step_def set_step_def at_await_def at_set_def
  resume_waiter_def

lemma event_sample0_eq:
  "event_sample0 = \<lparr> ev_signaled = False, ev_mutex = NoOwner, ev_waiters = 10,
     ev_awaiters = (\<lambda>_. \<lparr> ea_coro = 0, ea_sched = 0, ea_next = 0 \<rparr>)
       (10 := \<lparr> ea_coro = 100, ea_sched = 1, ea_next = 0 \<rparr>, 20 := \<lparr> ea_coro = 200, ea_sched = 2, ea_next = 0 \<rparr>),
     ev_await_pc = (\<lambda>_. EIdle)(10 := EParked, 20 := EWantLock), ev_set_pc = (\<lambda>_. SIdle),
     ev_resumed = [], ev_taken = False \<rparr>"
  by (simp add: event_sample0_def event_run)

lemma event_sample1_eq:
  "event_sample1 = \<lparr> ev_signaled = True, ev_mutex = NoOwner, ev_waiters = 20,
     ev_awaiters = (\<lambda>_. \<lparr> ea_coro = 0, ea_sched = 0, ea_next = 0 \<rparr>)
       (10 := \<lparr> ea_coro = 100, ea_sched = 1, ea_next = 0 \<rparr>, 20 := \<lparr> ea_coro = 200, ea_sched = 2, ea_next = 10 \<rparr>),
     ev_await_pc = (\<lambda>_. EIdle)(10 := EParked, 20 := EParked), ev_set_pc = (\<lambda>_. SIdle)(0 := SWantLock),
     ev_resumed = [], ev_taken = False \<rparr>"
  by (simp add: event_sample1_def event_sample0_eq event_run)

lemma event_sample2_eq:
  "event_sample2 = \<lparr> ev_signaled = True, ev_mutex = NoOwner, ev_waiters = 0,
     ev_awaiters = (\<lambda>_. \<lparr> ea_coro = 0, ea_sched = 0, ea_next = 0 \<rparr>)
       (10 := \<lparr> ea_coro = 100, ea_sched = 1, ea_next = 0 \<rparr>, 20 := \<lparr> ea_coro = 200, ea_sched = 2, ea_next = 10 \<rparr>),
     ev_await_pc = (\<lambda>_. EIdle)(10 := EParked, 20 := EParked), ev_set_pc = (\<lambda>_. SIdle)(0 := SLoop 20),
     ev_resumed = [], ev_taken = True \<rparr>"
  by (simp add: event_sample2_def event_sample1_eq event_run)

lemma event_sample_eq:
  "event_sample = \<lparr> ev_signaled = True, ev_mutex = NoOwner, ev_waiters = 0,
     ev_awaiters = (\<lambda>_. \<lparr> ea_coro = 0, ea_sched = 0, ea_next = 0 \<rparr>)
       (10 := \<lparr> ea_coro = 100, ea_sched = 1, ea_next = 0 \<rparr>, 20 := \<lparr> ea_coro = 200, ea_sched = 2, ea_next = 10 \<rparr>),
     ev_await_pc = (\<lambda>_. EIdle)(20 := EResumed, 10 := EResumed), ev_set_pc = (\<lambda>_. SIdle)(0 := SDone),
     ev_resumed = [(20, ResumeDispatched 2 200), (10, ResumeLocal 100)], ev_taken = True \<rparr>"
  by (simp add: event_sample_def event_sample2_eq event_run)

lemma event_sample_reach: "event_reach event_sample"
proof -
  have "event_reach event_sample0"
    unfolding event_sample0_def
    by (rule event_wait, (rule event_await_step)+, rule event_wait [OF event_start])
      (simp_all add: event_run)
  then have "event_reach event_sample1"
    unfolding event_sample1_def
    by (intro event_await_step event_set_step) (simp_all add: event_sample0_eq event_run)
  then show ?thesis
    by (simp add: event_sample_def event_sample2_def event_set_step)
qed

section \<open>What the event promises\<close>

lemma resumed_iff:
  assumes "event_reach s"
  shows "distinct (map fst (ev_resumed s)) \<and> (a \<in> fst ` set (ev_resumed s)) = (ev_await_pc s a = EResumed)"
proof -
  obtain ws cs where inv: "mutex_ok s" "lists_ok s ws cs" "setters_ok s ws cs"
    by (rule event_invE [OF event_reach_inv [OF assms]])
  show ?thesis
    using lists_okD(5,6) [OF inv(2)] by simp
qed

lemma at_rest:
  assumes "event_reach s" and "ev_signaled s" and "\<forall>i. \<not> set_active (ev_set_pc s i)"
  shows "ev_await_pc s a \<notin> {EPushed, EParked}"
proof -
  obtain ws cs where inv: "mutex_ok s" "lists_ok s ws cs" "setters_ok s ws cs"
    by (rule event_invE [OF event_reach_inv [OF assms(1)]])
  have cs: "cs = []"
    using setters_okD(7) [OF inv(3)] assms(3) by blast
  have "ev_taken s"
    using setters_okD(6) [OF inv(3) assms(2)] assms(3) set_active.simps by (metis insertE singletonD)
  then have "ws = []"
    using setters_okD(4) [OF inv(3)] by blast
  then have "\<not> parked (ev_await_pc s a)"
    using lists_okD(3) [OF inv(2), of a] cs by simp
  then show ?thesis
    by (simp add: parked_def)
qed

lemma set_loop_ends:
  assumes "epath (ev_awaiters s) w cs" and "distinct cs" and "ev_set_pc s i = SLoop w"
  shows "ev_set_pc ((set_step i c ^^ Suc (length cs)) s) i = SDone"
  using assms
proof (induction cs arbitrary: s w)
  case Nil
  then show ?case
    by (simp add: set_step_def)
next
  case (Cons x xs)
  have w: "w = x" "x \<noteq> nullptr" "epath (ev_awaiters s) (ea_next (ev_awaiters s x)) xs"
    using Cons.prems(1) by simp_all
  let ?s = "set_step i c s"
  have "ev_set_pc ?s i = SLoop (ea_next (ev_awaiters s x))" and "ev_awaiters ?s = ev_awaiters s"
    using Cons.prems(3) w by (simp_all add: set_step_def Let_def)
  then have "ev_set_pc ((set_step i c ^^ Suc (length xs)) ?s) i = SDone"
    using Cons.IH [of ?s] w(3) Cons.prems(2) by simp
  then show ?case
    by (simp only: list.size funpow_Suc_right o_def add_Suc_right add_0_right)
qed

lemma set_ends_from_loop:
  assumes "event_reach s" and "ev_set_pc s i = SLoop w"
  shows "\<exists>n. ev_set_pc ((set_step i c ^^ n) s) i = SDone"
proof -
  obtain ws cs where inv: "mutex_ok s" "lists_ok s ws cs" "setters_ok s ws cs"
    by (rule event_invE [OF event_reach_inv [OF assms(1)]])
  have "epath (ev_awaiters s) w cs"
    using setters_okD(2) [OF inv(3), of i] assms(2) by simp
  moreover have "distinct cs"
    using lists_okD(2) [OF inv(2)] by simp
  ultimately have "ev_set_pc ((set_step i c ^^ Suc (length cs)) s) i = SDone"
    using assms(2) by (rule set_loop_ends)
  then show ?thesis
    by blast
qed

lemma set_ends_back:
  assumes "\<exists>n. ev_set_pc ((set_step i c ^^ n) (set_step i c s)) i = SDone"
  shows "\<exists>n. ev_set_pc ((set_step i c ^^ n) s) i = SDone"
proof -
  obtain n where "ev_set_pc ((set_step i c ^^ n) (set_step i c s)) i = SDone"
    using assms by blast
  then have "ev_set_pc ((set_step i c ^^ Suc n) s) i = SDone"
    by (simp only: funpow_Suc_right o_def)
  then show ?thesis
    by blast
qed

lemma set_ends:
  assumes s: "event_reach s" and free: "ev_mutex s = NoOwner \<or> ev_mutex s = SetterOwns i"
  shows "\<exists>n. ev_set_pc ((set_step i c ^^ n) s) i = SDone"
proof -
  note loop = set_ends_from_loop
  have took: "\<exists>n. ev_set_pc ((set_step i c ^^ n) s) i = SDone"
    if s: "event_reach s" "ev_set_pc s i = STook w" for s w
    by (rule set_ends_back, rule loop [of _ _ w]) (rule event_set_step [OF s(1)], simp add: set_step_def [of i c s] s)
  have locked: "\<exists>n. ev_set_pc ((set_step i c ^^ n) s) i = SDone"
    if s: "event_reach s" "ev_set_pc s i = SLocked" for s
    by (rule set_ends_back, rule took [of _ "ev_waiters s"]) (rule event_set_step [OF s(1)], simp add: set_step_def [of i c s] s)
  have want: "\<exists>n. ev_set_pc ((set_step i c ^^ n) s) i = SDone"
    if s: "event_reach s" "ev_set_pc s i = SWantLock" "ev_mutex s = NoOwner" for s
    by (rule set_ends_back, rule locked) (rule event_set_step [OF s(1)], simp add: set_step_def [of i c s] s)
  have done_now: "\<exists>n. ev_set_pc ((set_step i c ^^ n) s) i = SDone" if "ev_set_pc s i = SDone" for s
    using that by (intro exI [of _ 0]) simp
  have mtx: "mutex_ok s"
    by (rule event_invE [OF event_reach_inv [OF s]])
  have nfree: "ev_mutex s = NoOwner" if "\<not> set_in_section (ev_set_pc s i)"
    using mtx free that unfolding mutex_ok_def by auto
  show ?thesis
  proof (cases "ev_set_pc s i")
    case SIdle
    let ?s = "set_step i c s"
    have r: "event_reach ?s"
      by (rule event_set_step [OF s])
    have "ev_mutex ?s = NoOwner" and "ev_set_pc ?s i = (if ev_signaled s then SDone else SWantLock)"
      using SIdle nfree by (simp_all add: set_step_def)
    then have "\<exists>n. ev_set_pc ((set_step i c ^^ n) ?s) i = SDone"
      using want [OF r] done_now [of ?s] by (cases "ev_signaled s") simp_all
    then show ?thesis
      by (rule set_ends_back)
  next
    case SWantLock
    then show ?thesis
      using want [OF s] nfree by simp
  qed (simp_all only: locked [OF s] took [OF s] loop [OF s] done_now)
qed

text \<open>C31: Every awaiter is resumed at most once, however many threads call \<open>set\<close>, and exactly those
  recorded as resumed were.\<close>

theorem event_resumes_once:
  assumes "event_reach s"
  shows "distinct (map fst (ev_resumed s)) \<and> (a \<in> fst ` set (ev_resumed s)) = (ev_await_pc s a = EResumed)"
  by (rule resumed_iff [OF assms])

text \<open>A call of \<open>set\<close> that runs alone, with no awaiter inside its critical section, comes to an
  end after finitely many steps: the walk over the taken list is not cyclic.\<close>

lemma event_set_terminates:
  assumes "event_reach s" and "ev_mutex s = NoOwner \<or> ev_mutex s = SetterOwns i"
  shows "\<exists>n. ev_set_pc ((set_step i c ^^ n) s) i = SDone"
  by (rule set_ends [OF assms])

section \<open>Witnesses\<close>

theorem event_resumes_once_witness:
  "distinct (map fst (ev_resumed event_sample)) \<and>
   (20 \<in> fst ` set (ev_resumed event_sample)) = (ev_await_pc event_sample 20 = EResumed)"
  by (rule event_resumes_once [OF event_sample_reach])

lemma event_set_terminates_instance:
  "\<exists>n. ev_set_pc ((set_step 3 1 ^^ n) event_sample) 3 = SDone"
  by (rule event_set_terminates [OF event_sample_reach]) (simp add: event_sample_eq)

end
