(* ===== verification/Event_Weak.thy ===== *)
theory Event_Weak
  imports Event Release_Acquire
begin

text \<open>
  \<open>Event\<close> on a memory with release and acquire. \<open>signaled_\<close> is atomic and its loads may return an old value;
  \<open>waiters_\<close> and the awaiters are plain memory, and the \<open>std::mutex\<close> hands on what its last owner has seen. The
  steps are those of \<open>Event\<close>; beside them runs what each coroutine and each caller of \<open>set\<close> has seen of the
  others. The memory orders are a parameter.
\<close>

section \<open>Views of the parties\<close>

datatype event_loc = EvSignaled | EvList | EvAwaiter addr | EvData

datatype event_party = Waits addr | Sets nat | TheLock

record event_orders =
  eo_ready :: bool     \<comment> \<open>the load of \<open>await_ready\<close> is acquire\<close>
  eo_check :: bool     \<comment> \<open>the load under the mutex is acquire\<close>
  eo_take :: bool      \<comment> \<open>the exchange of \<open>set\<close> is acquire\<close>
  eo_publish :: bool   \<comment> \<open>the exchange of \<open>set\<close> is release\<close>

definition event_code_orders :: event_orders where
  "event_code_orders = \<lparr> eo_ready = True, eo_check = True, eo_take = True, eo_publish = True \<rparr>"

text \<open>\<open>ew_published\<close> is history: what the caller of \<open>set\<close> that set the flag had seen and done before it did.\<close>

record event_views =
  ew_mem :: "(event_loc, bool) weak_mem"
  ew_view :: "event_party \<Rightarrow> event_loc view"
  ew_race :: bool
  ew_published :: "event_loc view"

type_synonym weak_event = "event_sys \<times> event_views"

definition event_views_init :: event_views where
  "event_views_init = \<lparr> ew_mem = \<lparr> wm_stores = (\<lambda>_. [(False, \<lambda>_. 0)]), wm_writes = (\<lambda>_. 0) \<rparr>,
     ew_view = (\<lambda>_ _. 0), ew_race = False, ew_published = (\<lambda>_. 0) \<rparr>"

definition event_learn :: "event_party \<Rightarrow> event_loc view \<Rightarrow> event_views \<Rightarrow> event_views" where
  "event_learn p V w = w\<lparr> ew_view := (ew_view w)(p := sup (ew_view w p) V) \<rparr>"

definition event_lock :: "event_party \<Rightarrow> event_views \<Rightarrow> event_views" where
  "event_lock p w = event_learn p (ew_view w TheLock) w"

definition event_unlock :: "event_party \<Rightarrow> event_views \<Rightarrow> event_views" where
  "event_unlock p w = event_learn TheLock (ew_view w p) w"

text \<open>A plain access; reading counts like writing, so that no two accesses may be unordered.\<close>

definition event_access :: "event_loc \<Rightarrow> event_party \<Rightarrow> event_views \<Rightarrow> event_views" where
  "event_access l p w =
     (let (m1, V1) = plain_access l (ew_mem w) (ew_view w p) in w\<lparr> ew_mem := m1, ew_view := (ew_view w)(p := V1) \<rparr>)"

definition event_touch :: "event_loc \<Rightarrow> event_party \<Rightarrow> event_views \<Rightarrow> event_views" where
  "event_touch l p w = (event_access l p w)\<lparr> ew_race := ew_race w \<or> races l (ew_mem w) (ew_view w p) \<rparr>"

definition flag_load :: "bool \<Rightarrow> event_party \<Rightarrow> nat \<Rightarrow> event_views \<Rightarrow> bool \<times> event_views" where
  "flag_load acquire p n w =
     (let (seen, V1) = weak_load acquire EvSignaled n (ew_mem w) (ew_view w p)
      in (seen, w\<lparr> ew_view := (ew_view w)(p := V1) \<rparr>))"

definition flag_exchange :: "bool \<Rightarrow> bool \<Rightarrow> event_party \<Rightarrow> event_views \<Rightarrow> event_views" where
  "flag_exchange acquire release p w =
     (let (old, m1, V1) = weak_rmw acquire release EvSignaled (\<lambda>_. True) (ew_mem w) (ew_view w p)
      in w\<lparr> ew_mem := m1, ew_view := (ew_view w)(p := V1), ew_published := (if old then ew_published w else ew_view w p) \<rparr>)"

section \<open>Steps\<close>

text \<open>\<open>n\<close> is the store that a load proposes to read.\<close>

definition weak_event_await :: "event_orders \<Rightarrow> addr \<Rightarrow> handle \<Rightarrow> addr \<Rightarrow> nat \<Rightarrow> weak_event \<Rightarrow> weak_event" where
  "weak_event_await ord a h sched n =
     (\<lambda>(s, w). let (seen, w1) = flag_load (eo_ready ord) (Waits a) n w
       in (event_await a h sched seen s, if seen then w1 else event_touch (EvAwaiter a) (Waits a) w1))"

definition views_await :: "event_orders \<Rightarrow> addr \<Rightarrow> nat \<Rightarrow> event_sys \<Rightarrow> event_views \<Rightarrow> bool \<times> event_views" where
  "views_await ord a n s w =
     (case ev_await_pc s a of
        EWantLock \<Rightarrow> (False, if ev_mutex s = NoOwner then event_lock (Waits a) w else w)
      | ELocked \<Rightarrow> flag_load (eo_check ord) (Waits a) n w
      | EChecked \<Rightarrow> (False, event_touch EvList (Waits a) (event_touch (EvAwaiter a) (Waits a) w))
      | EPushed \<Rightarrow> (False, event_unlock (Waits a) w)
      | ERefused \<Rightarrow> (False, event_unlock (Waits a) w)
      | _ \<Rightarrow> (False, w))"

definition weak_await_step :: "event_orders \<Rightarrow> addr \<Rightarrow> nat \<Rightarrow> weak_event \<Rightarrow> weak_event" where
  "weak_await_step ord a n = (\<lambda>(s, w). let (seen, w1) = views_await ord a n s w in (await_step a seen s, w1))"

text \<open>The ways of \<open>resume_waiter\<close> all order: the same thread, or the inbox of the other one.\<close>

definition views_set :: "event_orders \<Rightarrow> nat \<Rightarrow> event_sys \<Rightarrow> event_views \<Rightarrow> event_views" where
  "views_set ord i s w =
     (case ev_set_pc s i of
        SIdle \<Rightarrow> flag_exchange (eo_take ord) (eo_publish ord) (Sets i) w
      | SWantLock \<Rightarrow> (if ev_mutex s = NoOwner then event_lock (Sets i) w else w)
      | SLocked \<Rightarrow> event_touch EvList (Sets i) w
      | STook c \<Rightarrow> event_unlock (Sets i) w
      | SLoop c \<Rightarrow>
          (if c = nullptr then w
           else (let w1 = event_touch (EvAwaiter c) (Sets i) w in event_learn (Waits c) (ew_view w1 (Sets i)) w1))
      | SDone \<Rightarrow> w)"

definition weak_set_step :: "event_orders \<Rightarrow> nat \<Rightarrow> addr \<Rightarrow> weak_event \<Rightarrow> weak_event" where
  "weak_set_step ord i current_sched = (\<lambda>(s, w). (set_step i current_sched s, views_set ord i s w))"

text \<open>The program around: work on its own data, and what a party sees of another one by other means.\<close>

definition event_work :: "event_party \<Rightarrow> weak_event \<Rightarrow> weak_event" where
  "event_work p = (\<lambda>(s, w). (s, event_access EvData p w))"

definition event_see :: "event_party \<Rightarrow> event_party \<Rightarrow> weak_event \<Rightarrow> weak_event" where
  "event_see p q = (\<lambda>(s, w). (s, event_learn p (ew_view w q) w))"

inductive event_weak_reach :: "event_orders \<Rightarrow> weak_event \<Rightarrow> bool" for ord :: event_orders where
  ew_start: "event_weak_reach ord (event_init aw, event_views_init)"
| ew_wait: "event_weak_reach ord z \<Longrightarrow> ev_await_pc (fst z) a = EIdle \<Longrightarrow> a \<noteq> nullptr \<Longrightarrow>
     event_weak_reach ord (weak_event_await ord a h sched n z)"
| ew_await: "event_weak_reach ord z \<Longrightarrow> event_weak_reach ord (weak_await_step ord a n z)"
| ew_set: "event_weak_reach ord z \<Longrightarrow> event_weak_reach ord (weak_set_step ord i sched z)"
| ew_work: "event_weak_reach ord z \<Longrightarrow> event_weak_reach ord (event_work p z)"
| ew_see: "event_weak_reach ord z \<Longrightarrow> event_weak_reach ord (event_see p q z)"

section \<open>The invariant\<close>

definition owner_of :: "event_sys \<Rightarrow> event_party" where
  "owner_of s = (case ev_mutex s of NoOwner \<Rightarrow> TheLock | AwaiterOwns a \<Rightarrow> Waits a | SetterOwns i \<Rightarrow> Sets i)"

text \<open>The awaiters a caller of \<open>set\<close> has taken off the list.\<close>

fun took :: "setter_pc \<Rightarrow> addr option" where
  "took (STook c) = Some c"
| "took (SLoop c) = Some c"
| "took _ = None"

text \<open>Who has to know the latest access to a plain location.\<close>

fun must_know :: "event_sys \<Rightarrow> event_party \<Rightarrow> event_loc \<Rightarrow> bool" where
  "must_know s p EvSignaled \<longleftrightarrow> False"
| "must_know s p EvData \<longleftrightarrow> False"
| "must_know s p EvList \<longleftrightarrow> p = owner_of s"
| "must_know s p (EvAwaiter x) \<longleftrightarrow>
     p = Waits x \<and> ev_await_pc s x \<noteq> EParked
     \<or> p = owner_of s \<and> (\<exists>ws. epath (ev_awaiters s) (ev_waiters s) ws \<and> x \<in> set ws)
     \<or> (\<exists>i c cs. p = Sets i \<and> took (ev_set_pc s i) = Some c \<and> epath (ev_awaiters s) c cs \<and> x \<in> set cs)"

text \<open>Who has seen what was published with the flag, and who has seen the flag.\<close>

fun informed :: "event_sys \<Rightarrow> event_party \<Rightarrow> bool" where
  "informed s (Waits a) \<longleftrightarrow> ev_await_pc s a \<in> {ERefused, EThrough, EResumed}"
| "informed s (Sets i) \<longleftrightarrow> set_active (ev_set_pc s i)"
| "informed s TheLock \<longleftrightarrow> False"

definition saw_flag :: "event_sys \<Rightarrow> event_party \<Rightarrow> bool" where
  "saw_flag s p \<longleftrightarrow> ev_taken s \<and> p = owner_of s \<or> (\<exists>i. p = Sets i \<and> set_active (ev_set_pc s i))"

definition in_range :: "event_views \<Rightarrow> event_loc view \<Rightarrow> bool" where
  "in_range w V \<longleftrightarrow> V EvSignaled \<le> newest (ew_mem w) EvSignaled \<and> (\<forall>l. l \<noteq> EvSignaled \<longrightarrow> V l \<le> wm_writes (ew_mem w) l)"

definition flag_ok :: "event_sys \<Rightarrow> event_views \<Rightarrow> bool" where
  "flag_ok s w \<longleftrightarrow> wm_stores (ew_mem w) EvSignaled \<noteq> [] \<and> (ev_signaled s \<longleftrightarrow> newest (ew_mem w) EvSignaled \<noteq> 0)
     \<and> (\<forall>n \<le> newest (ew_mem w) EvSignaled. in_range w (store_view (ew_mem w) EvSignaled n)
         \<and> (store_value (ew_mem w) EvSignaled n \<longleftrightarrow> n \<noteq> 0)
         \<and> (n \<noteq> 0 \<longrightarrow> ew_published w \<le> store_view (ew_mem w) EvSignaled n))"

definition ew_ok :: "event_sys \<Rightarrow> event_views \<Rightarrow> bool" where
  "ew_ok s w \<longleftrightarrow> \<not> ew_race w \<and> flag_ok s w \<and> (\<forall>p. in_range w (ew_view w p))
     \<and> (\<forall>p l. must_know s p l \<longrightarrow> \<not> races l (ew_mem w) (ew_view w p))
     \<and> (\<forall>p. informed s p \<longrightarrow> ev_signaled s \<and> ew_published w \<le> ew_view w p)
     \<and> (\<forall>p. saw_flag s p \<longrightarrow> 1 \<le> ew_view w p EvSignaled)"

lemma ew_okD:
  assumes "ew_ok s w"
  shows "\<not> ew_race w" and "flag_ok s w" and "in_range w (ew_view w p)"
    and "must_know s p l \<Longrightarrow> \<not> races l (ew_mem w) (ew_view w p)"
    and "informed s p \<Longrightarrow> ew_published w \<le> ew_view w p" and "saw_flag s p \<Longrightarrow> 1 \<le> ew_view w p EvSignaled"
    and "informed s p \<Longrightarrow> ev_signaled s"
  using assms unfolding ew_ok_def by blast+

lemma ew_okI:
  assumes "\<not> ew_race w" and "flag_ok s w" and "\<And>p. in_range w (ew_view w p)"
    and "\<And>p l. must_know s p l \<Longrightarrow> \<not> races l (ew_mem w) (ew_view w p)"
    and "\<And>p. informed s p \<Longrightarrow> ev_signaled s \<and> ew_published w \<le> ew_view w p" and "\<And>p. saw_flag s p \<Longrightarrow> 1 \<le> ew_view w p EvSignaled"
  shows "ew_ok s w"
  using assms unfolding ew_ok_def by blast

lemma flag_okD:
  assumes "flag_ok s w"
  shows "wm_stores (ew_mem w) EvSignaled \<noteq> []" and "ev_signaled s \<longleftrightarrow> newest (ew_mem w) EvSignaled \<noteq> 0"
    and "n \<le> newest (ew_mem w) EvSignaled \<Longrightarrow> in_range w (store_view (ew_mem w) EvSignaled n)"
    and "n \<le> newest (ew_mem w) EvSignaled \<Longrightarrow> store_value (ew_mem w) EvSignaled n \<longleftrightarrow> n \<noteq> 0"
    and "n \<le> newest (ew_mem w) EvSignaled \<Longrightarrow> n \<noteq> 0 \<Longrightarrow> ew_published w \<le> store_view (ew_mem w) EvSignaled n"
  using assms unfolding flag_ok_def by blast+

lemma ew_ok_init: "ew_ok (event_init aw) event_views_init"
proof -
  have "\<not> informed (event_init aw) p" for p
    by (cases p) (simp_all add: event_init_def)
  then show ?thesis
    by (intro ew_okI)
      (simp_all add: flag_ok_def in_range_def event_init_def event_views_init_def newest_def races_def saw_flag_def le_fun_def)
qed

section \<open>What the accesses do to views\<close>

lemma event_view_upd [simp]:
  "in_range (w\<lparr> ew_view := f \<rparr>) = in_range w" "in_range (w\<lparr> ew_race := r \<rparr>) = in_range w"
  "flag_ok s (w\<lparr> ew_view := f \<rparr>) = flag_ok s w" "flag_ok s (w\<lparr> ew_race := r \<rparr>) = flag_ok s w"
  by (simp_all add: in_range_def flag_ok_def fun_eq_iff)

lemma in_range_sup: "in_range w V \<Longrightarrow> in_range w U \<Longrightarrow> in_range w (sup V U)"
  by (simp add: in_range_def)

lemma known_grow:
  "\<not> races l (ew_mem w) V \<Longrightarrow> V \<le> U \<Longrightarrow> in_range w U \<Longrightarrow> l \<noteq> EvSignaled \<Longrightarrow> \<not> races l (ew_mem w) U"
  unfolding races_def in_range_def le_fun_def by (metis le_antisym)

lemma must_know_plain: "must_know s p l \<Longrightarrow> l \<noteq> EvSignaled"
  by (cases l) auto

text \<open>A step in which party \<open>q\<close> learns something and no memory changes.\<close>

lemma ew_ok_learn:
  assumes W: "ew_ok s w" and U: "ew_view w q \<le> U" "in_range w U" and sig: "ev_signaled s' = ev_signaled s"
    and know: "\<And>p l. must_know s' p l \<Longrightarrow> must_know s p l \<or> p = q \<and> \<not> races l (ew_mem w) U"
    and inf: "\<And>p. informed s' p \<Longrightarrow> informed s p \<or> p = q \<and> ev_signaled s \<and> ew_published w \<le> U"
    and flag: "\<And>p. saw_flag s' p \<Longrightarrow> saw_flag s p \<or> p = q \<and> 1 \<le> U EvSignaled"
  shows "ew_ok s' (w\<lparr> ew_view := (ew_view w)(q := U) \<rparr>)"
proof (rule ew_okI)
  note D = ew_okD [OF W]
  show "\<not> ew_race (w\<lparr> ew_view := (ew_view w)(q := U) \<rparr>)"
    using D(1) by simp
  show "flag_ok s' (w\<lparr> ew_view := (ew_view w)(q := U) \<rparr>)"
    using D(2) sig by (simp add: flag_ok_def)
  show "in_range (w\<lparr> ew_view := (ew_view w)(q := U) \<rparr>) (ew_view (w\<lparr> ew_view := (ew_view w)(q := U) \<rparr>) p)" for p
    using D(3) U(2) by simp
  show "\<not> races l (ew_mem (w\<lparr> ew_view := (ew_view w)(q := U) \<rparr>)) (ew_view (w\<lparr> ew_view := (ew_view w)(q := U) \<rparr>) p)"
    if "must_know s' p l" for p l
    using know [OF that] D(4) [of p l] known_grow [OF _ U, of l] must_know_plain [OF that] by (cases "p = q") auto
  show "ev_signaled s' \<and> ew_published (w\<lparr> ew_view := (ew_view w)(q := U) \<rparr>) \<le> ew_view (w\<lparr> ew_view := (ew_view w)(q := U) \<rparr>) p"
    if "informed s' p" for p
    using inf [OF that] D(5,7) [of p] U(1) sig by (cases "p = q") auto
  show "1 \<le> ew_view (w\<lparr> ew_view := (ew_view w)(q := U) \<rparr>) p EvSignaled" if "saw_flag s' p" for p
    using flag [OF that] D(6) [of p] U(1) by (cases "p = q") (auto simp: le_fun_def intro: order_trans)
qed

lemma ew_ok_same:
  assumes W: "ew_ok s w" and sig: "ev_signaled s' = ev_signaled s"
    and "\<And>p l. must_know s' p l \<Longrightarrow> must_know s p l" and "\<And>p. informed s' p \<Longrightarrow> informed s p"
    and "\<And>p. saw_flag s' p \<Longrightarrow> saw_flag s p"
  shows "ew_ok s' w"
  using ew_ok_learn [OF W, of TheLock "ew_view w TheLock" s'] ew_okD(3) [OF W] assms(2-) by simp

text \<open>A plain access by \<open>q\<close> that nobody else has to know of.\<close>

lemma ew_ok_access:
  assumes W: "ew_ok s w" and l: "l \<noteq> EvSignaled" and own: "\<And>p. must_know s p l \<Longrightarrow> p = q"
  shows "ew_ok s (event_access l q w)"
proof (rule ew_okI)
  note D = ew_okD [OF W]
  let ?w = "event_access l q w"
  have sel: "ew_race ?w = ew_race w" "wm_stores (ew_mem ?w) = wm_stores (ew_mem w)" "newest (ew_mem ?w) = newest (ew_mem w)"
    "wm_writes (ew_mem ?w) = (wm_writes (ew_mem w))(l := Suc (wm_writes (ew_mem w) l))" "ew_published ?w = ew_published w"
    "ew_view ?w = (ew_view w)(q := (ew_view w q)(l := Suc (wm_writes (ew_mem w) l)))"
    by (simp_all add: event_access_def split_beta Let_def)
  have range: "in_range w V \<Longrightarrow> in_range ?w V" for V
    by (simp add: in_range_def sel le_SucI)
  have mine: "ew_view w q l \<le> wm_writes (ew_mem w) l"
    using D(3) [of q] l by (simp add: in_range_def)
  have grows: "ew_view w p \<le> ew_view ?w p" for p
    using mine by (auto simp: sel le_fun_def le_SucI)
  show "\<not> ew_race ?w"
    using D(1) sel by simp
  show "flag_ok s ?w"
    using D(2) range unfolding flag_ok_def by (simp add: sel)
  show "in_range ?w (ew_view ?w p)" for p
    using range [OF D(3) [of p]] l by (cases "p = q") (auto simp: sel in_range_def)
  show "\<not> races l' (ew_mem ?w) (ew_view ?w p)" if "must_know s p l'" for p l'
    using D(4) [OF that] own [of p] that by (cases "l' = l") (auto simp: races_def sel)
  show "ev_signaled s \<and> ew_published ?w \<le> ew_view ?w p" if "informed s p" for p
    using order_trans [OF D(5) [OF that] grows] D(7) [OF that] by (simp add: sel(5))
  show "1 \<le> ew_view ?w p EvSignaled" if "saw_flag s p" for p
    using D(6) [OF that] l by (auto simp: sel)
qed

lemma ew_ok_touch:
  assumes W: "ew_ok s w" and know: "must_know s q l" and own: "\<And>p. must_know s p l \<Longrightarrow> p = q"
  shows "ew_ok s (event_touch l q w)"
proof -
  have "event_touch l q w = event_access l q w"
    using ew_okD(1) [OF W] ew_okD(4) [OF W know] by (simp add: event_touch_def event_access_def split_beta Let_def)
  then show ?thesis
    using ew_ok_access [OF W must_know_plain [OF know]] own by simp
qed

lemma flag_load_facts:
  assumes "ew_ok s w"
  obtains U where "snd (flag_load acquire p n w) = w\<lparr> ew_view := (ew_view w)(p := U) \<rparr>" and "ew_view w p \<le> U" and "in_range w U"
    and "fst (flag_load acquire p n w) \<Longrightarrow> ev_signaled s"
    and "fst (flag_load acquire p n w) \<Longrightarrow> acquire \<Longrightarrow> ew_published w \<le> U"
    and "saw_flag s p \<Longrightarrow> fst (flag_load acquire p n w)"
proof -
  note D = ew_okD [OF assms] and F = flag_okD [OF ew_okD(2) [OF assms]]
  let ?m = "ew_mem w" and ?V = "ew_view w p"
  let ?i = "read_at ?m EvSignaled n ?V"
  let ?U = "if acquire then sup (?V(EvSignaled := ?i)) (store_view ?m EvSignaled ?i) else ?V(EvSignaled := ?i)"
  have i: "?V EvSignaled \<le> ?i" "?i \<le> newest ?m EvSignaled"
    using read_at_bounds [of ?V EvSignaled ?m n] D(3) [of p] by (auto simp: in_range_def)
  have own: "in_range w (?V(EvSignaled := ?i))" "?V \<le> ?V(EvSignaled := ?i)"
    using D(3) [of p] i by (auto simp: in_range_def le_fun_def)
  show thesis
  proof (rule that [of ?U])
    show "snd (flag_load acquire p n w) = w\<lparr> ew_view := (ew_view w)(p := ?U) \<rparr>"
      by (simp add: flag_load_def weak_load_def Let_def)
    show "?V \<le> ?U"
      using own(2) by (simp add: le_supI1)
    show "in_range w ?U"
      using own(1) in_range_sup [OF own(1) F(3) [OF i(2)]] by simp
    have seen: "fst (flag_load acquire p n w) \<longleftrightarrow> ?i \<noteq> 0"
      using F(4) [OF i(2)] by (simp add: flag_load_def weak_load_def Let_def)
    show "ev_signaled s" if "fst (flag_load acquire p n w)"
      using that seen F(2) i(2) by simp
    show "ew_published w \<le> ?U" if "fst (flag_load acquire p n w)" "acquire"
      using that seen F(5) [OF i(2)] by (simp add: le_supI2)
    show "fst (flag_load acquire p n w)" if "saw_flag s p"
      using that seen D(6) [OF that] i(1) by simp
  qed
qed

section \<open>Every step keeps it\<close>

lemma epath_unique: "epath aw c xs \<Longrightarrow> epath aw c ys \<Longrightarrow> xs = ys"
proof (induction xs arbitrary: c ys)
  case (Cons x xs)
  then show ?case
    by (cases ys) auto
qed auto

text \<open>What the invariant of the interleavings says of the lists.\<close>

lemma event_lists:
  assumes "event_inv s"
  obtains ws cs where "epath (ev_awaiters s) (ev_waiters s) ws" and "distinct (ws @ cs)"
    and "\<And>x. x \<in> set ws \<Longrightarrow> parked (ev_await_pc s x)" and "\<And>x. x \<in> set cs \<Longrightarrow> ev_await_pc s x = EParked"
    and "\<And>i c ds. took (ev_set_pc s i) = Some c \<Longrightarrow> epath (ev_awaiters s) c ds \<Longrightarrow> ds = cs"
    and "\<And>i c. took (ev_set_pc s i) = Some c \<Longrightarrow> epath (ev_awaiters s) c cs"
proof -
  obtain ws cs where inv: "mutex_ok s" "lists_ok s ws cs" "setters_ok s ws cs"
    by (rule event_invE [OF assms])
  have path: "epath (ev_awaiters s) c cs" if "took (ev_set_pc s i) = Some c" for i c
    using setters_okD(2) [OF inv(3), of i] that by (cases "ev_set_pc s i") auto
  show thesis
    using lists_okD [OF inv(2)] path epath_unique by (intro that [of ws cs]) blast+
qed

lemma event_owner:
  assumes "event_inv s"
  shows "in_section (ev_await_pc s a) \<Longrightarrow> owner_of s = Waits a" and "set_in_section (ev_set_pc s i) \<Longrightarrow> owner_of s = Sets i"
    and "set_active (ev_set_pc s i) \<Longrightarrow> set_active (ev_set_pc s j) \<Longrightarrow> i = j"
proof -
  obtain ws cs where inv: "mutex_ok s" "lists_ok s ws cs" "setters_ok s ws cs"
    by (rule event_invE [OF assms])
  show "in_section (ev_await_pc s a) \<Longrightarrow> owner_of s = Waits a" "set_in_section (ev_set_pc s i) \<Longrightarrow> owner_of s = Sets i"
    using inv(1) unfolding mutex_ok_def owner_of_def by simp_all
  show "set_active (ev_set_pc s i) \<Longrightarrow> set_active (ev_set_pc s j) \<Longrightarrow> i = j"
    using setters_okD(1) [OF inv(3)] by blast
qed

lemma must_know_awaiterE:
  assumes "must_know s p (EvAwaiter x)"
  obtains "p = Waits x" and "ev_await_pc s x \<noteq> EParked"
    | xs where "p = owner_of s" and "epath (ev_awaiters s) (ev_waiters s) xs" and "x \<in> set xs"
    | i c xs where "p = Sets i" and "took (ev_set_pc s i) = Some c" and "epath (ev_awaiters s) c xs" and "x \<in> set xs"
  using assms by auto

lemma must_know_took:
  "took (ev_set_pc s i) = Some c \<Longrightarrow> epath (ev_awaiters s) c cs \<Longrightarrow> x \<in> set cs \<Longrightarrow> must_know s (Sets i) (EvAwaiter x)"
  by (simp only: must_know.simps) blast

text \<open>Nobody else has to know an awaiter that is in no list.\<close>

lemma own_awaiter:
  assumes M: "event_inv s" and a: "\<not> parked (ev_await_pc s a)" and know: "must_know s p (EvAwaiter a)"
  shows "p = Waits a"
proof -
  obtain ws cs where "epath (ev_awaiters s) (ev_waiters s) ws" "\<And>x. x \<in> set ws \<Longrightarrow> parked (ev_await_pc s x)"
    "\<And>x. x \<in> set cs \<Longrightarrow> ev_await_pc s x = EParked"
    "\<And>i c ds. took (ev_set_pc s i) = Some c \<Longrightarrow> epath (ev_awaiters s) c ds \<Longrightarrow> ds = cs"
    by (rule event_lists [OF M]) blast
  note L = this
  show ?thesis
    using know
  proof (rule must_know_awaiterE)
    fix xs
    assume "epath (ev_awaiters s) (ev_waiters s) xs" and "a \<in> set xs"
    then show ?thesis
      using epath_unique [OF L(1)] L(2) a by auto
  next
    fix i c xs
    assume "took (ev_set_pc s i) = Some c" and "epath (ev_awaiters s) c xs" and "a \<in> set xs"
    then have "ev_await_pc s a = EParked"
      using L(3,4) by auto
    then show ?thesis
      using a by (simp add: parked_def)
  qed
qed

lemma ew_ok_await:
  assumes M: "event_inv s" and W: "ew_ok s w" and a: "ev_await_pc s a = EIdle" "a \<noteq> nullptr" and ord: "eo_ready ord"
  shows "ew_ok (fst (weak_event_await ord a h sched n (s, w))) (snd (weak_event_await ord a h sched n (s, w)))"
proof -
  obtain U where U: "snd (flag_load True (Waits a) n w) = w\<lparr> ew_view := (ew_view w)(Waits a := U) \<rparr>" "ew_view w (Waits a) \<le> U"
    "in_range w U" "fst (flag_load True (Waits a) n w) \<Longrightarrow> ev_signaled s \<and> ew_published w \<le> U"
    using flag_load_facts [OF W, of True "Waits a" n] by metis
  let ?w1 = "w\<lparr> ew_view := (ew_view w)(Waits a := U) \<rparr>"
  obtain seen where fl: "flag_load True (Waits a) n w = (seen, ?w1)"
    using that [of "fst (flag_load True (Waits a) n w)"] U(1) by (simp add: prod_eq_iff)
  have own: "\<And>p. must_know s p (EvAwaiter a) \<Longrightarrow> p = Waits a"
    by (rule own_awaiter [OF M]) (simp_all add: a(1) parked_def)
  show ?thesis
  proof (cases seen)
    case True
    have "ew_ok (at_await a EThrough s) ?w1"
    proof (rule ew_ok_learn [OF W U(2,3)])
      show "must_know (at_await a EThrough s) p l \<Longrightarrow> must_know s p l \<or> p = Waits a \<and> \<not> races l (ew_mem w) U" for p l
        using a(1) by (cases l) (auto simp: owner_of_def split: if_splits)
      show "informed (at_await a EThrough s) p \<Longrightarrow> informed s p \<or> p = Waits a \<and> ev_signaled s \<and> ew_published w \<le> U" for p
        using U(4) fl True by (cases p) (auto split: if_splits)
      show "saw_flag (at_await a EThrough s) p \<Longrightarrow> saw_flag s p \<or> p = Waits a \<and> 1 \<le> U EvSignaled" for p
        by (simp add: saw_flag_def owner_of_def)
    qed simp
    then show ?thesis
      using fl True ord by (simp add: weak_event_await_def event_await_def)
  next
    case False
    let ?s = "at_await a EWantLock (s\<lparr> ev_awaiters := (ev_awaiters s)(a := \<lparr> ea_coro = h, ea_sched = sched, ea_next = nullptr \<rparr>) \<rparr>)"
    have W1: "ew_ok s ?w1"
      by (rule ew_ok_learn [OF W U(2,3)]) simp_all
    have W2: "ew_ok s (event_touch (EvAwaiter a) (Waits a) ?w1)"
      by (rule ew_ok_touch [OF W1 _ own]) (simp_all add: a(1))
    obtain ws cs where L: "epath (ev_awaiters s) (ev_waiters s) ws" "\<And>x. x \<in> set ws \<Longrightarrow> parked (ev_await_pc s x)"
      "\<And>x. x \<in> set cs \<Longrightarrow> ev_await_pc s x = EParked" "\<And>i c. took (ev_set_pc s i) = Some c \<Longrightarrow> epath (ev_awaiters s) c cs"
      by (rule event_lists [OF M]) blast
    have out: "a \<notin> set ws" "a \<notin> set cs"
      using L(2,3) [of a] a(1) by (auto simp: parked_def)
    have same: "xs = ws" if "epath (ev_awaiters ?s) (ev_waiters s) xs" for xs
      using epath_unique [OF that, of ws] L(1) out(1) by simp
    have same': "xs = cs" if "epath (ev_awaiters ?s) c xs" "took (ev_set_pc s i) = Some c" for xs c i
      using epath_unique [OF that(1), of cs] L(4) [OF that(2)] out(2) by simp
    have "ew_ok ?s (event_touch (EvAwaiter a) (Waits a) ?w1)"
    proof (rule ew_ok_same [OF W2])
      show "must_know ?s p l \<Longrightarrow> must_know s p l" for p l
      proof (cases l)
        case (EvAwaiter x)
        assume "must_know ?s p l"
        then have "must_know ?s p (EvAwaiter x)"
          by (simp only: EvAwaiter)
        then show ?thesis
        proof (cases rule: must_know_awaiterE)
          case 1
          then show ?thesis
            using EvAwaiter a(1) by (auto split: if_splits)
        next
          case (2 xs)
          then have "p = owner_of s" "xs = ws"
            using same by (simp_all add: owner_of_def)
          then show ?thesis
            using EvAwaiter 2(3) L(1) by auto
        next
          case (3 i c xs)
          then have "xs = cs" "took (ev_set_pc s i) = Some c"
            using same' by simp_all
          then show ?thesis
            using EvAwaiter 3(1,4) L(4) by auto
        qed
      qed (simp_all add: owner_of_def)
      show "informed ?s p \<Longrightarrow> informed s p" for p
        by (cases p) (auto split: if_splits)
      show "saw_flag ?s p \<Longrightarrow> saw_flag s p" for p
        by (simp add: saw_flag_def owner_of_def)
    qed simp
    then show ?thesis
      using fl False ord by (simp add: weak_event_await_def event_await_def)
  qed
qed

text \<open>The mutex changes hands: who gets it learns what the one before has seen.\<close>

lemma ew_ok_pass:
  assumes W: "ew_ok s w" and q: "owner_of s' = q"
    and same: "ev_signaled s' = ev_signaled s" "ev_taken s' = ev_taken s" "ev_awaiters s' = ev_awaiters s" "ev_waiters s' = ev_waiters s"
    and await: "\<And>x. ev_await_pc s' x \<noteq> EParked \<Longrightarrow> ev_await_pc s x \<noteq> EParked"
      "\<And>x. informed s' (Waits x) \<Longrightarrow> informed s (Waits x)"
    and setter: "\<And>i. took (ev_set_pc s' i) = took (ev_set_pc s i)" "\<And>i. set_active (ev_set_pc s' i) = set_active (ev_set_pc s i)"
  shows "ew_ok s' (event_learn q (ew_view w (owner_of s)) w)"
proof -
  note D = ew_okD [OF W]
  let ?U = "sup (ew_view w q) (ew_view w (owner_of s))"
  have U: "ew_view w q \<le> ?U" "in_range w ?U"
    using D(3) in_range_sup by simp_all
  have gets: "\<not> races l (ew_mem w) ?U" if "must_know s (owner_of s) l" for l
    using known_grow [OF D(4) [OF that] _ U(2) must_know_plain [OF that]] by simp
  have "ew_ok s' (w\<lparr> ew_view := (ew_view w)(q := ?U) \<rparr>)"
  proof (rule ew_ok_learn [OF W U])
    show "must_know s p l \<or> p = q \<and> \<not> races l (ew_mem w) ?U" if know: "must_know s' p l" for p l
    proof (cases l)
      case EvList
      then show ?thesis
        using gets [of EvList] know q by simp
    next
      case (EvAwaiter x)
      have "must_know s' p (EvAwaiter x)"
        using know by (simp only: EvAwaiter)
      then show ?thesis
      proof (cases rule: must_know_awaiterE)
        case 1
        then show ?thesis
          using EvAwaiter await(1) by simp
      next
        case (2 xs)
        then have "must_know s (owner_of s) (EvAwaiter x)"
          using same by auto
        then show ?thesis
          using gets 2(1) q EvAwaiter by blast
      next
        case (3 i c xs)
        then show ?thesis
          using EvAwaiter same setter(1) by auto
      qed
    qed (use know in simp_all)
    show "informed s' p \<Longrightarrow> informed s p \<or> p = q \<and> ev_signaled s \<and> ew_published w \<le> ?U" for p
      using await(2) setter(2) by (cases p) auto
    show "saw_flag s p \<or> p = q \<and> 1 \<le> ?U EvSignaled" if "saw_flag s' p" for p
    proof (cases "ev_taken s")
      case True
      then have "1 \<le> ew_view w (owner_of s) EvSignaled"
        by (intro D(6)) (simp add: saw_flag_def)
      then have "1 \<le> ?U EvSignaled"
        by (simp add: sup_nat_def)
      then show ?thesis
        using that q setter(2) unfolding saw_flag_def by auto
    next
      case False
      then show ?thesis
        using that same(2) setter(2) unfolding saw_flag_def by auto
    qed
  qed (simp add: same)
  then show ?thesis
    by (simp add: event_learn_def)
qed

lemma ew_ok_push:
  assumes M: "event_inv s" and W: "ew_ok s w" and a: "ev_await_pc s a = EChecked"
  shows "ew_ok (await_step a seen s) (event_touch EvList (Waits a) (event_touch (EvAwaiter a) (Waits a) w))"
proof -
  let ?s = "at_await a EPushed (s\<lparr> ev_awaiters := (ev_awaiters s)(a := (ev_awaiters s a)\<lparr> ea_next := ev_waiters s \<rparr>), ev_waiters := a \<rparr>)"
  have own: "\<And>p. must_know s p (EvAwaiter a) \<Longrightarrow> p = Waits a"
    by (rule own_awaiter [OF M]) (simp_all add: a parked_def)
  have owner: "owner_of s = Waits a"
    using event_owner(1) [OF M, of a] a by (simp add: in_section_def)
  have W1: "ew_ok s (event_touch (EvAwaiter a) (Waits a) w)"
    by (rule ew_ok_touch [OF W _ own]) (simp_all add: a)
  have W2: "ew_ok s (event_touch EvList (Waits a) (event_touch (EvAwaiter a) (Waits a) w))"
    by (rule ew_ok_touch [OF W1]) (simp_all add: owner)
  obtain ws cs where L: "epath (ev_awaiters s) (ev_waiters s) ws" "\<And>x. x \<in> set ws \<Longrightarrow> parked (ev_await_pc s x)"
    "\<And>x. x \<in> set cs \<Longrightarrow> ev_await_pc s x = EParked" "\<And>i c. took (ev_set_pc s i) = Some c \<Longrightarrow> epath (ev_awaiters s) c cs"
    by (rule event_lists [OF M]) blast
  have out: "a \<notin> set ws" "a \<notin> set cs"
    using L(2,3) [of a] a by (auto simp: parked_def)
  have "ew_ok ?s (event_touch EvList (Waits a) (event_touch (EvAwaiter a) (Waits a) w))"
  proof (rule ew_ok_same [OF W2])
    show "must_know s p l" if know: "must_know ?s p l" for p l
    proof (cases l)
      case (EvAwaiter x)
      have "must_know ?s p (EvAwaiter x)"
        using know by (simp only: EvAwaiter)
      then show ?thesis
      proof (cases rule: must_know_awaiterE)
        case 1
        then show ?thesis
          using EvAwaiter a by (auto split: if_splits)
      next
        case (2 xs)
        obtain ys where ys: "xs = a # ys" "epath (ev_awaiters ?s) (ev_waiters s) ys"
          using 2(2,3) by (cases xs) auto
        have "ys = ws"
          using epath_unique [OF ys(2), of ws] L(1) out(1) by simp
        moreover have "p = Waits a"
          using 2(1) owner by (simp add: owner_of_def)
        ultimately show ?thesis
          using EvAwaiter 2(3) ys(1) L(1) owner a by auto
      next
        case (3 i c xs)
        have took: "took (ev_set_pc s i) = Some c"
          using 3(2) by simp
        then have "xs = cs"
          using epath_unique [OF 3(3), of cs] L(4) out(2) by simp
        then show ?thesis
          using EvAwaiter 3(1,4) took L(4) by auto
      qed
    qed (use know in \<open>simp_all add: owner_of_def\<close>)
    show "informed ?s p \<Longrightarrow> informed s p" for p
      by (cases p) (auto split: if_splits)
    show "saw_flag ?s p \<Longrightarrow> saw_flag s p" for p
      by (simp add: saw_flag_def owner_of_def)
  qed simp
  then show ?thesis
    using a by (simp add: await_step_def)
qed

lemma ew_ok_check:
  assumes M: "event_inv s" and W: "ew_ok s w" and a: "ev_await_pc s a = ELocked" and fl: "flag_load True (Waits a) n w = (seen, w1)"
  shows "ew_ok (await_step a seen s) w1" and "seen \<longrightarrow> ev_signaled s" and "ev_taken s \<longrightarrow> seen"
proof -
  have owner: "owner_of s = Waits a"
    using event_owner(1) [OF M, of a] a by (simp add: in_section_def)
  obtain U where U: "w1 = w\<lparr> ew_view := (ew_view w)(Waits a := U) \<rparr>" "ew_view w (Waits a) \<le> U"
    "in_range w U" "seen \<longrightarrow> ev_signaled s" "seen \<longrightarrow> ew_published w \<le> U" "saw_flag s (Waits a) \<longrightarrow> seen"
    using flag_load_facts [OF W, of True "Waits a" n] fl by (metis fst_conv snd_conv)
  show "seen \<longrightarrow> ev_signaled s" "ev_taken s \<longrightarrow> seen"
    using U(4,6) owner by (simp_all add: saw_flag_def)
  have "ew_ok (at_await a (if seen then ERefused else EChecked) s) w1"
    unfolding U(1)
  proof (rule ew_ok_learn [OF W U(2,3)])
    let ?s = "at_await a (if seen then ERefused else EChecked) s"
    show "must_know ?s p l \<Longrightarrow> must_know s p l \<or> p = Waits a \<and> \<not> races l (ew_mem w) U" for p l
      using a by (cases l) (auto simp: owner_of_def split: if_splits)
    show "informed ?s p \<Longrightarrow> informed s p \<or> p = Waits a \<and> ev_signaled s \<and> ew_published w \<le> U" for p
      using U(4,5) by (cases p) (auto split: if_splits)
    show "saw_flag ?s p \<Longrightarrow> saw_flag s p \<or> p = Waits a \<and> 1 \<le> U EvSignaled" for p
      by (simp add: saw_flag_def owner_of_def)
  qed simp
  then show "ew_ok (await_step a seen s) w1"
    using a by (simp add: await_step_def)
qed

lemma ew_ok_await_step:
  assumes M: "event_inv s" and W: "ew_ok s w" and ord: "eo_check ord" and v: "views_await ord a n s w = (seen, w1)"
  shows "ew_ok (await_step a seen s) w1"
proof -
  have pass: "ew_ok (at_await a pc (s\<lparr> ev_mutex := m \<rparr>)) (event_learn q (ew_view w p) w)"
    if "owner_of s = p" "owner_of (s\<lparr> ev_mutex := m \<rparr>) = q" "ev_await_pc s a \<notin> {EParked, EResumed}"
      "pc = EThrough \<Longrightarrow> ev_await_pc s a = ERefused" "pc \<in> {ELocked, EParked, EThrough}" for pc m p q
  proof -
    have "ew_ok (at_await a pc (s\<lparr> ev_mutex := m \<rparr>)) (event_learn q (ew_view w (owner_of s)) w)"
      using that by (intro ew_ok_pass [OF W]) (auto simp: owner_of_def split: if_splits)
    then show ?thesis
      using that(1) by simp
  qed
  show ?thesis
  proof (cases "ev_await_pc s a")
    case EWantLock
    have "ew_ok (at_await a ELocked (s\<lparr> ev_mutex := AwaiterOwns a \<rparr>)) (event_lock (Waits a) w)" if "ev_mutex s = NoOwner"
      unfolding event_lock_def using that EWantLock by (intro pass) (simp_all add: owner_of_def)
    then show ?thesis
      using EWantLock v W by (auto simp: await_step_def views_await_def)
  next
    case ELocked
    then show ?thesis
      using ew_ok_check(1) [OF M W ELocked] v ord by (simp add: views_await_def)
  next
    case EChecked
    then show ?thesis
      using ew_ok_push [OF M W EChecked] v by (auto simp: views_await_def)
  next
    case EPushed
    have "ew_ok (at_await a EParked (s\<lparr> ev_mutex := NoOwner \<rparr>)) (event_unlock (Waits a) w)"
      unfolding event_unlock_def using EPushed event_owner(1) [OF M, of a]
      by (intro pass) (simp_all add: owner_of_def in_section_def)
    then show ?thesis
      using EPushed v by (auto simp: await_step_def views_await_def)
  next
    case ERefused
    have "ew_ok (at_await a EThrough (s\<lparr> ev_mutex := NoOwner \<rparr>)) (event_unlock (Waits a) w)"
      unfolding event_unlock_def using ERefused event_owner(1) [OF M, of a]
      by (intro pass) (simp_all add: owner_of_def in_section_def)
    then show ?thesis
      using ERefused v by (auto simp: await_step_def views_await_def)
  qed (use v W in \<open>auto simp: await_step_def views_await_def\<close>)
qed

text \<open>The exchange publishes what its thread has seen with the flag, and hands on what was published before.\<close>

lemma flag_exchange_facts:
  fixes acquire :: bool and i :: nat and w :: event_views
  assumes "ew_ok s w"
  defines "w' \<equiv> flag_exchange acquire True (Sets i) w"
  shows "ew_race w' = ew_race w" and "in_range w V \<Longrightarrow> in_range w' V" and "in_range w' (ew_view w' p)"
    and "ew_view w p \<le> ew_view w' p" and "wm_writes (ew_mem w') = wm_writes (ew_mem w)" and "1 \<le> ew_view w' (Sets i) EvSignaled"
    and "flag_ok (s'\<lparr> ev_signaled := True \<rparr>) w'"
    and "ew_published w' = (if ev_signaled s then ew_published w else ew_view w (Sets i))"
proof -
  note D = ew_okD [OF assms(1)] and F = flag_okD [OF ew_okD(2) [OF assms(1)]]
  let ?m = "ew_mem w" and ?V = "ew_view w (Sets i)" and ?N = "newest (ew_mem w) EvSignaled"
  let ?W = "store_view ?m EvSignaled ?N"
  let ?r = "weak_rmw acquire True EvSignaled (\<lambda>_. True) ?m ?V"
  define U where "U = (if acquire then sup ?V ?W else ?V)(EvSignaled := Suc ?N)"
  note N = rmw_newest [OF F(1), where a = acquire and r = True and f = "\<lambda>_. True" and V = ?V]
    and R = rmw_views [OF F(1), where a = acquire and r = True and f = "\<lambda>_. True" and V = ?V]
  have old: "fst ?r \<longleftrightarrow> ev_signaled s"
    using F(2,4) by (simp add: rmw_value)
  have w': "w' = w\<lparr> ew_mem := fst (snd ?r), ew_view := (ew_view w)(Sets i := U),
      ew_published := (if ev_signaled s then ew_published w else ?V) \<rparr>"
    using R(1) old by (simp add: w'_def flag_exchange_def split_beta Let_def U_def)
  show "ew_race w' = ew_race w" "wm_writes (ew_mem w') = wm_writes (ew_mem w)" "1 \<le> ew_view w' (Sets i) EvSignaled"
    "ew_published w' = (if ev_signaled s then ew_published w else ew_view w (Sets i))"
    by (simp_all add: w' U_def)
  have new: "newest (ew_mem w') EvSignaled = Suc ?N"
    using N(1) by (simp add: w')
  have wr: "wm_writes (ew_mem w') = wm_writes ?m"
    by (simp add: w')
  show grow: "in_range w V \<Longrightarrow> in_range w' V" for V
    by (simp add: in_range_def new wr)
  have W: "in_range w ?W"
    using F(3) by simp
  have V: "?V \<le> U"
    using D(3) [of "Sets i"] by (auto simp: U_def le_fun_def in_range_def intro: le_SucI)
  have "in_range w (if acquire then sup ?V ?W else ?V)"
    using D(3) in_range_sup [OF _ W] by simp
  then have U: "in_range w' U"
    by (simp add: U_def in_range_def new wr)
  show "in_range w' (ew_view w' p)"
    using U grow [OF D(3) [of p]] by (cases "p = Sets i") (simp_all add: w')
  show "ew_view w p \<le> ew_view w' p"
    using V by (simp add: w')
  have last: "store_view (ew_mem w') EvSignaled (Suc ?N) = sup U ?W"
    using R(1,2) by (simp add: w' U_def)
  have stores: "store_view (ew_mem w') EvSignaled n = store_view ?m EvSignaled n"
    "store_value (ew_mem w') EvSignaled n = store_value ?m EvSignaled n" if "n \<le> ?N" for n
    using R(3) [OF that] by (simp_all add: w')
  have pub: "ew_published w' \<le> sup U ?W"
    using F(2) F(5) [of ?N] V by (auto simp: w' le_supI1 le_supI2)
  have pub': "ew_published w' \<le> store_view ?m EvSignaled n" if "n \<le> ?N" "n \<noteq> 0" for n
    using F(2) F(5) [OF that] that by (simp add: w')
  show "flag_ok (s'\<lparr> ev_signaled := True \<rparr>) w'"
    unfolding flag_ok_def
  proof (intro conjI allI impI)
    show "wm_stores (ew_mem w') EvSignaled \<noteq> []"
      using N(2) by (simp add: w')
    show "ev_signaled (s'\<lparr> ev_signaled := True \<rparr>) = (newest (ew_mem w') EvSignaled \<noteq> 0)"
      by (simp add: new)
    fix n
    assume n: "n \<le> newest (ew_mem w') EvSignaled"
    show "in_range w' (store_view (ew_mem w') EvSignaled n)"
      using n U grow [OF W] grow [OF F(3)] in_range_sup last stores(1) by (cases "n = Suc ?N") (simp_all add: new)
    show "store_value (ew_mem w') EvSignaled n = (n \<noteq> 0)"
      using n N(3) F(4) stores(2) by (cases "n = Suc ?N") (simp_all add: new, simp add: w')
    show "ew_published w' \<le> store_view (ew_mem w') EvSignaled n" if "n \<noteq> 0"
      using n that pub pub' last stores(1) by (cases "n = Suc ?N") (simp_all add: new)
  qed
qed

lemma ew_ok_exchange:
  assumes W: "ew_ok s w" and pc: "ev_set_pc s i = SIdle"
  shows "ew_ok (set_step i sched s) (flag_exchange acquire True (Sets i) w)"
proof -
  let ?s = "at_set i (if ev_signaled s then SDone else SWantLock) (s\<lparr> ev_signaled := True \<rparr>)"
    and ?w = "flag_exchange acquire True (Sets i) w"
  note D = ew_okD [OF W] and X = flag_exchange_facts [OF W, where acquire = acquire and i = i]
  have "ew_ok ?s ?w"
  proof (rule ew_okI)
    show "\<not> ew_race ?w"
      using D(1) X(1) by simp
    show "flag_ok ?s ?w"
      using X(7) [where s' = s] by (simp add: flag_ok_def)
    show "in_range ?w (ew_view ?w p)" for p
      by (rule X(3))
    show "\<not> races l (ew_mem ?w) (ew_view ?w p)" if know: "must_know ?s p l" for p l
    proof -
      have "must_know s p l"
      proof (cases l)
        case (EvAwaiter x)
        have "must_know ?s p (EvAwaiter x)"
          using know by (simp only: EvAwaiter)
        then show ?thesis
          unfolding EvAwaiter by (cases rule: must_know_awaiterE) (auto simp: owner_of_def split: if_splits)
      qed (use know in \<open>simp_all add: owner_of_def\<close>)
      then have "\<not> races l (ew_mem ?w) (ew_view w p)"
        using D(4) X(5) by (simp add: races_def)
      then show ?thesis
        by (rule known_grow [OF _ X(4) X(3) must_know_plain [OF know]])
    qed
    show "ev_signaled ?s \<and> ew_published ?w \<le> ew_view ?w p" if inf: "informed ?s p" for p
    proof (cases "ev_signaled s")
      case True
      then have "informed s p"
        using inf by (cases p) (auto split: if_splits)
      then show ?thesis
        using True X(8) order_trans [OF D(5) X(4)] by simp
    next
      case False
      then have "p = Sets i"
        using inf D(7) [of p] by (cases p) (auto split: if_splits)
      then show ?thesis
        using False X(8) X(4) by simp
    qed
    show "1 \<le> ew_view ?w p EvSignaled" if "saw_flag ?s p" for p
    proof (cases "p = Sets i")
      case False
      then have "saw_flag s p"
        using that by (auto simp: saw_flag_def owner_of_def split: if_splits)
      then show ?thesis
        using D(6) [of p] X(4) [of p] by (metis le_fun_def order_trans)
    qed (use X(6) in simp)
  qed
  then show ?thesis
    using pc by (simp add: set_step_def)
qed

lemma ew_ok_take:
  assumes M: "event_inv s" and W: "ew_ok s w" and pc: "ev_set_pc s i = SLocked"
  shows "ew_ok (set_step i sched s) (event_touch EvList (Sets i) w)"
proof -
  let ?s = "at_set i (STook (ev_waiters s)) (s\<lparr> ev_waiters := nullptr, ev_taken := True \<rparr>)"
  have owner: "owner_of s = Sets i" "owner_of ?s = Sets i"
    using event_owner(2) [OF M, of i] pc by (simp_all add: owner_of_def)
  have W1: "ew_ok s (event_touch EvList (Sets i) w)"
    by (rule ew_ok_touch [OF W]) (simp_all add: owner)
  have "ew_ok ?s (event_touch EvList (Sets i) w)"
  proof (rule ew_ok_same [OF W1])
    show "must_know s p l" if know: "must_know ?s p l" for p l
    proof (cases l)
      case (EvAwaiter x)
      have "must_know ?s p (EvAwaiter x)"
        using know by (simp only: EvAwaiter)
      then show ?thesis
        unfolding EvAwaiter using owner by (cases rule: must_know_awaiterE) (auto split: if_splits)
    qed (use know owner in simp_all)
    show "informed ?s p \<Longrightarrow> informed s p" for p
      using pc by (cases p) (auto split: if_splits)
    show "saw_flag ?s p \<Longrightarrow> saw_flag s p" for p
      using pc owner by (auto simp: saw_flag_def split: if_splits)
  qed simp
  then show ?thesis
    using pc by (simp add: set_step_def)
qed

text \<open>The caller of \<open>set\<close> reads an awaiter and wakes its coroutine, which goes on knowing all that the caller knows.\<close>

lemma ew_ok_wake:
  assumes M: "event_inv s" and W: "ew_ok s w" and pc: "ev_set_pc s i = SLoop c" and c: "c \<noteq> nullptr"
  shows "ew_ok (set_step i sched s) (views_set ord i s w)"
proof -
  let ?aw = "ev_awaiters s c"
  let ?s = "at_await c EResumed (at_set i (SLoop (ea_next ?aw))
      (s\<lparr> ev_resumed := ev_resumed s @ [(c, resume_waiter sched (ea_sched ?aw) (ea_coro ?aw))] \<rparr>))"
  obtain ws cs where L: "epath (ev_awaiters s) (ev_waiters s) ws" "distinct (ws @ cs)"
    "\<And>x. x \<in> set cs \<Longrightarrow> ev_await_pc s x = EParked"
    "\<And>j d ds. took (ev_set_pc s j) = Some d \<Longrightarrow> epath (ev_awaiters s) d ds \<Longrightarrow> ds = cs"
    "\<And>j d. took (ev_set_pc s j) = Some d \<Longrightarrow> epath (ev_awaiters s) d cs"
    by (rule event_lists [OF M]) blast
  have mine: "took (ev_set_pc s i) = Some c"
    by (simp add: pc)
  obtain ds where ds: "cs = c # ds" "epath (ev_awaiters s) (ea_next ?aw) ds"
    using L(5) [OF mine] c by (cases cs) auto
  have only: "j = i" if "took (ev_set_pc s j) = Some d" for j d
  proof -
    have "set_active (ev_set_pc s j)"
      using that by (cases "ev_set_pc s j") simp_all
    then show ?thesis
      using event_owner(3) [OF M, of j i] pc by simp
  qed
  have wait: "ev_await_pc s c = EParked"
    using L(3) ds(1) by simp
  have know: "must_know s (Sets i) (EvAwaiter c)"
    by (rule must_know_took [OF mine L(5) [OF mine]]) (simp add: ds(1))
  have W1: "ew_ok s (event_touch (EvAwaiter c) (Sets i) w)"
  proof (rule ew_ok_touch [OF W know])
    fix p
    assume "must_know s p (EvAwaiter c)"
    then show "p = Sets i"
    proof (cases rule: must_know_awaiterE)
      case 1
      then show ?thesis
        using wait by simp
    next
      case (2 xs)
      then show ?thesis
        using epath_unique [OF L(1) 2(2)] L(2) ds(1) by auto
    next
      case (3 j d xs)
      then show ?thesis
        using only by simp
    qed
  qed
  let ?w1 = "event_touch (EvAwaiter c) (Sets i) w"
  note D = ew_okD [OF W1]
  let ?U = "sup (ew_view ?w1 (Waits c)) (ew_view ?w1 (Sets i))"
  have U: "ew_view ?w1 (Waits c) \<le> ?U" "in_range ?w1 ?U"
    using D(3) in_range_sup by simp_all
  have "ew_ok ?s (?w1\<lparr> ew_view := (ew_view ?w1)(Waits c := ?U) \<rparr>)"
  proof (rule ew_ok_learn [OF W1 U])
    show "must_know s p l \<or> p = Waits c \<and> \<not> races l (ew_mem ?w1) ?U" if knows: "must_know ?s p l" for p l
    proof (cases l)
      case (EvAwaiter x)
      have "must_know ?s p (EvAwaiter x)"
        using knows by (simp only: EvAwaiter)
      then show ?thesis
      proof (cases rule: must_know_awaiterE)
        case 1
        have "\<not> races (EvAwaiter c) (ew_mem ?w1) ?U"
          by (rule known_grow [OF D(4) [OF know] _ U(2)]) simp_all
        then show ?thesis
          using 1 EvAwaiter by (cases "x = c") simp_all
      next
        case (2 xs)
        then show ?thesis
          using EvAwaiter by (auto simp: owner_of_def)
      next
        case (3 j d xs)
        have "j = i"
          using 3(2) only [of j d] by (auto split: if_splits)
        then have "xs = ds"
          using 3(2,3) epath_unique [OF ds(2)] by simp
        then show ?thesis
          using EvAwaiter 3(1,4) \<open>j = i\<close> must_know_took [OF mine L(5) [OF mine]] ds(1) by simp
      qed
    qed (use knows in \<open>simp_all add: owner_of_def\<close>)
    have told: "ev_signaled s" "ew_published ?w1 \<le> ew_view ?w1 (Sets i)"
      using D(5,7) [of "Sets i"] pc by simp_all
    then show "informed ?s p \<Longrightarrow> informed s p \<or> p = Waits c \<and> ev_signaled s \<and> ew_published ?w1 \<le> ?U" for p
      using pc le_supI2 [OF told(2)] by (cases p) (auto split: if_splits)
    show "saw_flag ?s p \<Longrightarrow> saw_flag s p \<or> p = Waits c \<and> 1 \<le> ?U EvSignaled" for p
      using pc by (auto simp: saw_flag_def owner_of_def split: if_splits)
  qed simp
  then show ?thesis
    using pc c by (simp add: set_step_def views_set_def Let_def event_learn_def)
qed

lemma ew_ok_set_step:
  assumes M: "event_inv s" and W: "ew_ok s w" and ord: "eo_publish ord"
  shows "ew_ok (set_step i sched s) (views_set ord i s w)"
proof -
  have pass: "ew_ok (at_set i pc (s\<lparr> ev_mutex := m \<rparr>)) (event_learn q (ew_view w p) w)"
    if "owner_of s = p" "owner_of (s\<lparr> ev_mutex := m \<rparr>) = q" "took pc = took (ev_set_pc s i)"
      "set_active pc = set_active (ev_set_pc s i)" for pc m p q
  proof -
    have "ew_ok (at_set i pc (s\<lparr> ev_mutex := m \<rparr>)) (event_learn q (ew_view w (owner_of s)) w)"
      using that by (intro ew_ok_pass [OF W]) (auto simp: owner_of_def)
    then show ?thesis
      using that(1) by simp
  qed
  show ?thesis
  proof (cases "ev_set_pc s i")
    case SIdle
    then show ?thesis
      using ew_ok_exchange [OF W SIdle] ord by (simp add: views_set_def)
  next
    case SWantLock
    have "ew_ok (at_set i SLocked (s\<lparr> ev_mutex := SetterOwns i \<rparr>)) (event_lock (Sets i) w)" if "ev_mutex s = NoOwner"
      unfolding event_lock_def using that SWantLock by (intro pass) (simp_all add: owner_of_def)
    then show ?thesis
      using SWantLock W by (simp add: set_step_def views_set_def)
  next
    case SLocked
    then show ?thesis
      using ew_ok_take [OF M W SLocked] by (simp add: views_set_def)
  next
    case (STook c)
    have "ew_ok (at_set i (SLoop c) (s\<lparr> ev_mutex := NoOwner \<rparr>)) (event_unlock (Sets i) w)"
      unfolding event_unlock_def using STook event_owner(2) [OF M, of i] by (intro pass) (simp_all add: owner_of_def)
    then show ?thesis
      using STook by (simp add: set_step_def views_set_def)
  next
    case (SLoop c)
    show ?thesis
    proof (cases "c = nullptr")
      case True
      have "ew_ok (at_set i SDone s) w"
      proof (rule ew_ok_same [OF W])
        show "must_know s p l" if know: "must_know (at_set i SDone s) p l" for p l
        proof (cases l)
          case (EvAwaiter x)
          have "must_know (at_set i SDone s) p (EvAwaiter x)"
            using know by (simp only: EvAwaiter)
          then show ?thesis
            unfolding EvAwaiter by (cases rule: must_know_awaiterE) (auto simp: owner_of_def split: if_splits)
        qed (use know in \<open>simp_all add: owner_of_def\<close>)
        show "informed (at_set i SDone s) p \<Longrightarrow> informed s p" for p
          by (cases p) (auto split: if_splits)
        show "saw_flag (at_set i SDone s) p \<Longrightarrow> saw_flag s p" for p
          by (auto simp: saw_flag_def owner_of_def split: if_splits)
      qed simp
      then show ?thesis
        using SLoop True by (simp add: set_step_def views_set_def)
    qed (rule ew_ok_wake [OF M W SLoop])
  qed (use W in \<open>simp add: set_step_def views_set_def\<close>)
qed

lemma event_weak_ok:
  assumes "event_weak_reach ord z" and ord: "eo_ready ord" "eo_check ord" "eo_publish ord"
  shows "event_reach (fst z) \<and> ew_ok (fst z) (snd z)"
  using assms(1)
proof induction
  case (ew_start aw)
  then show ?case
    by (simp add: event_start ew_ok_init)
next
  case (ew_wait z a h sched n)
  obtain s w where z: "z = (s, w)"
    by (cases z)
  have W: "event_reach s" "ew_ok s w" "ev_await_pc s a = EIdle"
    using ew_wait z by simp_all
  obtain seen w1 where fl: "flag_load (eo_ready ord) (Waits a) n w = (seen, w1)"
    by (cases "flag_load (eo_ready ord) (Waits a) n w")
  have "seen \<longrightarrow> ev_signaled s"
    using flag_load_facts [OF W(2), of "eo_ready ord" "Waits a" n] fl by (metis fst_conv)
  then have "event_reach (event_await a h sched seen s)"
    using event_wait [OF W(1,3) ew_wait.hyps(3)] by blast
  then show ?case
    using ew_ok_await [OF event_reach_inv [OF W(1)] W(2,3) ew_wait.hyps(3) ord(1), of h sched n] fl
    by (simp add: z weak_event_await_def)
next
  case (ew_await z a n)
  obtain s w where z: "z = (s, w)"
    by (cases z)
  have W: "event_reach s" "ew_ok s w"
    using ew_await z by simp_all
  obtain seen w1 where v: "views_await ord a n s w = (seen, w1)"
    by (cases "views_await ord a n s w")
  have "(seen \<longrightarrow> ev_signaled s) \<and> (ev_taken s \<longrightarrow> seen)" if "ev_await_pc s a = ELocked"
    using ew_ok_check(2,3) [OF event_reach_inv [OF W(1)] W(2) that, of n seen w1] v ord(2) that by (simp add: views_await_def)
  then have "event_reach (await_step a seen s)"
    by (intro event_await_step [OF W(1)]) blast
  then show ?case
    using ew_ok_await_step [OF event_reach_inv [OF W(1)] W(2) ord(2) v] v by (simp add: z weak_await_step_def)
next
  case (ew_set z i sched)
  then show ?case
    using ew_ok_set_step [OF event_reach_inv _ ord(3)] event_set_step by (cases z) (simp add: weak_set_step_def)
next
  case (ew_work z p)
  then show ?case
    using ew_ok_access [of "fst z" "snd z" EvData p] by (cases z) (simp add: event_work_def)
next
  case (ew_see z p q)
  obtain s w where z: "z = (s, w)"
    by (cases z)
  have W: "event_reach s" "ew_ok s w"
    using ew_see z by simp_all
  have "ew_ok s (event_learn p (ew_view w q) w)"
    unfolding event_learn_def by (rule ew_ok_learn [OF W(2)]) (simp_all add: in_range_sup ew_okD(3) [OF W(2)])
  then show ?case
    using W(1) by (simp add: z event_see_def)
qed

section \<open>What the event promises\<close>

text \<open>
  C8: also on a memory with release and acquire, where a load of \<open>signaled_\<close> may return an old value, no wake-up
  is lost: once \<open>set\<close> has been called and no call of it is under way, no coroutine is suspended on the event.
  A coroutine that came through, without waiting or resumed by \<open>set\<close>, has seen everything that the caller that
  set the flag had seen and done before, and everything done to its own awaiter, which it then destroys. No two
  accesses to the list or to an awaiter race.
\<close>

theorem event_publishes:
  assumes "event_weak_reach event_code_orders z"
  shows "(ev_signaled (fst z) \<and> (\<forall>i. ev_set_pc (fst z) i \<in> {SIdle, SDone}) \<longrightarrow> ev_await_pc (fst z) a \<notin> {EPushed, EParked})
    \<and> (ev_await_pc (fst z) a \<in> {EThrough, EResumed} \<longrightarrow> ev_signaled (fst z) \<and> ew_published (snd z) \<le> ew_view (snd z) (Waits a)
        \<and> \<not> races (EvAwaiter a) (ew_mem (snd z)) (ew_view (snd z) (Waits a)))
    \<and> \<not> ew_race (snd z)"
proof -
  have R: "event_reach (fst z)" "ew_ok (fst z) (snd z)"
    using event_weak_ok [OF assms] by (simp_all add: event_code_orders_def)
  note D = ew_okD [OF R(2)]
  have "\<not> set_active (ev_set_pc (fst z) i)" if "ev_set_pc (fst z) i \<in> {SIdle, SDone}" for i
    using that by auto
  then show ?thesis
    using at_rest [OF R(1), of a] D(1) D(4) [of "Waits a" "EvAwaiter a"] D(5,7) [of "Waits a"] by auto
qed

text \<open>The exchange need not acquire.\<close>

lemma event_exchange_release_only:
  assumes "event_weak_reach (event_code_orders\<lparr> eo_take := False \<rparr>) z"
  shows "\<not> ew_race (snd z)" and "ev_await_pc (fst z) a \<in> {EThrough, EResumed} \<Longrightarrow> ew_published (snd z) \<le> ew_view (snd z) (Waits a)"
  using event_weak_ok [OF assms] ew_okD(1) ew_okD(5) [of "fst z" "snd z" "Waits a"] by (auto simp: event_code_orders_def)

text \<open>Executions; events that are not possible are skipped.\<close>

datatype weak_event_op = WAwait addr handle addr nat | WStep addr nat | WSet nat addr | WWork nat

fun weak_event_run :: "event_orders \<Rightarrow> weak_event_op list \<Rightarrow> weak_event \<Rightarrow> weak_event" where
  "weak_event_run ord [] z = z"
| "weak_event_run ord (WAwait a h sched n # es) z = weak_event_run ord es
     (if ev_await_pc (fst z) a = EIdle \<and> a \<noteq> nullptr then weak_event_await ord a h sched n z else z)"
| "weak_event_run ord (WStep a n # es) z = weak_event_run ord es (weak_await_step ord a n z)"
| "weak_event_run ord (WSet i sched # es) z = weak_event_run ord es (weak_set_step ord i sched z)"
| "weak_event_run ord (WWork i # es) z = weak_event_run ord es (event_work (Sets i) z)"

lemma weak_event_run_reach: "event_weak_reach ord z \<Longrightarrow> event_weak_reach ord (weak_event_run ord es z)"
proof (induction ord es z rule: weak_event_run.induct)
  case (2 ord a h sched n es z)
  show ?case
    using "2.IH" "2.prems" ew_wait [OF "2.prems", of a h sched n] by simp
qed (auto intro: ew_await ew_set ew_work)

abbreviation weak_event_start :: weak_event where
  "weak_event_start \<equiv> (event_init (\<lambda>_. \<lparr> ea_coro = 0, ea_sched = 0, ea_next = 0 \<rparr>), event_views_init)"

text \<open>The coroutine reads a clear flag, the other thread works and calls \<open>set\<close>, the coroutine gets the mutex
  first and finds the flag set.\<close>

definition met_under_lock :: "weak_event_op list" where
  "met_under_lock = [WAwait 10 100 1 0, WWork 0, WSet 0 1, WStep 10 0, WStep 10 1, WStep 10 0]"

theorem event_publishes_witness:
  "ew_view (snd (weak_event_run event_code_orders met_under_lock weak_event_start)) (Waits 10) EvData \<ge> 1"
proof -
  let ?z = "weak_event_run event_code_orders met_under_lock weak_event_start"
  have "ev_await_pc (fst ?z) 10 = EThrough" "ew_published (snd ?z) EvData = 1"
    by code_simp+
  then show ?thesis
    using event_publishes [OF weak_event_run_reach [OF ew_start], of met_under_lock _ 10] by (auto simp: le_fun_def) (metis)
qed

definition met_after :: "weak_event_op list" where
  "met_after = [WWork 0, WSet 0 1, WAwait 10 100 1 1]"

text \<open>The other orders are needed: without one of them a coroutine comes through without having seen the work
  done before \<open>set\<close>.\<close>

lemma event_orders_needed:
  fixes ord :: event_orders
  assumes "\<not> (eo_ready ord \<and> eo_check ord \<and> eo_publish ord)" and "eo_take ord"
  shows "\<exists>z a. event_weak_reach ord z \<and> ev_await_pc (fst z) a = EThrough \<and> \<not> ew_published (snd z) \<le> ew_view (snd z) (Waits a)"
proof -
  define missed where "missed z \<longleftrightarrow> ev_await_pc (fst z) 10 = EThrough
    \<and> ew_view (snd z) (Waits 10) EvData < ew_published (snd z) EvData" for z :: weak_event
  have "missed (weak_event_run \<lparr> eo_ready = False, eo_check = False, eo_take = True, eo_publish = False \<rparr> met_after weak_event_start)"
    "missed (weak_event_run \<lparr> eo_ready = False, eo_check = False, eo_take = True, eo_publish = True \<rparr> met_after weak_event_start)"
    "missed (weak_event_run \<lparr> eo_ready = False, eo_check = True, eo_take = True, eo_publish = False \<rparr> met_after weak_event_start)"
    "missed (weak_event_run \<lparr> eo_ready = False, eo_check = True, eo_take = True, eo_publish = True \<rparr> met_after weak_event_start)"
    "missed (weak_event_run \<lparr> eo_ready = True, eo_check = False, eo_take = True, eo_publish = False \<rparr> met_after weak_event_start)"
    "missed (weak_event_run \<lparr> eo_ready = True, eo_check = False, eo_take = True, eo_publish = True \<rparr> met_under_lock weak_event_start)"
    "missed (weak_event_run \<lparr> eo_ready = True, eo_check = True, eo_take = True, eo_publish = False \<rparr> met_after weak_event_start)"
    unfolding missed_def by code_simp+
  then have "\<exists>es. missed (weak_event_run ord es weak_event_start)"
    using assms by (cases ord; cases "eo_ready ord"; cases "eo_check ord"; cases "eo_publish ord") auto
  then show ?thesis
    unfolding missed_def using weak_event_run_reach [OF ew_start] by (metis le_fun_def leD)
qed

end
