(* ===== verification/Task.thy ===== *)
theory Task
  imports Novaio_Prelude
begin

text \<open>
  \<open>Task<T>\<close>, \<open>Task<void>\<close> and \<open>DetachedTask\<close> of \<open>include/novaio/task.hpp\<close>: the promises, their
  awaiters and the symmetric transfer between coroutine frames. A coroutine body is the user's code;
  it is given as a tree of what it does, which may be infinite (a server loop, a recursion without
  end). The frames live in a memory of their own, indexed by numbers, and the machine below does to
  them what the promise types and awaiters do. Memory is not bounded, so a promise's allocation always
  succeeds. A body awaits a task where it creates it, as the temporary of \<open>co_await f(...)\<close>; a \<open>Task\<close> that is kept in a
  variable is not part of the bodies. \<open>Task_Types\<close> shows that no such body of the right types makes the machine go wrong,
  \<open>Task_Direct\<close> that a \<open>co_await\<close> of a task behaves as a call that returns, throws or does not end.
\<close>

section \<open>Bodies\<close>

text \<open>The three coroutine types, and what an awaited task delivers: a value, nothing, or an exception.\<close>

datatype kind = Valued | Void | Detached

datatype ('v, 'x) result = Value 'v | Nothing | Thrown 'x

text \<open>
  A body returns a value or nothing, lets an exception escape, does something the outside observes,
  evaluates \<open>co_await f(...)\<close> on a task with body \<open>b\<close> and goes on with its result (a surrounding \<open>try\<close>
  decides what happens to an exception), or hands its own handle with a request \<open>q\<close> to something
  outside, a timer or the engine, that later resumes it with an answer.
\<close>

codatatype ('v, 'q, 'e, 'x) coro =
    Co_Return 'v
  | Co_Return_Void
  | Co_Throw 'x
  | Co_Do 'q "('v, 'q, 'e, 'x) coro"
  | Co_Await kind "('v, 'q, 'e, 'x) coro" "('v, 'x) result \<Rightarrow> ('v, 'q, 'e, 'x) coro"
  | Co_Suspend 'q "'e \<Rightarrow> ('v, 'q, 'e, 'x) coro"

section \<open>Frames\<close>

text \<open>Where a frame is suspended: not started, at \<open>co_await\<close> of the task in frame \<open>c\<close>, on something
  outside, or at its end.\<close>

datatype ('v, 'q, 'e, 'x) point =
    Initial "('v, 'q, 'e, 'x) coro"
  | Awaiting nat "('v, 'x) result \<Rightarrow> ('v, 'q, 'e, 'x) coro"
  | External "'e \<Rightarrow> ('v, 'q, 'e, 'x) coro"
  | Final

text \<open>The promise with the suspension point. \<open>Task<void>::promise_type\<close> has no value, and the promise of a
  \<open>DetachedTask\<close> none of the three fields; they stay as they are in such a frame.\<close>

record ('v, 'q, 'e, 'x) frame =
  fr_kind :: kind
  fr_value :: 'v
  fr_exception :: "'x option"
  fr_continuation :: "nat option"
  fr_point :: "('v, 'q, 'e, 'x) point"

type_synonym ('v, 'q, 'e, 'x) frames = "nat \<Rightarrow> ('v, 'q, 'e, 'x) frame option"

text \<open>What the thread does: run the code of a frame, transfer to a frame that is suspended, be back in
  the caller of \<open>resume\<close>, or be in \<open>std::terminate\<close>.\<close>

datatype ('v, 'q, 'e, 'x) control =
    Run nat "('v, 'q, 'e, 'x) coro"
  | Transfer nat
  | Yield
  | Terminated

record ('v, 'q, 'e, 'x) machine =
  mc_frames :: "('v, 'q, 'e, 'x) frames"
  mc_control :: "('v, 'q, 'e, 'x) control"
  mc_parked :: "nat option"     \<comment> \<open>the frame whose handle is with a timer or a request\<close>
  mc_log :: "'q list"           \<comment> \<open>what the bodies did and requested, in order\<close>
  mc_fault :: bool              \<comment> \<open>a destroyed or finished frame was accessed or resumed, or a member
                                    that the promise does not have was used\<close>

definition with_frame :: "nat \<Rightarrow> (('v, 'q, 'e, 'x) frame \<Rightarrow> ('v, 'q, 'e, 'x) frame option)
    \<Rightarrow> ('v, 'q, 'e, 'x) machine \<Rightarrow> ('v, 'q, 'e, 'x) machine" where
  "with_frame h f m =
     (case mc_frames m h of
        None \<Rightarrow> m\<lparr> mc_fault := True \<rparr>
      | Some fr \<Rightarrow> m\<lparr> mc_frames := (mc_frames m)(h := f fr) \<rparr>)"

section \<open>\<open>Task<T>\<close>\<close>

text \<open>Calling a coroutine: the frame is allocated, its promise is fresh, and it is suspended before its
  first statement; \<open>v0\<close> is the value of a \<open>T\<close> that was only constructed.\<close>

definition new_task :: "'v \<Rightarrow> nat \<Rightarrow> ('v, 'q, 'e, 'x) coro \<Rightarrow> ('v, 'q, 'e, 'x) machine \<Rightarrow> ('v, 'q, 'e, 'x) machine" where
  "new_task v0 h b m = m\<lparr> mc_frames := (mc_frames m)(h := Some \<lparr> fr_kind = Valued, fr_value = v0,
     fr_exception = None, fr_continuation = None, fr_point = Initial b \<rparr>) \<rparr>"

definition return_value :: "nat \<Rightarrow> 'v \<Rightarrow> ('v, 'q, 'e, 'x) machine \<Rightarrow> ('v, 'q, 'e, 'x) machine" where
  "return_value h v = with_frame h (\<lambda>f. Some (f\<lparr> fr_value := v \<rparr>))"

definition unhandled_exception :: "nat \<Rightarrow> 'x \<Rightarrow> ('v, 'q, 'e, 'x) machine \<Rightarrow> ('v, 'q, 'e, 'x) machine" where
  "unhandled_exception h x = with_frame h (\<lambda>f. Some (f\<lparr> fr_exception := Some x \<rparr>))"

text \<open>\<open>FinalAwaiter::await_suspend\<close>: the continuation, or the no-op coroutine, which returns to the
  caller of \<open>resume\<close>.\<close>

definition final_suspend :: "nat \<Rightarrow> ('v, 'q, 'e, 'x) machine \<Rightarrow> ('v, 'q, 'e, 'x) machine" where
  "final_suspend h m =
     (case mc_frames m h of
        None \<Rightarrow> m\<lparr> mc_fault := True \<rparr>
      | Some f \<Rightarrow> (with_frame h (\<lambda>f. Some (f\<lparr> fr_point := Final \<rparr>)) m)\<lparr> mc_control :=
          (case fr_continuation f of Some c \<Rightarrow> Transfer c | None \<Rightarrow> Yield) \<rparr>)"

text \<open>\<open>Awaiter::await_suspend\<close> of a task: the awaiting coroutine becomes the continuation of the task,
  which is resumed in its place.\<close>

definition task_await_suspend :: "nat \<Rightarrow> nat \<Rightarrow> ('v, 'q, 'e, 'x) machine \<Rightarrow> ('v, 'q, 'e, 'x) machine" where
  "task_await_suspend c h m =
     (with_frame c (\<lambda>f. Some (f\<lparr> fr_continuation := Some h \<rparr>)) m)\<lparr> mc_control := Transfer c \<rparr>"

text \<open>\<open>Awaiter::await_resume\<close>: the exception of the task if there is one, else its value.\<close>

definition task_await_resume :: "('v, 'q, 'e, 'x) frame \<Rightarrow> ('v, 'x) result" where
  "task_await_resume f = (case fr_exception f of Some x \<Rightarrow> Thrown x | None \<Rightarrow> Value (fr_value f))"

text \<open>The \<open>Task\<close> object holds the handle of the frame or nothing. Moving hands the handle over,
  and \<open>~Task\<close> destroys the frame of the object that still has one.\<close>

record task_object =
  task_handle :: "nat option"

definition get_return_object :: "nat \<Rightarrow> task_object" where
  "get_return_object h = \<lparr> task_handle = Some h \<rparr>"

definition task_move :: "task_object \<Rightarrow> task_object \<times> task_object" where
  "task_move t = (\<lparr> task_handle = task_handle t \<rparr>, t\<lparr> task_handle := None \<rparr>)"

definition task_destroy :: "task_object \<Rightarrow> ('v, 'q, 'e, 'x) machine \<Rightarrow> ('v, 'q, 'e, 'x) machine" where
  "task_destroy t m = (case task_handle t of None \<Rightarrow> m | Some h \<Rightarrow> with_frame h (\<lambda>_. None) m)"

section \<open>\<open>Task<void>\<close>\<close>

text \<open>The specialisation repeats the code without the value.\<close>

definition new_void_task :: "'v \<Rightarrow> nat \<Rightarrow> ('v, 'q, 'e, 'x) coro \<Rightarrow> ('v, 'q, 'e, 'x) machine \<Rightarrow> ('v, 'q, 'e, 'x) machine" where
  "new_void_task v0 h b m = m\<lparr> mc_frames := (mc_frames m)(h := Some \<lparr> fr_kind = Void, fr_value = v0,
     fr_exception = None, fr_continuation = None, fr_point = Initial b \<rparr>) \<rparr>"

definition return_void :: "nat \<Rightarrow> ('v, 'q, 'e, 'x) machine \<Rightarrow> ('v, 'q, 'e, 'x) machine" where
  "return_void h = with_frame h Some"

definition void_unhandled_exception :: "nat \<Rightarrow> 'x \<Rightarrow> ('v, 'q, 'e, 'x) machine \<Rightarrow> ('v, 'q, 'e, 'x) machine" where
  "void_unhandled_exception h x = with_frame h (\<lambda>f. Some (f\<lparr> fr_exception := Some x \<rparr>))"

definition void_final_suspend :: "nat \<Rightarrow> ('v, 'q, 'e, 'x) machine \<Rightarrow> ('v, 'q, 'e, 'x) machine" where
  "void_final_suspend h m =
     (case mc_frames m h of
        None \<Rightarrow> m\<lparr> mc_fault := True \<rparr>
      | Some f \<Rightarrow> (with_frame h (\<lambda>f. Some (f\<lparr> fr_point := Final \<rparr>)) m)\<lparr> mc_control :=
          (case fr_continuation f of None \<Rightarrow> Yield | Some c \<Rightarrow> Transfer c) \<rparr>)"

definition void_await_suspend :: "nat \<Rightarrow> nat \<Rightarrow> ('v, 'q, 'e, 'x) machine \<Rightarrow> ('v, 'q, 'e, 'x) machine" where
  "void_await_suspend c h m =
     (with_frame c (\<lambda>f. Some (f\<lparr> fr_continuation := Some h \<rparr>)) m)\<lparr> mc_control := Transfer c \<rparr>"

definition void_await_resume :: "('v, 'q, 'e, 'x) frame \<Rightarrow> ('v, 'x) result" where
  "void_await_resume f = (case fr_exception f of Some x \<Rightarrow> Thrown x | None \<Rightarrow> Nothing)"

definition void_move :: "task_object \<Rightarrow> task_object \<times> task_object" where
  "void_move t = (\<lparr> task_handle = task_handle t \<rparr>, t\<lparr> task_handle := None \<rparr>)"

definition void_destroy :: "task_object \<Rightarrow> ('v, 'q, 'e, 'x) machine \<Rightarrow> ('v, 'q, 'e, 'x) machine" where
  "void_destroy t m = (case task_handle t of None \<Rightarrow> m | Some h \<Rightarrow> with_frame h (\<lambda>_. None) m)"

lemma void_same [effect_simps]:
  "void_unhandled_exception = unhandled_exception" "void_final_suspend = final_suspend"
  "void_await_suspend = task_await_suspend" "void_move = task_move" "void_destroy = task_destroy"
  by (simp_all add: fun_eq_iff void_unhandled_exception_def unhandled_exception_def void_final_suspend_def
      final_suspend_def void_await_suspend_def task_await_suspend_def void_move_def task_move_def void_destroy_def
      task_destroy_def split: option.splits)

section \<open>\<open>DetachedTask\<close>\<close>

definition new_detached :: "'v \<Rightarrow> nat \<Rightarrow> ('v, 'q, 'e, 'x) coro \<Rightarrow> ('v, 'q, 'e, 'x) machine \<Rightarrow> ('v, 'q, 'e, 'x) machine" where
  "new_detached v0 h b m = m\<lparr> mc_frames := (mc_frames m)(h := Some \<lparr> fr_kind = Detached, fr_value = v0,
     fr_exception = None, fr_continuation = None, fr_point = Initial b \<rparr>) \<rparr>"

text \<open>It does not suspend at its end, so its frame is destroyed there.\<close>

definition detached_return :: "nat \<Rightarrow> ('v, 'q, 'e, 'x) machine \<Rightarrow> ('v, 'q, 'e, 'x) machine" where
  "detached_return h m = (with_frame h (\<lambda>_. None) m)\<lparr> mc_control := Yield \<rparr>"

definition detached_exception :: "('v, 'q, 'e, 'x) machine \<Rightarrow> ('v, 'q, 'e, 'x) machine" where
  "detached_exception m = m\<lparr> mc_control := Terminated \<rparr>"

section \<open>The machine\<close>

text \<open>What does not compile: \<open>co_return v\<close> where the promise has only \<open>return_void\<close>, \<open>co_return\<close> without a value where
  it has only \<open>return_value\<close>, and \<open>co_await\<close> of a \<open>DetachedTask\<close>.\<close>

definition ill_typed :: "('v, 'q, 'e, 'x) machine \<Rightarrow> ('v, 'q, 'e, 'x) machine" where
  "ill_typed m = m\<lparr> mc_fault := True, mc_control := Yield \<rparr>"

text \<open>A body has ended.\<close>

definition finish :: "nat \<Rightarrow> ('v, 'x) result \<Rightarrow> ('v, 'q, 'e, 'x) machine \<Rightarrow> ('v, 'q, 'e, 'x) machine" where
  "finish h r m =
     (case map_option fr_kind (mc_frames m h) of
        None \<Rightarrow> m\<lparr> mc_fault := True, mc_control := Yield \<rparr>
      | Some Valued \<Rightarrow>
          (case r of Value v \<Rightarrow> final_suspend h (return_value h v m)
                   | Thrown x \<Rightarrow> final_suspend h (unhandled_exception h x m)
                   | Nothing \<Rightarrow> ill_typed m)
      | Some Void \<Rightarrow>
          (case r of Nothing \<Rightarrow> void_final_suspend h (return_void h m)
                   | Thrown x \<Rightarrow> void_final_suspend h (void_unhandled_exception h x m)
                   | Value _ \<Rightarrow> ill_typed m)
      | Some Detached \<Rightarrow>
          (case r of Nothing \<Rightarrow> detached_return h m
                   | Thrown _ \<Rightarrow> detached_exception m
                   | Value _ \<Rightarrow> ill_typed m))"

text \<open>\<open>co_await f(...)\<close> in frame \<open>h\<close>: the call creates frame \<open>c\<close> and the temporary \<open>Task\<close>, whose awaiter takes over.\<close>

definition await_task :: "'v \<Rightarrow> kind \<Rightarrow> nat \<Rightarrow> nat \<Rightarrow> ('v, 'q, 'e, 'x) coro \<Rightarrow> ('v, 'q, 'e, 'x) machine \<Rightarrow> ('v, 'q, 'e, 'x) machine" where
  "await_task v0 \<kappa> c h b m =
     (case \<kappa> of
        Valued \<Rightarrow> task_await_suspend c h (new_task v0 c b m)
      | Void \<Rightarrow> void_await_suspend c h (new_void_task v0 c b m)
      | Detached \<Rightarrow> ill_typed m)"

text \<open>Back in frame \<open>h\<close>: \<open>await_resume\<close> of the awaiter, then \<open>~Task\<close> of the temporary at the end of the full expression.\<close>

definition await_back :: "nat \<Rightarrow> nat \<Rightarrow> (('v, 'x) result \<Rightarrow> ('v, 'q, 'e, 'x) coro) \<Rightarrow> ('v, 'q, 'e, 'x) machine \<Rightarrow> ('v, 'q, 'e, 'x) machine" where
  "await_back c h k m =
     (case mc_frames m c of
        None \<Rightarrow> m\<lparr> mc_fault := True, mc_control := Yield \<rparr>
      | Some f \<Rightarrow>
          (case fr_kind f of
             Valued \<Rightarrow> (task_destroy (get_return_object c) m)\<lparr> mc_control := Run h (k (task_await_resume f)) \<rparr>
           | Void \<Rightarrow> (void_destroy (get_return_object c) m)\<lparr> mc_control := Run h (k (void_await_resume f)) \<rparr>
           | Detached \<Rightarrow> ill_typed m))"

text \<open>One step of the thread; \<open>alloc\<close> is the allocator behind the promises' \<open>operator new\<close>.\<close>

definition task_step :: "(('v, 'q, 'e, 'x) frames \<Rightarrow> nat) \<Rightarrow> 'v \<Rightarrow> ('v, 'q, 'e, 'x) machine \<Rightarrow> ('v, 'q, 'e, 'x) machine" where
  "task_step alloc v0 m =
     (case mc_control m of
        Run h (Co_Return v) \<Rightarrow> finish h (Value v) m
      | Run h Co_Return_Void \<Rightarrow> finish h Nothing m
      | Run h (Co_Throw x) \<Rightarrow> finish h (Thrown x) m
      | Run h (Co_Do q b) \<Rightarrow> m\<lparr> mc_log := mc_log m @ [q], mc_control := Run h b \<rparr>
      | Run h (Co_Await \<kappa> b k) \<Rightarrow>
          (let c = alloc (mc_frames m)
           in await_task v0 \<kappa> c h b (with_frame h (\<lambda>f. Some (f\<lparr> fr_point := Awaiting c k \<rparr>)) m))
      | Run h (Co_Suspend q k) \<Rightarrow>
          (with_frame h (\<lambda>f. Some (f\<lparr> fr_point := External k \<rparr>)) m)
            \<lparr> mc_control := Yield, mc_parked := Some h, mc_log := mc_log m @ [q] \<rparr>
      | Transfer h \<Rightarrow>
          (case map_option fr_point (mc_frames m h) of
             Some (Initial b) \<Rightarrow> m\<lparr> mc_control := Run h b \<rparr>
           | Some (Awaiting c k) \<Rightarrow> await_back c h k m
           | _ \<Rightarrow> m\<lparr> mc_fault := True, mc_control := Yield \<rparr>)
      | Yield \<Rightarrow> m
      | Terminated \<Rightarrow> m)"

text \<open>The answer \<open>e\<close> arrives for the frame that waits outside.\<close>

definition resume_parked :: "'e \<Rightarrow> ('v, 'q, 'e, 'x) machine \<Rightarrow> ('v, 'q, 'e, 'x) machine" where
  "resume_parked e m =
     (case mc_parked m of None \<Rightarrow> m | Some h \<Rightarrow>
      case map_option fr_point (mc_frames m h) of
        Some (External k) \<Rightarrow> m\<lparr> mc_control := Run h (k e), mc_parked := None \<rparr>
      | _ \<Rightarrow> m\<lparr> mc_fault := True, mc_parked := None \<rparr>)"

text \<open>The machine with its environment: an answer is consumed when the thread has nothing to do.\<close>

definition drive :: "(('v, 'q, 'e, 'x) frames \<Rightarrow> nat) \<Rightarrow> 'v
    \<Rightarrow> ('v, 'q, 'e, 'x) machine \<times> 'e list \<Rightarrow> ('v, 'q, 'e, 'x) machine \<times> 'e list" where
  "drive alloc v0 s =
     (let (m, es) = s in
      if mc_control m = Yield \<and> mc_parked m \<noteq> None
      then (case es of [] \<Rightarrow> (m, []) | e # es1 \<Rightarrow> (resume_parked e m, es1))
      else (task_step alloc v0 m, es))"

text \<open>A \<open>DetachedTask\<close> with this body, resumed for the first time by a scheduler.\<close>

definition launch :: "'v \<Rightarrow> ('v, 'q, 'e, 'x) coro \<Rightarrow> ('v, 'q, 'e, 'x) machine" where
  "launch v0 b = new_detached v0 0 b
     \<lparr> mc_frames = (\<lambda>_. None), mc_control = Transfer 0, mc_parked = None, mc_log = [], mc_fault = False \<rparr>"

text \<open>What is assumed of the allocator: it returns memory that no frame occupies.\<close>

definition alloc_law :: "(('v, 'q, 'e, 'x) frames \<Rightarrow> nat) \<Rightarrow> bool" where
  "alloc_law alloc \<longleftrightarrow> (\<forall>fs. finite (dom fs) \<longrightarrow> fs (alloc fs) = None)"

definition fresh_frame :: "('v, 'q, 'e, 'x) frames \<Rightarrow> nat" where
  "fresh_frame fs = (LEAST n. fs n = None)"

lemma fresh_frame_law: "alloc_law fresh_frame"
  unfolding alloc_law_def
proof (intro allI impI)
  fix fs :: "('v, 'q, 'e, 'x) frames"
  assume "finite (dom fs)"
  then obtain n where "n \<notin> dom fs"
    using ex_new_if_finite infinite_UNIV_nat by blast
  then have "fs n = None"
    by (simp add: domIff)
  then show "fs (fresh_frame fs) = None"
    unfolding fresh_frame_def by (rule LeastI)
qed

section \<open>Ownership of a frame\<close>

text \<open>However often a \<open>Task\<close> is moved, its frame is destroyed once: the objects it was moved out of are empty,
  and destroying an empty object does nothing.\<close>

lemma moved_from_empty: "task_destroy (snd (task_move t)) m = m"
  by (simp add: task_move_def task_destroy_def)

lemma moved_to_owns: "fst (task_move t) = t"
  by (simp add: task_move_def)

lemma destroy_frees: "mc_frames m h = Some f \<Longrightarrow> mc_frames (task_destroy (get_return_object h) m) = (mc_frames m)(h := None)"
  by (simp add: task_destroy_def get_return_object_def with_frame_def)

end
