(* ===== verification/Task_Types.thy ===== *)
theory Task_Types
  imports Task
begin

text \<open>
  Type soundness of the coroutine types of \<open>task.hpp\<close>: a typing judgement for bodies, which is what the
  compiler checks of \<open>co_return\<close> and \<open>co_await\<close> against the promise types, and an invariant of the
  machine of \<open>Task\<close> that every step preserves. The frames form one chain from the frame that runs to the
  one the scheduler started, linked by the continuations; so a body that is well typed and awaits its tasks
  as temporaries never resumes a destroyed or finished frame, whether it ends or not. The types alone do
  not forbid to keep a \<open>Task\<close> in a variable and await it twice, which goes wrong.
\<close>

section \<open>Typing of bodies\<close>

text \<open>What \<open>await_resume\<close> delivers for a task of each type; the same holds of how its body may end.\<close>

definition delivers :: "kind \<Rightarrow> ('v, 'x) result \<Rightarrow> bool" where
  "delivers \<kappa> r = (case r of Value _ \<Rightarrow> \<kappa> = Valued | Nothing \<Rightarrow> \<kappa> \<noteq> Valued | Thrown _ \<Rightarrow> True)"

lemma delivers_simps [simp]:
  "delivers \<kappa> (Value v) \<longleftrightarrow> \<kappa> = Valued" "delivers \<kappa> Nothing \<longleftrightarrow> \<kappa> \<noteq> Valued" "delivers \<kappa> (Thrown x)"
  by (simp_all add: delivers_def)

coinductive typed :: "kind \<Rightarrow> ('v, 'q, 'e, 'x) coro \<Rightarrow> bool" where
  typed_return: "typed Valued (Co_Return v)"
| typed_return_void: "\<kappa> \<noteq> Valued \<Longrightarrow> typed \<kappa> Co_Return_Void"
| typed_throw: "typed \<kappa> (Co_Throw x)"
| typed_do: "typed \<kappa> b \<Longrightarrow> typed \<kappa> (Co_Do q b)"
| typed_await: "\<kappa>1 \<noteq> Detached \<Longrightarrow> typed \<kappa>1 b \<Longrightarrow> (\<And>r. delivers \<kappa>1 r \<Longrightarrow> typed \<kappa> (k r)) \<Longrightarrow> typed \<kappa> (Co_Await \<kappa>1 b k)"
| typed_suspend: "(\<And>e. typed \<kappa> (k e)) \<Longrightarrow> typed \<kappa> (Co_Suspend q k)"

inductive_simps typed_simps [simp]:
  "typed \<kappa> (Co_Return v)" "typed \<kappa> Co_Return_Void" "typed \<kappa> (Co_Throw x)" "typed \<kappa> (Co_Do q b)"
  "typed \<kappa> (Co_Await \<kappa>1 b k)" "typed \<kappa> (Co_Suspend q k)"

section \<open>The chain of frames\<close>

text \<open>The frames that wait, one for the other, for frame \<open>c\<close> to end: each is suspended at the \<open>co_await\<close> of the
  one before it and is its continuation; the last was started by the scheduler.\<close>

fun callers :: "('v, 'q, 'e, 'x) frames \<Rightarrow> nat \<Rightarrow> nat list \<Rightarrow> bool" where
  "callers fs c [] \<longleftrightarrow> (\<exists>f. fs c = Some f \<and> fr_kind f = Detached)"
| "callers fs c (h # hs) \<longleftrightarrow>
     (\<exists>f g k. fs c = Some f \<and> fr_kind f \<noteq> Detached \<and> fr_continuation f = Some h \<and>
        fs h = Some g \<and> fr_point g = Awaiting c k \<and> (\<forall>r. delivers (fr_kind f) r \<longrightarrow> typed (fr_kind g) (k r)) \<and>
        callers fs h hs)"

inductive active :: "('v, 'q, 'e, 'x) frames \<Rightarrow> ('v, 'q, 'e, 'x) control \<Rightarrow> nat option \<Rightarrow> nat list \<Rightarrow> bool"
  for fs where
  running: "fs h = Some f \<Longrightarrow> typed (fr_kind f) b \<Longrightarrow> callers fs h hs \<Longrightarrow> active fs (Run h b) None (h # hs)"
| entering: "fs h = Some f \<Longrightarrow> fr_point f = Initial b \<Longrightarrow> typed (fr_kind f) b \<Longrightarrow> callers fs h hs
    \<Longrightarrow> active fs (Transfer h) None (h # hs)"
| returning: "fs c = Some f \<Longrightarrow> fr_point f = Final \<Longrightarrow> callers fs c (h # hs)
    \<Longrightarrow> active fs (Transfer h) None (c # h # hs)"
| waiting: "fs h = Some f \<Longrightarrow> fr_point f = External k \<Longrightarrow> (\<And>e. typed (fr_kind f) (k e)) \<Longrightarrow> callers fs h hs
    \<Longrightarrow> active fs Yield (Some h) (h # hs)"
| idle: "active fs Yield None []"
| aborted: "callers fs h hs \<Longrightarrow> active fs Terminated None (h # hs)"

inductive_cases active_run: "active fs (Run h b) p hs"

definition sound :: "('v, 'q, 'e, 'x) machine \<Rightarrow> nat list \<Rightarrow> bool" where
  "sound m hs \<longleftrightarrow> \<not> mc_fault m \<and> dom (mc_frames m) = set hs \<and> distinct hs \<and>
     active (mc_frames m) (mc_control m) (mc_parked m) hs"

lemma callers_cong:
  "(\<And>x. x \<in> set (c # hs) \<Longrightarrow> fs x = fs' x) \<Longrightarrow> callers fs c hs = callers fs' c hs"
  by (induction hs arbitrary: c) auto

lemma callers_upd:
  assumes "callers fs c hs" and "c \<notin> set hs" and "fs c = Some f" and "fr_kind f' = fr_kind f" and "fr_continuation f' = fr_continuation f"
  shows "callers (fs(c \<mapsto> f')) c hs"
proof (cases hs)
  case Nil
  then show ?thesis
    using assms by simp
next
  case (Cons h hs1)
  then have "callers (fs(c \<mapsto> f')) h hs1 = callers fs h hs1"
    using assms(2) by (intro callers_cong) auto
  then show ?thesis
    using assms Cons by auto
qed

lemma callers_other: "callers fs h hs \<Longrightarrow> c \<notin> set (h # hs) \<Longrightarrow> callers (fs(c := x)) h hs"
  by (subst callers_cong [where fs' = fs]) auto

section \<open>Preservation\<close>

lemma sound_running:
  assumes "sound m hs" and "mc_control m = Run h b"
  obtains f hs1 where "hs = h # hs1" "h \<notin> set hs1" "mc_frames m h = Some f" "typed (fr_kind f) b" "callers (mc_frames m) h hs1"
    "mc_parked m = None" "\<not> mc_fault m" "dom (mc_frames m) = set hs" "distinct hs"
proof -
  have active: "active (mc_frames m) (Run h b) (mc_parked m) hs"
    using assms by (simp add: sound_def)
  from active show thesis
    by (cases rule: active_run) (use assms(1) in \<open>auto simp: sound_def intro: that\<close>)
qed

text \<open>A task that ends hands over to its caller; the frame the scheduler started is destroyed or aborts.\<close>

lemma sound_final:
  assumes "dom fs = set (h # hs1)" and "distinct (h # hs1)" and "fs h = Some f" and "callers fs h hs1"
    and "fr_kind f \<noteq> Detached" and "fr_kind f' = fr_kind f" and "fr_continuation f' = fr_continuation f" and "fr_point f' = Final"
    and "\<not> mc_fault m" and "mc_parked m = None"
  shows "\<exists>c. fr_continuation f = Some c \<and> sound (m\<lparr> mc_frames := fs(h \<mapsto> f'), mc_control := Transfer c \<rparr>) (h # hs1)"
proof -
  obtain c hs2 where hs: "hs1 = c # hs2" "fr_continuation f = Some c"
    using assms(3,4,5) by (cases hs1) auto
  have up: "callers (fs(h \<mapsto> f')) h (c # hs2)"
    by (rule callers_upd) (use assms hs in auto)
  have "active (fs(h \<mapsto> f')) (Transfer c) None (h # c # hs2)"
    using assms(8) by (intro returning [OF _ _ up]) auto
  then show ?thesis
    using assms hs by (intro exI [of _ c]) (auto simp: sound_def)
qed

lemma sound_finish:
  assumes "sound m hs" and "mc_control m = Run h b" and "map_option fr_kind (mc_frames m h) = Some \<kappa>" and "delivers \<kappa> r"
  shows "\<exists>hs1. sound (finish h r m) hs1"
proof -
  obtain f hs1 where R: "hs = h # hs1" "h \<notin> set hs1" "mc_frames m h = Some f" "callers (mc_frames m) h hs1"
      "mc_parked m = None" "\<not> mc_fault m" "dom (mc_frames m) = set (h # hs1)" "distinct (h # hs1)"
    using assms(1,2) by (rule sound_running) auto
  have k: "fr_kind f = \<kappa>"
    using assms(3) R(3) by simp
  note final = sound_final [OF R(7,8,3,4) _ _ _ _ R(6,5)]
  show ?thesis
  proof (cases \<kappa>)
    case Valued
    have "\<exists>c. fr_continuation f = Some c \<and> sound (m\<lparr> mc_frames := (mc_frames m)(h \<mapsto> f'), mc_control := Transfer c \<rparr>) (h # hs1)"
      if "fr_kind f' = Valued" "fr_continuation f' = fr_continuation f" "fr_point f' = Final" for f'
      using that k Valued by (intro final) auto
    from this [of "f\<lparr> fr_value := _, fr_point := Final \<rparr>"] this [of "f\<lparr> fr_exception := Some _, fr_point := Final \<rparr>"]
    show ?thesis
      using R(3) k Valued assms(4)
      by (cases r) (fastforce simp: finish_def final_suspend_def return_value_def unhandled_exception_def with_frame_def)+
  next
    case Void
    have "\<exists>c. fr_continuation f = Some c \<and> sound (m\<lparr> mc_frames := (mc_frames m)(h \<mapsto> f'), mc_control := Transfer c \<rparr>) (h # hs1)"
      if "fr_kind f' = Void" "fr_continuation f' = fr_continuation f" "fr_point f' = Final" for f'
      using that k Void by (intro final) auto
    from this [of "f\<lparr> fr_point := Final \<rparr>"] this [of "f\<lparr> fr_exception := Some _, fr_point := Final \<rparr>"]
    show ?thesis
      using R(3) k Void assms(4)
      by (cases r) (fastforce simp: finish_def void_same final_suspend_def return_void_def unhandled_exception_def with_frame_def)+
  next
    case Detached
    then have hs: "hs1 = []"
      using R(3,4) k by (cases hs1) auto
    have "sound (detached_return h m) []"
      using R hs by (auto simp: detached_return_def with_frame_def sound_def intro: idle)
    moreover have "sound (detached_exception m) [h]"
      using R hs by (auto simp: detached_exception_def sound_def intro: aborted)
    ultimately show ?thesis
      using R(3) k Detached assms(4) by (cases r) (auto simp: finish_def)
  qed
qed

text \<open>Calling a task puts its frame on top of the chain, with the caller suspended below it.\<close>

lemma sound_await:
  assumes alloc: "alloc_law alloc" and m: "sound m hs" and run: "mc_control m = Run h (Co_Await \<kappa> b k)"
  shows "\<exists>hs1. sound (task_step alloc v0 m) hs1"
proof -
  obtain f hs1 where R: "hs = h # hs1" "h \<notin> set hs1" "mc_frames m h = Some f" "typed (fr_kind f) (Co_Await \<kappa> b k)"
      "callers (mc_frames m) h hs1" "mc_parked m = None" "\<not> mc_fault m" "dom (mc_frames m) = set hs" "distinct hs"
    using m run by (rule sound_running)
  define c where "c = alloc (mc_frames m)"
  define fs where "fs = (mc_frames m)(h \<mapsto> f\<lparr> fr_point := Awaiting c k \<rparr>)"
  define g where "g = \<lparr> fr_kind = \<kappa>, fr_value = v0, fr_exception = None, fr_continuation = Some h, fr_point = Initial b \<rparr>"
  have "finite (dom (mc_frames m))"
    by (simp only: R(8) List.finite_set)
  then have c: "c \<notin> set hs"
    using alloc R(8) unfolding alloc_law_def c_def by blast
  have "callers fs h hs1"
    unfolding fs_def by (rule callers_upd [OF R(5,2,3)]) simp_all
  then have "callers (fs(c \<mapsto> g)) h hs1"
    using c R(1) by (intro callers_other) auto
  then have call: "callers (fs(c \<mapsto> g)) c (h # hs1)"
    using R(4) c R(1) by (auto simp: fs_def g_def)
  have "active (fs(c \<mapsto> g)) (Transfer c) None (c # h # hs1)"
    using R(4) by (intro entering [OF _ _ _ call]) (auto simp: g_def)
  moreover have "task_step alloc v0 m = m\<lparr> mc_frames := fs(c \<mapsto> g), mc_control := Transfer c \<rparr>"
    using run R(3,4) c R(1) by (cases \<kappa>) (auto simp: task_step_def Let_def c_def [symmetric] await_task_def void_same
        task_await_suspend_def new_task_def new_void_task_def with_frame_def fs_def g_def)
  moreover have "dom (fs(c \<mapsto> g)) = set (c # h # hs1)"
    using R(1,8) by (auto simp: fs_def)
  ultimately show ?thesis
    using R c by (intro exI [of _ "c # h # hs1"]) (auto simp: sound_def)
qed

text \<open>Back from a task, its frame is gone and its caller runs.\<close>

lemma sound_back:
  assumes m: "sound m (c # h # hs1)" and f: "mc_frames m c = Some f" and top: "callers (mc_frames m) c (h # hs1)"
    and pk: "mc_parked m = None"
  shows "\<exists>k. map_option fr_point (mc_frames m h) = Some (Awaiting c k) \<and> sound (await_back c h k m) (h # hs1)"
proof -
  obtain g k where G: "fr_kind f \<noteq> Detached" "mc_frames m h = Some g" "fr_point g = Awaiting c k"
      "\<And>r. delivers (fr_kind f) r \<Longrightarrow> typed (fr_kind g) (k r)" "callers (mc_frames m) h hs1"
    using top f by auto
  have S: "\<not> mc_fault m" "dom (mc_frames m) = set (c # h # hs1)" "distinct (c # h # hs1)"
    using m by (simp_all add: sound_def)
  let ?r = "if fr_kind f = Valued then task_await_resume f else void_await_resume f"
  have "delivers (fr_kind f) ?r"
    using G(1) by (auto simp: delivers_def task_await_resume_def void_await_resume_def split: option.splits)
  then have "active ((mc_frames m)(c := None)) (Run h (k ?r)) None (h # hs1)"
    using G S(3) by (intro running [where f = g] callers_other) auto
  moreover have "await_back c h k m = m\<lparr> mc_frames := (mc_frames m)(c := None), mc_control := Run h (k ?r) \<rparr>"
    using G(1) f by (cases "fr_kind f")
      (auto simp: await_back_def void_same task_destroy_def get_return_object_def with_frame_def)
  moreover have "dom ((mc_frames m)(c := None)) = set (h # hs1)"
    using S(2,3) by auto
  ultimately show ?thesis
    using S pk G(2,3) by (intro exI [of _ k]) (auto simp: sound_def)
qed

lemma sound_transfer:
  assumes m: "sound m hs" and q: "mc_control m = Transfer h"
  shows "\<exists>hs1. sound (task_step alloc v0 m) hs1"
proof -
  have active: "active (mc_frames m) (Transfer h) (mc_parked m) hs"
    using m q by (simp add: sound_def)
  then show ?thesis
  proof (cases rule: active.cases)
    case entering
    then have "sound (task_step alloc v0 m) hs"
      using m q by (auto simp: sound_def task_step_def intro: running)
    then show ?thesis
      by blast
  next
    case returning
    then show ?thesis
      using sound_back m q by (fastforce simp: task_step_def)
  qed
qed

lemma sound_suspend:
  assumes m: "sound m hs" and run: "mc_control m = Run h (Co_Suspend q k)"
  shows "sound (task_step alloc v0 m) hs"
proof -
  obtain f hs1 where R: "hs = h # hs1" "h \<notin> set hs1" "mc_frames m h = Some f" "typed (fr_kind f) (Co_Suspend q k)"
      "callers (mc_frames m) h hs1" "mc_parked m = None" "\<not> mc_fault m" "dom (mc_frames m) = set hs" "distinct hs"
    using m run by (rule sound_running)
  let ?fs = "(mc_frames m)(h \<mapsto> f\<lparr> fr_point := External k \<rparr>)"
  have "callers ?fs h hs1"
    by (rule callers_upd [OF R(5,2,3)]) simp_all
  then have "active ?fs Yield (Some h) hs"
    using R(1,4) by (auto intro: waiting)
  then show ?thesis
    using R run by (auto simp: sound_def task_step_def with_frame_def)
qed

lemma sound_resume:
  assumes m: "sound m hs" and pk: "mc_parked m = Some h"
  shows "sound (resume_parked e m) hs"
proof -
  have "active (mc_frames m) (mc_control m) (Some h) hs"
    using m pk by (simp add: sound_def)
  then show ?thesis
    by (cases rule: active.cases) (use m pk in \<open>auto simp: sound_def resume_parked_def intro: running\<close>)
qed

lemma sound_step:
  assumes "alloc_law alloc" and "sound m hs"
  shows "\<exists>hs1. sound (task_step alloc v0 m) hs1"
proof (cases "mc_control m")
  case (Run h b)
  then obtain f where f: "mc_frames m h = Some f" "typed (fr_kind f) b"
    using sound_running [OF assms(2) Run] by metis
  have fin: "\<exists>hs1. sound (finish h r m) hs1" if "delivers (fr_kind f) r" for r
    using sound_finish [OF assms(2) Run _ that] f(1) by simp
  show ?thesis
  proof (cases b)
    case (Co_Do q b1)
    have "sound (task_step alloc v0 m) hs"
      using assms(2) Run by (rule sound_running)
        (use assms(2) Run Co_Do in \<open>auto simp: task_step_def sound_def intro: running\<close>)
    then show ?thesis ..
  next
    case (Co_Await \<kappa> b1 k)
    then show ?thesis
      using sound_await [OF assms] Run by simp
  next
    case (Co_Suspend q k)
    then show ?thesis
      using sound_suspend [OF assms(2)] Run by auto
  qed (use f(2) fin Run in \<open>auto simp: task_step_def\<close>)
next
  case (Transfer h)
  then show ?thesis
    using sound_transfer [OF assms(2)] by simp
qed (use assms(2) in \<open>auto simp: task_step_def\<close>)

lemma sound_drive:
  assumes "alloc_law alloc" and "sound (fst s) hs"
  shows "\<exists>hs1. sound (fst (drive alloc v0 s)) hs1"
  using sound_step [OF assms] sound_resume [OF assms(2)] assms(2)
  by (auto simp: drive_def split_beta split: list.split)

lemma sound_launch:
  assumes "typed Detached b"
  shows "sound (launch v0 b) [0]"
  using assms by (auto simp: sound_def launch_def new_detached_def intro!: entering)

text \<open>
  C6: Type soundness of coroutines that await each task as the temporary of its call, \<open>co_await f(...)\<close>. Launch any such
  body that is well typed as a \<open>DetachedTask\<close>, with any tasks awaited in it at any depth, ending or not,
  and let any answers come from outside: after every
  number of steps the frames are one chain of callers down to the launched frame, each is suspended at
  the \<open>co_await\<close> of the one above it and goes on with a code that is well typed for every result that one may
  deliver, no frame is left over, and no destroyed or finished frame was ever accessed or resumed.
\<close>

theorem task_type_sound:
  assumes "alloc_law alloc" and "typed Detached b"
  shows "\<exists>hs. sound (fst ((drive alloc v0 ^^ n) (launch v0 b, es))) hs"
proof (induction n)
  case 0
  then show ?case
    using sound_launch [OF assms(2)] by auto
next
  case (Suc n)
  then show ?case
    using sound_drive [OF assms(1), of "(drive alloc v0 ^^ n) (launch v0 b, es)"] by auto
qed

text \<open>
  The condition on temporaries is needed: \<open>operator co_await\<close> can be applied to a \<open>Task\<close> in a variable, and again after
  the task has ended. The awaiter does not look whether it has, so a finished frame is resumed.
\<close>

lemma second_await_resumes_finished:
  assumes "mc_frames m c = Some f" and "fr_point f = Final"
  shows "mc_fault (task_step alloc v0 (task_await_suspend c h m))" and "mc_fault (task_step alloc v0 (void_await_suspend c h m))"
  using assms by (simp_all add: task_step_def task_await_suspend_def void_await_suspend_def with_frame_def)

text \<open>A server that never ends: it awaits a task that throws after each request and goes on.\<close>

primcorec serving :: "(nat, nat, nat, string) coro" where
  "serving = Co_Await Void (Co_Suspend 7 (\<lambda>_. Co_Throw ''Expected Exception'')) (\<lambda>_. serving)"

lemma serving_typed: "typed Detached serving"
proof (coinduction)
  case typed
  have "serving = Co_Await Void (Co_Suspend 7 (\<lambda>_. Co_Throw ''Expected Exception'')) (\<lambda>_. serving)"
    by (rule serving.code)
  moreover have "typed Void (Co_Suspend 7 (\<lambda>_. Co_Throw ''Expected Exception''))"
    by simp
  ultimately show ?case
    by blast
qed

theorem task_type_sound_witness:
  "\<exists>hs. sound (fst ((drive fresh_frame 0 ^^ 100) (launch 0 serving, [1, 2, 3]))) hs"
  by (rule task_type_sound [OF fresh_frame_law serving_typed])

end
