(* ===== verification/Task_Direct.thy ===== *)
theory Task_Direct
  imports Task_Types
begin

text \<open>
  The contract of \<open>Task\<close>: the machine of frames, with its transfers between continuations, does what the
  bodies say when a \<open>co_await\<close> of a task is read as a call. The equivalence covers bodies that
  return, that throw, that wait for an answer that never comes and that never end.
\<close>

section \<open>Direct style\<close>

text \<open>How a call ends: with a result, what has been done and requested so far and the answers left, or
  waiting for an answer when there are no more.\<close>

datatype ('v, 'q, 'e, 'x) outcome =
    Done "('v, 'x) result" "'q list" "'e list"
  | Waiting "'q list"

partial_function (option) direct ::
    "('v, 'q, 'e, 'x) coro \<Rightarrow> 'q list \<Rightarrow> 'e list \<Rightarrow> ('v, 'q, 'e, 'x) outcome option" where
  "direct b qs es =
     (case b of
        Co_Return v \<Rightarrow> Some (Done (Value v) qs es)
      | Co_Return_Void \<Rightarrow> Some (Done Nothing qs es)
      | Co_Throw x \<Rightarrow> Some (Done (Thrown x) qs es)
      | Co_Do q b1 \<Rightarrow> direct b1 (qs @ [q]) es
      | Co_Await \<kappa> b1 k \<Rightarrow>
          Option.bind (direct b1 qs es) (\<lambda>out. case out of
              Done r qs1 es1 \<Rightarrow> direct (k r) qs1 es1
            | Waiting qs1 \<Rightarrow> Some (Waiting qs1))
      | Co_Suspend q k \<Rightarrow>
          (case es of [] \<Rightarrow> Some (Waiting (qs @ [q])) | e # es1 \<Rightarrow> direct (k e) (qs @ [q]) es1))"

lemma direct_simps [simp]:
  "direct (Co_Return v) qs es = Some (Done (Value v) qs es)"
  "direct Co_Return_Void qs es = Some (Done Nothing qs es)"
  "direct (Co_Throw x) qs es = Some (Done (Thrown x) qs es)"
  "direct (Co_Do q b) qs es = direct b (qs @ [q]) es"
  "direct (Co_Suspend q k) qs [] = Some (Waiting (qs @ [q]))"
  "direct (Co_Suspend q k) qs (e # es) = direct (k e) (qs @ [q]) es"
  by (simp_all add: direct.simps)

lemma direct_await [simp]:
  "direct (Co_Await \<kappa> b k) qs es =
     Option.bind (direct b qs es) (\<lambda>out. case out of
         Done r qs1 es1 \<Rightarrow> direct (k r) qs1 es1
       | Waiting qs1 \<Rightarrow> Some (Waiting qs1))"
  by (simp add: direct.simps)

lemmas direct_induct = direct.raw_induct [rotated, consumes 1, case_names step]

section \<open>Reaching a configuration\<close>

definition reaches where
  "reaches alloc v0 s t \<longleftrightarrow> (\<exists>n. (drive alloc v0 ^^ n) s = t)"

lemma reaches_refl [intro]: "reaches alloc v0 s s"
  unfolding reaches_def by (rule exI [of _ 0]) simp

lemma reaches_trans [trans]:
  assumes "reaches alloc v0 s t" and "reaches alloc v0 t u"
  shows "reaches alloc v0 s u"
proof -
  obtain m n where "(drive alloc v0 ^^ m) s = t" "(drive alloc v0 ^^ n) t = u"
    using assms unfolding reaches_def by blast
  then have "(drive alloc v0 ^^ (n + m)) s = u"
    by (simp add: funpow_add)
  then show ?thesis
    unfolding reaches_def by blast
qed

lemma reaches_step: "reaches alloc v0 (drive alloc v0 s) t \<Longrightarrow> reaches alloc v0 s t"
  unfolding reaches_def by (metis comp_apply funpow_Suc_right)

lemma reaches_one: "drive alloc v0 s = t \<Longrightarrow> reaches alloc v0 s t"
  using reaches_step reaches_refl by metis

text \<open>The thread of the machine has stopped: nothing left, in \<open>std::terminate\<close>, or waiting without an answer.\<close>

definition stopped :: "('v, 'q, 'e, 'x) machine \<times> 'e list \<Rightarrow> bool" where
  "stopped s \<longleftrightarrow> (case mc_control (fst s) of
     Terminated \<Rightarrow> True | Yield \<Rightarrow> mc_parked (fst s) = None \<or> snd s = [] | _ \<Rightarrow> False)"

lemma stopped_drive: "stopped s \<Longrightarrow> drive alloc v0 s = s"
  by (cases s) (auto simp: stopped_def drive_def task_step_def split: control.splits)

lemma stopped_funpow: "stopped s \<Longrightarrow> (drive alloc v0 ^^ n) s = s"
  by (induction n) (simp_all add: stopped_drive)

text \<open>The machine is deterministic, so from a state on the way to a stop fewer steps remain.\<close>

definition stops_in where
  "stops_in alloc v0 n s \<longleftrightarrow> stopped ((drive alloc v0 ^^ n) s)"

lemma stops_in_reaches:
  assumes "stops_in alloc v0 n s" and "reaches alloc v0 s t"
  shows "\<exists>k\<le>n. stops_in alloc v0 k t"
proof -
  obtain j where j: "(drive alloc v0 ^^ j) s = t"
    using assms(2) unfolding reaches_def by blast
  show ?thesis
  proof (cases "j \<le> n")
    case True
    then have "(drive alloc v0 ^^ (n - j)) t = (drive alloc v0 ^^ n) s"
      using j funpow_add [of "n - j" j "drive alloc v0"] by simp
    then show ?thesis
      using assms(1) by (auto simp: stops_in_def intro!: exI [of _ "n - j"])
  next
    case False
    then have "t = (drive alloc v0 ^^ (j - n)) ((drive alloc v0 ^^ n) s)"
      using j funpow_add [of "j - n" n "drive alloc v0"] by simp
    then have "stops_in alloc v0 0 t"
      using assms(1) stopped_funpow [of "(drive alloc v0 ^^ n) s" "j - n" alloc v0] by (simp add: stops_in_def)
    then show ?thesis
      by blast
  qed
qed

lemma stops_in_step: "stops_in alloc v0 n s \<Longrightarrow> \<not> stopped s \<Longrightarrow> \<exists>k<n. stops_in alloc v0 k (drive alloc v0 s)"
  unfolding stops_in_def by (cases n) (auto simp: funpow_swap1)

section \<open>Frames on the way\<close>

text \<open>The machine with frame \<open>h\<close> at the point \<open>p\<close>, the thread at \<open>q\<close> and the log \<open>qs\<close>.\<close>

definition at_point :: "('v, 'q, 'e, 'x) machine \<Rightarrow> nat \<Rightarrow> ('v, 'q, 'e, 'x) frame \<Rightarrow> ('v, 'q, 'e, 'x) point
    \<Rightarrow> ('v, 'q, 'e, 'x) control \<Rightarrow> 'q list \<Rightarrow> ('v, 'q, 'e, 'x) machine" where
  "at_point m h f p q qs = m\<lparr> mc_frames := (mc_frames m)(h \<mapsto> f\<lparr> fr_point := p \<rparr>), mc_control := q, mc_log := qs \<rparr>"

lemma at_point_sel [simp, effect_simps]:
  "mc_frames (at_point m h f p q qs) = (mc_frames m)(h \<mapsto> f\<lparr> fr_point := p \<rparr>)"
  "mc_control (at_point m h f p q qs) = q" "mc_parked (at_point m h f p q qs) = mc_parked m"
  "mc_log (at_point m h f p q qs) = qs" "mc_fault (at_point m h f p q qs) = mc_fault m"
  by (simp_all add: at_point_def)

lemma finite_at_point [simp]: "finite (dom (mc_frames (at_point m h f p q qs))) = finite (dom (mc_frames m))"
proof -
  have "dom (mc_frames (at_point m h f p q qs)) = insert h (dom (mc_frames m))"
    by (simp only: at_point_sel dom_fun_upd) simp
  then show ?thesis
    by simp
qed

lemma at_point_twice [simp]: "at_point (at_point m h f p q qs) h (f\<lparr> fr_point := p \<rparr>) p1 q1 qs1 = at_point m h f p1 q1 qs1"
  by (simp add: at_point_def)

lemma at_point_again: "at_point (at_point m h f p q qs) h f p1 q1 qs1 = at_point m h f p1 q1 qs1"
  by (simp add: at_point_def)

lemma at_point_here:
  "mc_frames m h = Some f \<Longrightarrow> at_point m h f (fr_point f) (mc_control m) (mc_log m) = m"
  by (cases m) (auto simp: at_point_def fun_upd_idem)

text \<open>A frame that runs the body \<open>b\<close>, with the log so far.\<close>

definition running_body :: "('v, 'q, 'e, 'x) machine \<Rightarrow> nat \<Rightarrow> ('v, 'q, 'e, 'x) frame \<Rightarrow> ('v, 'q, 'e, 'x) coro \<Rightarrow> 'q list \<Rightarrow> bool" where
  "running_body m h f b qs \<longleftrightarrow> finite (dom (mc_frames m)) \<and> mc_frames m h = Some f \<and> fr_exception f = None \<and>
     mc_parked m = None \<and> mc_control m = Run h b \<and> mc_log m = qs \<and> typed (fr_kind f) b"

lemma running_body_moves:
  assumes "running_body m h f b qs" and "typed (fr_kind f) b1"
  shows "running_body (at_point m h f p (Run h b1) qs1) h (f\<lparr> fr_point := p \<rparr>) b1 qs1"
  using assms by (simp only: running_body_def finite_at_point) simp

text \<open>The frame of a task that has just been called, and the same frame when the task has ended.\<close>

definition child_of :: "'v \<Rightarrow> kind \<Rightarrow> nat \<Rightarrow> ('v, 'q, 'e, 'x) coro \<Rightarrow> ('v, 'q, 'e, 'x) frame" where
  "child_of v0 \<kappa> h b = \<lparr> fr_kind = \<kappa>, fr_value = v0, fr_exception = None, fr_continuation = Some h, fr_point = Initial b \<rparr>"

definition ended :: "('v, 'q, 'e, 'x) frame \<Rightarrow> ('v, 'x) result \<Rightarrow> ('v, 'q, 'e, 'x) frame" where
  "ended f r = (case r of Value v \<Rightarrow> f\<lparr> fr_value := v, fr_point := Final \<rparr>
     | Nothing \<Rightarrow> f\<lparr> fr_point := Final \<rparr>
     | Thrown x \<Rightarrow> f\<lparr> fr_exception := Some x, fr_point := Final \<rparr>)"

lemma finish_task:
  assumes "mc_frames m h = Some f" and "fr_kind f \<noteq> Detached" and "fr_continuation f = Some p" and "delivers (fr_kind f) r"
  shows "finish h r m = m\<lparr> mc_frames := (mc_frames m)(h \<mapsto> ended f r), mc_control := Transfer p \<rparr>"
  using assms by (cases "fr_kind f"; cases r)
    (simp_all add: finish_def void_same final_suspend_def return_value_def return_void_def unhandled_exception_def
      with_frame_def ended_def)

lemma drive_running: "mc_control m = Run h b \<Longrightarrow> drive alloc v0 (m, es) = (task_step alloc v0 m, es)"
  by (simp add: drive_def)

text \<open>The call of a task.\<close>

lemma step_await:
  assumes "running_body m h f (Co_Await \<kappa> b k) qs" and "alloc_law alloc"
    and c_def: "c = alloc (mc_frames m)" and m0_def: "m0 = at_point m h f (Awaiting c k) (Run c b) qs"
    and m1_def: "m1 = at_point m0 c (child_of v0 \<kappa> h b) (Initial b) (Run c b) qs"
  shows "reaches alloc v0 (m, es) (m1, es)" and "running_body m1 c (child_of v0 \<kappa> h b) b qs"
    and "mc_frames m c = None" and "c \<noteq> h"
proof -
  have R: "finite (dom (mc_frames m))" "mc_frames m h = Some f" "mc_control m = Run h (Co_Await \<kappa> b k)" "mc_log m = qs"
      "\<kappa> \<noteq> Detached" "typed \<kappa> b"
    using assms(1) by (simp_all add: running_body_def)
  show c: "mc_frames m c = None"
    using assms(2) R(1) unfolding c_def alloc_law_def by blast
  then show ch: "c \<noteq> h"
    using R(2) by auto
  have "drive alloc v0 (m, es) =
      (at_point m0 c (child_of v0 \<kappa> h b) (Initial b) (Transfer c) qs, es)"
    using R ch by (cases \<kappa>) (simp_all add: drive_running task_step_def Let_def c_def [symmetric] with_frame_def await_task_def
        void_same new_task_def new_void_task_def task_await_suspend_def at_point_def child_of_def m0_def)
  moreover have "drive alloc v0 (at_point m0 c (child_of v0 \<kappa> h b) (Initial b) (Transfer c) qs, es) =
      (at_point m0 c (child_of v0 \<kappa> h b) (Initial b) (Run c b) qs, es)"
    by (simp add: drive_def task_step_def at_point_def)
  ultimately show "reaches alloc v0 (m, es) (m1, es)"
    unfolding m1_def by (intro reaches_step [OF reaches_one]) simp
  have "(child_of v0 \<kappa> h b)\<lparr> fr_point := Initial b \<rparr> = child_of v0 \<kappa> h b"
    by (simp add: child_of_def)
  moreover have "mc_parked m = None"
    using assms(1) by (simp add: running_body_def)
  ultimately show "running_body m1 c (child_of v0 \<kappa> h b) b qs"
    using R unfolding running_body_def m0_def m1_def by (simp only: finite_at_point at_point_sel) (simp add: child_of_def)
qed

text \<open>A task that has ended hands its result to the frame that awaits it, and is gone.\<close>

lemma step_back:
  assumes "mc_frames m h = Some f" and "mc_frames m c = None" and "\<kappa> \<noteq> Detached" and "delivers \<kappa> r"
    and m0_def: "m0 = at_point m h f (Awaiting c k) q0 qs0"
  shows "reaches alloc v0 (finish c r (at_point m0 c (child_of v0 \<kappa> h b) p q qs), es)
      (at_point m h f (Awaiting c k) (Run h (k r)) qs, es)"
proof -
  let ?g = "(child_of v0 \<kappa> h b)\<lparr> fr_point := p \<rparr>"
  have ch: "c \<noteq> h" and free: "(mc_frames m)(c := None) = mc_frames m"
    using assms(1,2) by auto
  have fin: "finish c r (at_point m0 c (child_of v0 \<kappa> h b) p q qs) =
      m\<lparr> mc_frames := (mc_frames m)(h \<mapsto> f\<lparr> fr_point := Awaiting c k \<rparr>, c \<mapsto> ended ?g r), mc_control := Transfer h, mc_log := qs \<rparr>"
    using assms by (subst finish_task [where f = ?g and p = h])
      (simp_all add: child_of_def at_point_def m0_def)
  have "(if \<kappa> = Valued then task_await_resume (ended ?g r) else void_await_resume (ended ?g r)) = r"
    using assms(3,4) by (cases r) (simp_all add: task_await_resume_def void_await_resume_def ended_def child_of_def)
  moreover have "fr_kind (ended ?g r) = \<kappa>"
    by (cases r) (simp_all add: ended_def child_of_def)
  ultimately show ?thesis
    unfolding fin using assms(3) ch free
    by (intro reaches_one) (cases \<kappa>; simp add: drive_def task_step_def await_back_def void_same task_destroy_def
        get_return_object_def with_frame_def at_point_def fun_upd_twist)
qed

text \<open>A frame that waits outside, and its answer.\<close>

lemma step_suspend:
  assumes "running_body m h f (Co_Suspend q k) qs"
  shows "drive alloc v0 (m, es) = ((at_point m h f (External k) Yield (qs @ [q]))\<lparr> mc_parked := Some h \<rparr>, es)"
  using assms by (simp add: running_body_def drive_running task_step_def with_frame_def at_point_def)

lemma step_answer:
  assumes "running_body m h f (Co_Suspend q k) qs"
  shows "reaches alloc v0 (m, e # es) (at_point m h f (External k) (Run h (k e)) (qs @ [q]), es)"
proof -
  have "drive alloc v0 ((at_point m h f (External k) Yield (qs @ [q]))\<lparr> mc_parked := Some h \<rparr>, e # es) =
      (at_point m h f (External k) (Run h (k e)) (qs @ [q]), es)"
    using assms by (simp add: running_body_def drive_def resume_parked_def at_point_def)
  then show ?thesis
    by (intro reaches_step [OF reaches_one]) (simp add: step_suspend [OF assms])
qed

lemma step_do:
  assumes "running_body m h f (Co_Do q b) qs"
  shows "reaches alloc v0 (m, es) (at_point m h f (fr_point f) (Run h b) (qs @ [q]), es)"
  using assms by (intro reaches_one) (auto simp: running_body_def drive_running task_step_def at_point_def fun_upd_idem)

section \<open>From the bodies to the machine\<close>

text \<open>What the machine does with a frame that runs a body with a meaning: it gets to the end of the body, or to a
  stop in which some frame waits outside.\<close>

definition simulates where
  "simulates alloc v0 m h f es out \<longleftrightarrow>
     (case out of
        Done r qs1 es1 \<Rightarrow> delivers (fr_kind f) r \<and>
          (\<exists>p q. reaches alloc v0 (m, es) (finish h r (at_point m h f p q qs1), es1))
      | Waiting qs1 \<Rightarrow> (\<exists>m1. reaches alloc v0 (m, es) (m1, []) \<and> mc_control m1 = Yield \<and>
          mc_parked m1 \<noteq> None \<and> mc_log m1 = qs1))"

lemma simulates_reaches:
  assumes "reaches alloc v0 (m, es) (at_point m h f p q qs, es2)"
    and "simulates alloc v0 (at_point m h f p q qs) h (f\<lparr> fr_point := p \<rparr>) es2 out"
  shows "simulates alloc v0 m h f es out"
  using assms by (auto simp: simulates_def split: outcome.splits intro: reaches_trans)

lemma simulates_end:
  assumes "mc_frames m h = Some f" and "drive alloc v0 (m, es) = (finish h r m, es)" and "delivers (fr_kind f) r"
  shows "simulates alloc v0 m h f es (Done r (mc_log m) es)"
proof -
  have "at_point m h f (fr_point f) (mc_control m) (mc_log m) = m"
    using assms(1) by (rule at_point_here)
  then have "reaches alloc v0 (m, es) (finish h r (at_point m h f (fr_point f) (mc_control m) (mc_log m)), es)"
    using reaches_one [OF assms(2)] by simp
  then show ?thesis
    using assms(3) unfolding simulates_def by auto
qed

lemma direct_simulated:
  assumes alloc: "alloc_law alloc" and ev: "direct b qs es = Some out" and run: "running_body m h f b qs"
  shows "simulates alloc v0 m h f es out"
  using ev run
proof (induction arbitrary: m h f rule: direct_induct)
  case (step rec b qs es out)
  note IH = step(1) and ev = step(2) and R = step.prems
  show ?case
  proof (cases b)
    case (Co_Do q b1)
    let ?m = "at_point m h f (fr_point f) (Run h b1) (qs @ [q])"
    have "rec b1 (qs @ [q]) es = Some out"
      using ev Co_Do by simp
    moreover have "running_body ?m h (f\<lparr> fr_point := fr_point f \<rparr>) b1 (qs @ [q])"
      using R unfolding Co_Do by (rule running_body_moves) (use R Co_Do in \<open>simp add: running_body_def\<close>)
    ultimately have "simulates alloc v0 ?m h (f\<lparr> fr_point := fr_point f \<rparr>) es out"
      by (rule IH)
    then show ?thesis
      by (rule simulates_reaches [OF step_do [OF R [unfolded Co_Do]]])
  next
    case (Co_Suspend q k)
    show ?thesis
    proof (cases es)
      case Nil
      have "drive alloc v0 (m, []) = ((at_point m h f (External k) Yield (qs @ [q]))\<lparr> mc_parked := Some h \<rparr>, [])"
        by (rule step_suspend [OF R [unfolded Co_Suspend]])
      then have "reaches alloc v0 (m, []) ((at_point m h f (External k) Yield (qs @ [q]))\<lparr> mc_parked := Some h \<rparr>, [])"
        by (rule reaches_one)
      then show ?thesis
        using ev Co_Suspend Nil by (fastforce simp: simulates_def)
    next
      case (Cons e es1)
      let ?m = "at_point m h f (External k) (Run h (k e)) (qs @ [q])"
      have "rec (k e) (qs @ [q]) es1 = Some out"
        using ev Co_Suspend Cons by simp
      moreover have "running_body ?m h (f\<lparr> fr_point := External k \<rparr>) (k e) (qs @ [q])"
        using R unfolding Co_Suspend by (rule running_body_moves) (use R Co_Suspend in \<open>simp add: running_body_def\<close>)
      ultimately have "simulates alloc v0 ?m h (f\<lparr> fr_point := External k \<rparr>) es1 out"
        by (rule IH)
      then show ?thesis
        unfolding Cons by (rule simulates_reaches [OF step_answer [OF R [unfolded Co_Suspend]]])
    qed
  next
    case (Co_Await \<kappa> b1 k)
    define c where "c = alloc (mc_frames m)"
    define m0 where "m0 = at_point m h f (Awaiting c k) (Run c b1) qs"
    define m1 where "m1 = at_point m0 c (child_of v0 \<kappa> h b1) (Initial b1) (Run c b1) qs"
    note call = step_await [OF R [unfolded Co_Await] alloc c_def m0_def m1_def]
    have \<kappa>: "\<kappa> \<noteq> Detached" "\<And>r. delivers \<kappa> r \<Longrightarrow> typed (fr_kind f) (k r)" and h: "mc_frames m h = Some f"
      using R Co_Await by (simp_all add: running_body_def)
    obtain out1 where out1: "rec b1 qs es = Some out1"
      using ev Co_Await by (auto simp: bind_eq_Some_conv)
    have child: "simulates alloc v0 m1 c (child_of v0 \<kappa> h b1) es out1"
      by (rule IH [OF out1 call(2)])
    show ?thesis
    proof (cases out1)
      case (Waiting qs1)
      then have "out = Waiting qs1"
        using ev Co_Await out1 by simp
      then show ?thesis
        using child call(1) Waiting by (auto simp: simulates_def intro: reaches_trans)
    next
      case (Done r qs1 es1)
      let ?m2 = "at_point m h f (Awaiting c k) (Run h (k r)) qs1"
      have r: "delivers \<kappa> r"
        using child Done by (simp add: simulates_def child_of_def)
      obtain p q where "reaches alloc v0 (m1, es) (finish c r (at_point m1 c (child_of v0 \<kappa> h b1) p q qs1), es1)"
        using child Done by (auto simp: simulates_def)
      then have "reaches alloc v0 (m1, es) (?m2, es1)"
        using step_back [OF h call(3) \<kappa>(1) r m0_def] unfolding m1_def at_point_again by (rule reaches_trans)
      with call(1) have "reaches alloc v0 (m, es) (?m2, es1)"
        by (rule reaches_trans)
      moreover have "simulates alloc v0 ?m2 h (f\<lparr> fr_point := Awaiting c k \<rparr>) es1 out"
        using ev Co_Await out1 Done running_body_moves [OF R \<kappa>(2) [OF r]] by (intro IH) auto
      ultimately show ?thesis
        by (rule simulates_reaches)
    qed
  qed (use ev R in \<open>auto intro!: simulates_end simp: running_body_def drive_running task_step_def\<close>)
qed

section \<open>From the machine to the bodies\<close>

text \<open>If the machine stops, then the body has a meaning: a body whose calls do not end keeps the machine running.\<close>

lemma stops_direct:
  assumes alloc: "alloc_law alloc" and "running_body m h f b qs" and "stops_in alloc v0 n (m, es)"
  shows "\<exists>out. direct b qs es = Some out"
  using assms(2,3)
proof (induction n arbitrary: m h f b qs es rule: less_induct)
  case (less n)
  note R = less.prems(1)
  have "\<not> stopped (m, es)"
    using R by (simp add: stopped_def running_body_def)
  then obtain n1 where n1: "n1 < n" "stops_in alloc v0 n1 (drive alloc v0 (m, es))"
    using stops_in_step [OF less.prems(2)] by auto
  have sooner: "\<exists>k<n. stops_in alloc v0 k t" if reach: "reaches alloc v0 (m, es) t" and other: "t \<noteq> (m, es)" for t
  proof -
    obtain j where j: "(drive alloc v0 ^^ j) (m, es) = t"
      using reach unfolding reaches_def by blast
    then obtain i where "j = Suc i"
      using other by (cases j) auto
    then have "reaches alloc v0 (drive alloc v0 (m, es)) t"
      using j unfolding reaches_def by (metis comp_apply funpow_Suc_right)
    then show ?thesis
      using stops_in_reaches [OF n1(2)] n1(1) by (meson le_less_trans)
  qed
  show ?case
  proof (cases b)
    case (Co_Do q b1)
    let ?m = "at_point m h f (fr_point f) (Run h b1) (qs @ [q])"
    have "?m \<noteq> m"
      using R by (metis append_self_conv at_point_sel(4) not_Cons_self2 running_body_def)
    then obtain k1 where "k1 < n" "stops_in alloc v0 k1 (?m, es)"
      using sooner [OF step_do [OF R [unfolded Co_Do]]] by auto
    moreover have "running_body ?m h (f\<lparr> fr_point := fr_point f \<rparr>) b1 (qs @ [q])"
      using R unfolding Co_Do by (rule running_body_moves) (use R Co_Do in \<open>simp add: running_body_def\<close>)
    ultimately show ?thesis
      using less.IH Co_Do by simp
  next
    case (Co_Suspend q k)
    show ?thesis
    proof (cases es)
      case (Cons e es1)
      let ?m = "at_point m h f (External k) (Run h (k e)) (qs @ [q])"
      have "(?m, es1) \<noteq> (m, es)"
        using Cons by simp
      then obtain k1 where "k1 < n" "stops_in alloc v0 k1 (?m, es1)"
        using sooner [of "(?m, es1)"] step_answer [OF R [unfolded Co_Suspend], of alloc v0 e es1] Cons by auto
      moreover have "running_body ?m h (f\<lparr> fr_point := External k \<rparr>) (k e) (qs @ [q])"
        using R unfolding Co_Suspend by (rule running_body_moves) (use R Co_Suspend in \<open>simp add: running_body_def\<close>)
      ultimately show ?thesis
        using less.IH Co_Suspend Cons by simp
    qed (simp add: Co_Suspend)
  next
    case (Co_Await \<kappa> b1 k)
    define c where "c = alloc (mc_frames m)"
    define m0 where "m0 = at_point m h f (Awaiting c k) (Run c b1) qs"
    define m1 where "m1 = at_point m0 c (child_of v0 \<kappa> h b1) (Initial b1) (Run c b1) qs"
    note call = step_await [OF R [unfolded Co_Await] alloc c_def m0_def m1_def]
    have \<kappa>: "\<kappa> \<noteq> Detached" "\<And>r. delivers \<kappa> r \<Longrightarrow> typed (fr_kind f) (k r)" and h: "mc_frames m h = Some f"
      using R Co_Await by (simp_all add: running_body_def)
    have "mc_control m1 \<noteq> mc_control m"
      using R call(4) by (simp add: m1_def running_body_def)
    then obtain k1 where k1: "k1 < n" "stops_in alloc v0 k1 (m1, es)"
      using sooner [OF call(1)] by auto
    then obtain out1 where out1: "direct b1 qs es = Some out1"
      using less.IH [OF k1(1) call(2)] by blast
    show ?thesis
    proof (cases out1)
      case (Done r qs1 es1)
      let ?m2 = "at_point m h f (Awaiting c k) (Run h (k r)) qs1"
      note child = direct_simulated [OF alloc out1 call(2), of v0, unfolded Done simulates_def outcome.case]
      have r: "delivers \<kappa> r"
        using child by (simp add: child_of_def)
      have "reaches alloc v0 (m1, es) (?m2, es1)"
        using child step_back [OF h call(3) \<kappa>(1) r m0_def] unfolding m1_def at_point_again by (blast intro: reaches_trans)
      then obtain k2 where "k2 < n" "stops_in alloc v0 k2 (?m2, es1)"
        using stops_in_reaches [OF k1(2)] k1(1) by (meson le_less_trans)
      then show ?thesis
        using less.IH [OF _ running_body_moves [OF R \<kappa>(2) [OF r]]] Co_Await out1 Done by simp
    qed (use Co_Await out1 in simp)
  qed simp_all
qed

section \<open>A launched task\<close>

definition root_frame :: "'v \<Rightarrow> ('v, 'q, 'e, 'x) coro \<Rightarrow> ('v, 'q, 'e, 'x) frame" where
  "root_frame v0 b = \<lparr> fr_kind = Detached, fr_value = v0, fr_exception = None, fr_continuation = None, fr_point = Initial b \<rparr>"

definition launched :: "'v \<Rightarrow> ('v, 'q, 'e, 'x) coro \<Rightarrow> ('v, 'q, 'e, 'x) machine" where
  "launched v0 b = \<lparr> mc_frames = [0 \<mapsto> root_frame v0 b], mc_control = Run 0 b, mc_parked = None, mc_log = [], mc_fault = False \<rparr>"

lemma launch_runs: "reaches alloc v0 (launch v0 b, es) (launched v0 b, es)"
  by (rule reaches_one) (simp add: drive_def launch_def new_detached_def task_step_def root_frame_def launched_def)

lemma launched_running: "typed Detached b \<Longrightarrow> running_body (launched v0 b) 0 (root_frame v0 b) b []"
  by (simp add: running_body_def launched_def root_frame_def)

lemma finish_root:
  assumes "delivers Detached r"
  shows "finish 0 r (at_point (launched v0 b) 0 (root_frame v0 b) p q qs) =
     (case r of
        Thrown _ \<Rightarrow> (at_point (launched v0 b) 0 (root_frame v0 b) p q qs)\<lparr> mc_control := Terminated \<rparr>
      | _ \<Rightarrow> \<lparr> mc_frames = (\<lambda>_. None), mc_control = Yield, mc_parked = None, mc_log = qs, mc_fault = False \<rparr>)"
  using assms by (cases r) (simp_all add: finish_def at_point_def launched_def root_frame_def with_frame_def
      detached_return_def detached_exception_def)

lemma undefined_never_stops:
  assumes "alloc_law alloc" and "typed Detached b" and "direct b [] es = None"
  shows "\<not> stopped ((drive alloc v0 ^^ n) (launch v0 b, es))"
proof -
  have "\<not> stops_in alloc v0 n (launched v0 b, es)" for n
    using stops_direct [OF assms(1) launched_running [OF assms(2)], where es = es and n = n] assms(3) by auto
  then have "\<not> stops_in alloc v0 n (launch v0 b, es)"
    using stops_in_reaches [OF _ launch_runs [of alloc v0 b es], of n] by auto
  then show ?thesis
    by (simp add: stops_in_def)
qed

lemma launch_done:
  assumes "alloc_law alloc" and "typed Detached b" and "direct b [] es = Some (Done r qs es1)"
  shows "\<exists>n m. (drive alloc v0 ^^ n) (launch v0 b, es) = (m, es1) \<and> mc_log m = qs \<and>
    (case r of Thrown x \<Rightarrow> mc_control m = Terminated
     | _ \<Rightarrow> mc_control m = Yield \<and> mc_parked m = None \<and> mc_frames m = (\<lambda>_. None))"
proof -
  note run = direct_simulated [OF assms(1,3) launched_running [OF assms(2)], of v0, unfolded simulates_def outcome.case]
  have r: "delivers Detached r"
    using run by (simp add: root_frame_def)
  obtain p q where "reaches alloc v0 (launched v0 b, es)
      (finish 0 r (at_point (launched v0 b) 0 (root_frame v0 b) p q qs), es1)"
    using run by blast
  then have "reaches alloc v0 (launch v0 b, es) (finish 0 r (at_point (launched v0 b) 0 (root_frame v0 b) p q qs), es1)"
    by (rule reaches_trans [OF launch_runs])
  then show ?thesis
    unfolding finish_root [OF r] reaches_def by (cases r) fastforce+
qed

lemma launch_waits:
  assumes "alloc_law alloc" and "typed Detached b" and "direct b [] es = Some (Waiting qs)"
  shows "\<exists>n m. (drive alloc v0 ^^ n) (launch v0 b, es) = (m, []) \<and> mc_log m = qs \<and>
    mc_control m = Yield \<and> mc_parked m \<noteq> None"
proof -
  have "\<exists>m. reaches alloc v0 (launched v0 b, es) (m, []) \<and> mc_control m = Yield \<and> mc_parked m \<noteq> None \<and> mc_log m = qs"
    using direct_simulated [OF assms(1,3) launched_running [OF assms(2)]] unfolding simulates_def outcome.case .
  then obtain m where m: "reaches alloc v0 (launched v0 b, es) (m, [])" "mc_control m = Yield" "mc_parked m \<noteq> None" "mc_log m = qs"
    by blast
  have "reaches alloc v0 (launch v0 b, es) (m, [])"
    by (rule reaches_trans [OF launch_runs m(1)])
  then show ?thesis
    using m(2-4) unfolding reaches_def by blast
qed

text \<open>
  C5: The frames of a launched task and of all tasks it awaits, at any depth, together do what the
  body does in direct style, whatever the answers from outside are. When the body returns, its
  effects and requests have happened in that order, every frame has been destroyed and the thread is back in
  its scheduler with the same answers left; when an exception escapes it, the program is in
  \<open>std::terminate\<close>; when the answers run out, exactly the requests of the body have been made and its
  handle waits outside; and when the calls of the body do not end, the thread never stops.
\<close>

theorem task_direct_style:
  assumes "alloc_law alloc" and "typed Detached b"
  shows "case direct b [] es of
      None \<Rightarrow> \<forall>n. \<not> stopped ((drive alloc v0 ^^ n) (launch v0 b, es))
    | Some (Done r qs es1) \<Rightarrow>
        (\<exists>n m. (drive alloc v0 ^^ n) (launch v0 b, es) = (m, es1) \<and> mc_log m = qs \<and>
           (case r of Thrown x \<Rightarrow> mc_control m = Terminated
            | _ \<Rightarrow> mc_control m = Yield \<and> mc_parked m = None \<and> mc_frames m = (\<lambda>_. None)))
    | Some (Waiting qs) \<Rightarrow>
        (\<exists>n m. (drive alloc v0 ^^ n) (launch v0 b, es) = (m, []) \<and> mc_log m = qs \<and>
           mc_control m = Yield \<and> mc_parked m \<noteq> None)"
  using undefined_never_stops [OF assms] launch_done [OF assms] launch_waits [OF assms]
  by (auto split: option.split outcome.split)

section \<open>Runs\<close>

text \<open>A task that sleeps and throws, awaited by a task that catches the exception, then does something with
  the next answer, as in the basic coroutine test.\<close>

definition throwing_task :: "(nat, nat, nat, string) coro" where
  "throwing_task = Co_Suspend 10 (\<lambda>_. Co_Throw ''Expected Exception'')"

definition catching_task :: "(nat, nat, nat, string) coro" where
  "catching_task = Co_Await Valued throwing_task
     (\<lambda>r. case r of Thrown x \<Rightarrow> Co_Suspend 20 (\<lambda>e. Co_Do (e + size x) Co_Return_Void) | _ \<Rightarrow> Co_Return_Void)"

lemma catching_typed: "typed Detached catching_task"
  by (auto simp: catching_task_def throwing_task_def split: result.split)

theorem task_direct_style_witness:
  "\<exists>n m. (drive fresh_frame 0 ^^ n) (launch 0 catching_task, [1, 42]) = (m, []) \<and> mc_log m = [10, 20, 60] \<and>
     mc_control m = Yield \<and> mc_parked m = None \<and> mc_frames m = (\<lambda>_. None)"
proof -
  have "direct catching_task [] [1, 42] = Some (Done Nothing [10, 20, 60] [])"
    by (simp add: catching_task_def throwing_task_def)
  then show ?thesis
    using task_direct_style [OF fresh_frame_law catching_typed, of 0 "[1, 42]"] by simp
qed

text \<open>A loop over a task that returns at once has no end and no meaning, and so the thread never gets back to
  its scheduler.\<close>

primcorec spinning :: "(nat, nat, nat, string) coro" where
  "spinning = Co_Await Void Co_Return_Void (\<lambda>_. spinning)"

lemma spinning_typed: "typed Detached spinning"
proof (coinduction)
  case typed
  have "spinning = Co_Await Void Co_Return_Void (\<lambda>_. spinning)"
    by (rule spinning.code)
  moreover have "typed Void Co_Return_Void"
    by simp
  ultimately show ?case
    by blast
qed

lemma spinning_undefined: "direct spinning qs es = None"
proof -
  have "b \<noteq> spinning \<and> (b = Co_Return_Void \<longrightarrow> (\<exists>r qs1 es1. out = Done r qs1 es1))" if "direct b qs es = Some out" for b out
    using that
  proof (induction rule: direct_induct)
    case (step rec b qs es out)
    have "False" if "b = spinning"
    proof -
      have "b = Co_Await Void Co_Return_Void (\<lambda>_. spinning)"
        unfolding that by (rule spinning.code)
      then obtain out1 where out1: "rec Co_Return_Void qs es = Some out1"
          "(case out1 of Done r qs1 es1 \<Rightarrow> rec spinning qs1 es1 | Waiting qs1 \<Rightarrow> Some (Waiting qs1)) = Some out"
        using step(2) by (auto simp: bind_eq_Some_conv)
      show False
        using step(1) out1 by (cases out1) force+
    qed
    then show ?case
      using step(2) by auto
  qed
  then show ?thesis
    by (metis not_None_eq)
qed

lemma spinning_keeps_thread: "\<not> stopped ((drive fresh_frame 0 ^^ n) (launch 0 spinning, es))"
  by (rule undefined_never_stops [OF fresh_frame_law spinning_typed spinning_undefined])

end
