(* ===== verification/When_All.thy ===== *)
theory When_All
  imports Novaio_Prelude
begin

text \<open>
  \<open>when_all\<close> of \<open>include/novaio/when_all.hpp\<close>: the counter, the helper coroutines \<open>run_task\<close> and the
  awaiter that starts one per task. The helpers may run on any thread; their accesses interleave
  with each other and with the start of the remaining ones.
\<close>

section \<open>State\<close>

text \<open>\<open>result_t\<close>: the value of a \<open>Task<T>\<close>, an \<open>int\<close> for a \<open>Task<void>\<close>. The outcome of a task is a
  value, nothing, or an exception that escapes it.\<close>

datatype 'v slot = Slot 'v | VoidSlot int

datatype 'v outcome = Returned 'v | ReturnedVoid | Threw

datatype helper_pc =
    NotStarted
  | InTask           \<comment> \<open>at \<open>co_await task\<close>\<close>
  | Stored           \<comment> \<open>result written\<close>
  | Decided u64      \<comment> \<open>\<open>fetch_sub\<close> returned this value\<close>
  | Finished

datatype wake = OnScheduler addr handle | Inline handle

record 'v when_all =
  wa_count :: u64
  wa_continuation :: handle
  wa_results :: "nat \<Rightarrow> 'v slot"
  wa_pc :: "nat \<Rightarrow> helper_pc"
  wa_started :: nat
  wa_woken :: "wake list"
  wa_terminated :: bool

definition wa_at :: "nat \<Rightarrow> helper_pc \<Rightarrow> 'v when_all \<Rightarrow> 'v when_all" where
  "wa_at i pc s = s\<lparr> wa_pc := (wa_pc s)(i := pc) \<rparr>"

section \<open>Operations\<close>

definition wa_await_ready :: "nat \<Rightarrow> bool" where
  "wa_await_ready n \<longleftrightarrow> n = 0"

text \<open>\<open>when_all\<close> makes the awaiter for \<open>n\<close> tasks; \<open>await_suspend\<close> first stores the continuation.\<close>

definition wa_make :: "nat \<Rightarrow> (nat \<Rightarrow> 'v slot) \<Rightarrow> 'v when_all" where
  "wa_make n d = \<lparr> wa_count = of_nat n, wa_continuation = nullptr, wa_results = d, wa_pc = (\<lambda>_. NotStarted),
     wa_started = 0, wa_woken = [], wa_terminated = False \<rparr>"

definition wa_suspend :: "nat \<Rightarrow> (nat \<Rightarrow> 'v slot) \<Rightarrow> handle \<Rightarrow> 'v when_all" where
  "wa_suspend n d h = (wa_make n d)\<lparr> wa_continuation := h \<rparr>"

text \<open>\<open>start_tasks\<close> starts the helpers in the order of the tasks; a helper runs at once up to its await.\<close>

definition wa_start_next :: "nat \<Rightarrow> 'v when_all \<Rightarrow> 'v when_all" where
  "wa_start_next n s =
     (if wa_started s < n then wa_at (wa_started s) InTask (s\<lparr> wa_started := wa_started s + 1 \<rparr>) else s)"

definition result_slot :: "'v outcome \<Rightarrow> 'v slot" where
  "result_slot r = (case r of Returned v \<Rightarrow> Slot v | _ \<Rightarrow> VoidSlot 0)"

text \<open>The next access of helper \<open>i\<close>, whose task ends with \<open>r\<close>, on a thread with the scheduler \<open>cur\<close>.\<close>

definition helper_step :: "nat \<Rightarrow> 'v outcome \<Rightarrow> addr \<Rightarrow> 'v when_all \<Rightarrow> 'v when_all" where
  "helper_step i r cur s =
     (case wa_pc s i of
        InTask \<Rightarrow>
          (case r of
             Threw \<Rightarrow> s\<lparr> wa_terminated := True \<rparr>
           | _ \<Rightarrow> wa_at i Stored (s\<lparr> wa_results := (wa_results s)(i := result_slot r) \<rparr>))
      | Stored \<Rightarrow> wa_at i (Decided (wa_count s)) (s\<lparr> wa_count := wa_count s - 1 \<rparr>)
      | Decided old \<Rightarrow> wa_at i Finished
          (if old = 1 \<and> wa_continuation s \<noteq> nullptr
           then s\<lparr> wa_woken := wa_woken s @
             [if cur \<noteq> nullptr then OnScheduler cur (wa_continuation s) else Inline (wa_continuation s)] \<rparr>
           else s)
      | _ \<Rightarrow> s)"

definition wa_await_resume :: "nat \<Rightarrow> 'v when_all \<Rightarrow> 'v slot list" where
  "wa_await_resume n s = map (wa_results s) [0..<n]"

text \<open>Runs of one \<open>when_all\<close> of \<open>n\<close> tasks whose outcomes are \<open>out\<close>; nothing runs after
  \<open>std::terminate\<close>.\<close>

inductive wa_reach :: "nat \<Rightarrow> (nat \<Rightarrow> 'v outcome) \<Rightarrow> handle \<Rightarrow> 'v when_all \<Rightarrow> bool"
  for n :: nat and out :: "nat \<Rightarrow> 'v outcome" and h :: handle where
  wa_init: "wa_reach n out h (wa_suspend n d h)"
| wa_next: "wa_reach n out h s \<Longrightarrow> \<not> wa_terminated s \<Longrightarrow> wa_reach n out h (wa_start_next n s)"
| wa_run: "wa_reach n out h s \<Longrightarrow> \<not> wa_terminated s \<Longrightarrow> wa_reach n out h (helper_step i (out i) cur s)"

section \<open>The invariant\<close>

fun counted :: "helper_pc \<Rightarrow> bool" where
  "counted (Decided _) \<longleftrightarrow> True"
| "counted Finished \<longleftrightarrow> True"
| "counted _ \<longleftrightarrow> False"

fun has_result :: "helper_pc \<Rightarrow> bool" where
  "has_result NotStarted \<longleftrightarrow> False"
| "has_result InTask \<longleftrightarrow> False"
| "has_result _ \<longleftrightarrow> True"

definition notified :: "nat \<Rightarrow> 'v when_all \<Rightarrow> nat set" where
  "notified n s = {i. i < n \<and> counted (wa_pc s i)}"

definition deciding :: "nat \<Rightarrow> 'v when_all \<Rightarrow> nat set" where
  "deciding n s = {i. i < n \<and> wa_pc s i = Decided 1}"

definition wake_of :: "handle \<Rightarrow> wake \<Rightarrow> bool" where
  "wake_of h w \<longleftrightarrow> w = Inline h \<or> (\<exists>c. c \<noteq> nullptr \<and> w = OnScheduler c h)"

definition wa_inv :: "nat \<Rightarrow> (nat \<Rightarrow> 'v outcome) \<Rightarrow> handle \<Rightarrow> 'v when_all \<Rightarrow> bool" where
  "wa_inv n out h s \<longleftrightarrow>
     wa_continuation s = h \<and> wa_started s \<le> n
     \<and> (\<forall>i. wa_pc s i \<noteq> NotStarted \<longleftrightarrow> i < wa_started s)
     \<and> unat (wa_count s) + card (notified n s) = n
     \<and> length (wa_woken s) + card (deciding n s) = (if card (notified n s) = n then 1 else 0)
     \<and> (\<forall>i. has_result (wa_pc s i) \<longrightarrow> wa_results s i = result_slot (out i) \<and> out i \<noteq> Threw)
     \<and> list_all (wake_of h) (wa_woken s)"

lemma wa_at_sel [simp, effect_simps]:
  "wa_count (wa_at i pc s) = wa_count s" "wa_continuation (wa_at i pc s) = wa_continuation s"
  "wa_results (wa_at i pc s) = wa_results s" "wa_pc (wa_at i pc s) = (wa_pc s)(i := pc)"
  "wa_started (wa_at i pc s) = wa_started s" "wa_woken (wa_at i pc s) = wa_woken s"
  "wa_terminated (wa_at i pc s) = wa_terminated s"
  by (simp_all add: wa_at_def)

lemma wa_sets_upd [simp]:
  "notified n (s\<lparr> wa_count := c \<rparr>) = notified n s" "deciding n (s\<lparr> wa_count := c \<rparr>) = deciding n s"
  "notified n (s\<lparr> wa_woken := w \<rparr>) = notified n s" "deciding n (s\<lparr> wa_woken := w \<rparr>) = deciding n s"
  by (simp_all add: notified_def deciding_def)

lemma wa_sets_at:
  "i < n \<Longrightarrow> counted pc \<Longrightarrow> notified n (wa_at i pc s) = insert i (notified n s)"
  "\<not> counted pc \<Longrightarrow> notified n (wa_at i pc s) = notified n s - {i}"
  "i < n \<Longrightarrow> deciding n (wa_at i (Decided 1) s) = insert i (deciding n s)"
  "pc \<noteq> Decided 1 \<Longrightarrow> deciding n (wa_at i pc s) = deciding n s - {i}"
  by (auto simp: notified_def deciding_def)

lemma wa_sets_finite [simp]: "finite (notified n s)" "finite (deciding n s)"
  by (simp_all add: notified_def deciding_def)

lemma notified_le: "card (notified n s) \<le> n"
  using card_mono [of "{..<n}" "notified n s"] by (auto simp: notified_def)

lemma wa_inv_init: "0 < n \<Longrightarrow> n < 2 ^ 64 \<Longrightarrow> wa_inv n out h (wa_suspend n d h)"
  by (simp add: wa_inv_def wa_suspend_def wa_make_def notified_def deciding_def unat_of_nat)

lemma wa_invD:
  assumes "wa_inv n out h s"
  shows "wa_continuation s = h" and "wa_started s \<le> n" and "wa_pc s i \<noteq> NotStarted \<longleftrightarrow> i < wa_started s"
    and "unat (wa_count s) + card (notified n s) = n"
    and "length (wa_woken s) + card (deciding n s) = (if card (notified n s) = n then 1 else 0)"
    and "has_result (wa_pc s i) \<Longrightarrow> wa_results s i = result_slot (out i)"
    and "has_result (wa_pc s i) \<Longrightarrow> out i \<noteq> Threw"
    and "list_all (wake_of h) (wa_woken s)"
  using assms unfolding wa_inv_def by blast+

lemma wa_inv_next:
  assumes inv: "wa_inv n out h s"
  shows "wa_inv n out h (wa_start_next n s)"
proof (cases "wa_started s < n")
  case True
  let ?i = "wa_started s" and ?s = "wa_at (wa_started s) InTask (s\<lparr> wa_started := wa_started s + 1 \<rparr>)"
  note D = wa_invD [OF inv]
  have pc: "wa_pc s ?i = NotStarted"
    using D(3) [of ?i] by blast
  have "notified n ?s = notified n s" "deciding n ?s = deciding n s"
    using pc by (auto simp: notified_def deciding_def)
  moreover have "wa_pc ?s j \<noteq> NotStarted \<longleftrightarrow> j < wa_started ?s" for j
    using D(3) [of j] by auto
  ultimately have "wa_inv n out h ?s"
    using D True unfolding wa_inv_def by auto
  then show ?thesis
    using True by (simp add: wa_start_next_def)
qed (simp add: wa_start_next_def inv)

text \<open>\<open>notify\<close>: the counter goes down by one, and the last helper to do so is the one that saw 1.\<close>

lemma wa_inv_sub:
  assumes inv: "wa_inv n out h s" and pc: "wa_pc s i = Stored"
  shows "wa_inv n out h (wa_at i (Decided (wa_count s)) (s\<lparr> wa_count := wa_count s - 1 \<rparr>))"
proof -
  let ?s = "s\<lparr> wa_count := wa_count s - 1 \<rparr>" and ?c = "wa_count s"
  note D = wa_invD [OF inv]
  have i: "i < n" "i \<notin> notified n s" "i \<notin> deciding n s"
    using D(2) D(3) [of i] pc by (auto simp: notified_def deciding_def)
  have N: "notified n (wa_at i (Decided ?c) ?s) = insert i (notified n s)"
    using i(1) by (simp add: wa_sets_at)
  have "card (insert i (notified n s)) \<le> n"
    using notified_le [of n "wa_at i (Decided ?c) ?s"] N by simp
  then have lt: "card (notified n s) < n"
    using i(2) by simp
  then have c0: "?c \<noteq> 0"
    using D(4) by auto
  have cnt: "unat (?c - 1) + card (insert i (notified n s)) = n"
    using D(4) i(2) unat_minus_one [OF c0] lt by simp
  have no: "wa_woken s = []" "deciding n s = {}"
    using D(5) lt by auto
  have "length (wa_woken ?s) + card (deciding n (wa_at i (Decided ?c) ?s)) =
      (if card (insert i (notified n s)) = n then 1 else 0)"
  proof (cases "?c = 1")
    case True
    then show ?thesis
      using D(4) i no by (simp add: wa_sets_at)
  next
    case False
    then have "unat ?c \<noteq> 1"
      by (simp add: word_unat_eq_iff)
    then show ?thesis
      using False D(4) i no by (simp add: wa_sets_at)
  qed
  moreover have "wa_pc (wa_at i (Decided ?c) ?s) j \<noteq> NotStarted \<longleftrightarrow> j < wa_started s" for j
    using D(3) [of j] D(3) [of i] pc by auto
  ultimately show ?thesis
    using D cnt N pc unfolding wa_inv_def by auto
qed

lemma wa_inv_wake:
  assumes inv: "wa_inv n out h s" and pc: "wa_pc s i = Decided old" and h: "h \<noteq> nullptr"
  shows "wa_inv n out h (wa_at i Finished
    (if old = 1 \<and> wa_continuation s \<noteq> nullptr
     then s\<lparr> wa_woken := wa_woken s @
       [if cur \<noteq> nullptr then OnScheduler cur (wa_continuation s) else Inline (wa_continuation s)] \<rparr>
     else s))" (is "wa_inv n out h (wa_at i Finished ?s)")
proof -
  note D = wa_invD [OF inv]
  have i: "i < n" "i \<in> notified n s" "i \<in> deciding n s \<longleftrightarrow> old = 1"
    using D(2) D(3) [of i] pc by (auto simp: notified_def deciding_def)
  have same: "notified n ?s = notified n s" "deciding n ?s = deciding n s"
    by simp_all
  have N: "notified n (wa_at i Finished ?s) = notified n s"
    using i by (simp only: wa_sets_at counted.simps same) auto
  have K: "deciding n (wa_at i Finished ?s) = deciding n s - {i}"
    by (simp only: wa_sets_at helper_pc.distinct not_False_eq_True same)
  have "length (wa_woken ?s) + card (deciding n s - {i}) = length (wa_woken s) + card (deciding n s)"
    using i(3) D(1) h card_Suc_Diff1 [of "deciding n s" i] by (cases "old = 1") auto
  then have "length (wa_woken ?s) + card (deciding n (wa_at i Finished ?s)) = (if card (notified n s) = n then 1 else 0)"
    using D(5) K by simp
  moreover have "wa_pc (wa_at i Finished ?s) j \<noteq> NotStarted \<longleftrightarrow> j < wa_started s" for j
    using D(3) [of j] D(3) [of i] pc by auto
  moreover have "list_all (wake_of h) (wa_woken ?s)"
    using D(1,8) h by (auto simp: wake_of_def)
  ultimately show ?thesis
    using D N pc unfolding wa_inv_def by auto
qed

lemma wa_inv_step:
  assumes inv: "wa_inv n out h s" and h: "h \<noteq> nullptr"
  shows "wa_inv n out h (helper_step i (out i) cur s)"
proof (cases "wa_pc s i")
  case InTask
  show ?thesis
  proof (cases "out i = Threw")
    case True
    have "wa_inv n out h (s\<lparr> wa_terminated := True \<rparr>)"
      using inv by (simp add: wa_inv_def notified_def deciding_def)
    then show ?thesis
      using InTask True by (simp add: helper_step_def)
  next
    case False
    let ?s = "wa_at i Stored (s\<lparr> wa_results := (wa_results s)(i := result_slot (out i)) \<rparr>)"
    note D = wa_invD [OF inv]
    have "notified n ?s = notified n s" "deciding n ?s = deciding n s"
      using InTask by (auto simp: notified_def deciding_def)
    moreover have "wa_pc ?s j \<noteq> NotStarted \<longleftrightarrow> j < wa_started ?s" for j
      using D(3) [of j] D(3) [of i] InTask by auto
    ultimately have "wa_inv n out h ?s"
      using D False unfolding wa_inv_def by auto
    then show ?thesis
      using InTask False by (auto simp: helper_step_def split: outcome.splits)
  qed
next
  case Stored
  then show ?thesis
    using wa_inv_sub [OF inv Stored] by (simp add: helper_step_def)
next
  case (Decided old)
  then show ?thesis
    using wa_inv_wake [OF inv Decided h] by (simp add: helper_step_def)
qed (simp_all add: helper_step_def inv)

lemma wa_reach_inv:
  assumes "wa_reach n out h s" and "0 < n" and "n < 2 ^ 64" and "h \<noteq> nullptr"
  shows "wa_inv n out h s"
  using assms(1) by (induction rule: wa_reach.induct) (use assms(2-) in \<open>simp_all add: wa_inv_init wa_inv_next wa_inv_step\<close>)

section \<open>What \<open>when_all\<close> promises\<close>

lemma notified_all: "card (notified n s) = n \<Longrightarrow> i < n \<Longrightarrow> counted (wa_pc s i)"
proof -
  assume card: "card (notified n s) = n" and i: "i < n"
  have "notified n s \<subseteq> {..<n}"
    by (auto simp: notified_def)
  then have "notified n s = {..<n}"
    using card by (intro card_subset_eq) simp_all
  then show ?thesis
    using i by (auto simp: notified_def)
qed

lemma counted_result: "counted pc \<Longrightarrow> has_result pc"
  by (cases pc) simp_all

text \<open>However the helpers interleave, the awaiting coroutine is woken at most once, and not before all results are in place.\<close>

lemma when_all_results_in_place:
  assumes "wa_reach n out h s" and "0 < n" and "n < 2 ^ 64" and "h \<noteq> nullptr"
  shows "length (wa_woken s) \<le> 1 \<and>
    (wa_woken s \<noteq> [] \<longrightarrow> wa_await_resume n s = map (\<lambda>i. result_slot (out i)) [0..<n])"
proof -
  note D = wa_invD [OF wa_reach_inv [OF assms]]
  have "wa_results s i = result_slot (out i)" if "wa_woken s \<noteq> []" "i < n" for i
  proof -
    have "card (notified n s) = n"
      using D(5) that(1) by (auto split: if_splits)
    then show ?thesis
      using D(6) [of i] notified_all [of n s i] that(2) counted_result by blast
  qed
  moreover have "length (wa_woken s) \<le> 1"
    using D(5) by (auto split: if_splits)
  ultimately show ?thesis
    by (simp add: wa_await_resume_def)
qed

text \<open>
  C30: No wake-up is lost: once every helper has ended, the awaiting coroutine has been woken exactly
  once, on the scheduler of the thread that counted down to zero or inline when that thread has none.
\<close>

theorem when_all_completes:
  assumes "wa_reach n out h s" and "0 < n" and "n < 2 ^ 64" and "h \<noteq> nullptr"
    and "\<forall>i<n. wa_pc s i = Finished"
  shows "\<exists>w. wa_woken s = [w] \<and> (w = Inline h \<or> (\<exists>cur. cur \<noteq> nullptr \<and> w = OnScheduler cur h))"
proof -
  note D = wa_invD [OF wa_reach_inv [OF assms(1-4)]]
  have "notified n s = {..<n}" "deciding n s = {}"
    using assms(5) by (auto simp: notified_def deciding_def)
  then have "length (wa_woken s) = 1"
    using D(5) by simp
  then obtain w where "wa_woken s = [w]"
    by (auto simp: length_Suc_conv)
  then show ?thesis
    using D(8) by (simp add: wake_of_def)
qed

section \<open>A run\<close>

text \<open>Two tasks, the second without a value, end on different threads; the first helper counts down
  last.\<close>

definition sample_out :: "nat \<Rightarrow> nat outcome" where
  "sample_out i = (if i = 0 then Returned 5 else ReturnedVoid)"

definition sample_wa :: "nat when_all" where
  "sample_wa =
     (let s = wa_start_next 2 (wa_start_next 2 (wa_suspend 2 (\<lambda>_. VoidSlot 0) 100));
          s = helper_step 1 (sample_out 1) 8 (helper_step 0 (sample_out 0) 16 s);
          s = helper_step 0 (sample_out 0) 16 (helper_step 1 (sample_out 1) 8 s)
      in helper_step 0 (sample_out 0) 16 (helper_step 1 (sample_out 1) 8 s))"

lemma sample_wa_reach: "wa_reach 2 sample_out 100 sample_wa"
  unfolding sample_wa_def Let_def
  by (intro wa_run wa_next wa_init) code_simp+

lemma when_all_results_in_place_instance:
  "wa_woken sample_wa = [OnScheduler 16 100] \<and> wa_await_resume 2 sample_wa = [Slot 5, VoidSlot 0]"
proof -
  have woken: "wa_woken sample_wa = [OnScheduler 16 100]"
    by code_simp
  have "wa_await_resume 2 sample_wa = map (\<lambda>i. result_slot (sample_out i)) [0..<2]"
    using when_all_results_in_place [OF sample_wa_reach] woken by simp
  then show ?thesis
    using woken by (simp add: sample_out_def result_slot_def upt_rec)
qed

theorem when_all_completes_witness:
  "\<exists>w. wa_woken sample_wa = [w] \<and> (w = Inline 100 \<or> (\<exists>cur. cur \<noteq> nullptr \<and> w = OnScheduler cur 100))"
proof (rule when_all_completes [OF sample_wa_reach])
  have "wa_pc sample_wa 0 = Finished" "wa_pc sample_wa 1 = Finished"
    by code_simp+
  then show "\<forall>i<2. wa_pc sample_wa i = Finished"
    by (simp add: less_2_cases_iff)
qed simp_all

end
