(* ===== verification/When_Weak.thy ===== *)
theory When_Weak
  imports When_All Release_Acquire
begin

text \<open>
  \<open>when_all\<close> on a memory with release and acquire. The counter is atomic, the results are plain memory: each
  helper writes its own, and the coroutine that is woken reads all of them. The steps are those of \<open>When_All\<close>;
  beside them runs what each helper has seen of the others. The orders of \<open>fetch_sub\<close> are parameters.
\<close>

section \<open>Views of the helpers\<close>

datatype wa_loc = WCount | WResult nat

record wa_views =
  wv_mem :: "(wa_loc, u64) weak_mem"
  wv_helper :: "nat \<Rightarrow> wa_loc view"
  wv_starter :: "wa_loc view"
  wv_race :: bool

type_synonym 'v weak_when_all = "'v when_all \<times> wa_views"

definition views_init :: "nat \<Rightarrow> wa_views" where
  "views_init n = \<lparr> wv_mem = \<lparr> wm_stores = (\<lambda>_. [(of_nat n, \<lambda>_. 0)]), wm_writes = (\<lambda>_. 0) \<rparr>,
     wv_helper = (\<lambda>_ _. 0), wv_starter = (\<lambda>_. 0), wv_race = False \<rparr>"

text \<open>A helper begins on the thread that starts it.\<close>

definition weak_start_next :: "nat \<Rightarrow> 'v weak_when_all \<Rightarrow> 'v weak_when_all" where
  "weak_start_next n = (\<lambda>(s, w). (wa_start_next n s,
     if wa_started s < n then w\<lparr> wv_helper := (wv_helper w)(wa_started s := wv_starter w) \<rparr> else w))"

text \<open>What helper \<open>i\<close> learns in its next step. The coroutine it wakes goes on with what it has seen, and
  \<open>await_resume\<close> moves all results out.\<close>

definition views_step :: "bool \<Rightarrow> bool \<Rightarrow> nat \<Rightarrow> nat \<Rightarrow> 'v outcome \<Rightarrow> 'v when_all \<Rightarrow> wa_views \<Rightarrow> wa_views" where
  "views_step acquire release n i r s w =
     (let m = wv_mem w; V = wv_helper w i in
      case wa_pc s i of
        InTask \<Rightarrow>
          (case r of
             Threw \<Rightarrow> w
           | _ \<Rightarrow> (let (m1, V1) = plain_access (WResult i) m V
                  in w\<lparr> wv_mem := m1, wv_helper := (wv_helper w)(i := V1), wv_race := (wv_race w \<or> races (WResult i) m V) \<rparr>))
      | Stored \<Rightarrow>
          (let (old, m1, V1) = weak_rmw acquire release WCount (\<lambda>c. c - 1) m V
           in w\<lparr> wv_mem := m1, wv_helper := (wv_helper w)(i := V1) \<rparr>)
      | Decided old \<Rightarrow>
          (if old = 1 \<and> wa_continuation s \<noteq> nullptr
           then w\<lparr> wv_race := (wv_race w \<or> list_ex (\<lambda>j. races (WResult j) m V) [0..<n]) \<rparr> else w)
      | _ \<Rightarrow> w)"

definition weak_helper_step :: "bool \<Rightarrow> bool \<Rightarrow> nat \<Rightarrow> nat \<Rightarrow> 'v outcome \<Rightarrow> addr \<Rightarrow> 'v weak_when_all \<Rightarrow> 'v weak_when_all" where
  "weak_helper_step acquire release n i r cur =
     (\<lambda>(s, w). (helper_step i r cur s, views_step acquire release n i r s w))"

text \<open>A task that moves to another thread takes over what that thread has seen from the others.\<close>

definition weak_learn :: "nat \<Rightarrow> nat \<Rightarrow> 'v weak_when_all \<Rightarrow> 'v weak_when_all" where
  "weak_learn i j = (\<lambda>(s, w). (s, if i < wa_started s
     then w\<lparr> wv_helper := (wv_helper w)(i := sup (wv_helper w i) (wv_helper w j)) \<rparr> else w))"

inductive wa_weak_reach :: "bool \<Rightarrow> bool \<Rightarrow> nat \<Rightarrow> (nat \<Rightarrow> 'v outcome) \<Rightarrow> handle \<Rightarrow> 'v weak_when_all \<Rightarrow> bool"
  for acquire :: bool and release :: bool and n :: nat and out :: "nat \<Rightarrow> 'v outcome" and h :: handle where
  ww_init: "wa_weak_reach acquire release n out h (wa_suspend n d h, views_init n)"
| ww_next: "wa_weak_reach acquire release n out h z \<Longrightarrow> \<not> wa_terminated (fst z)
    \<Longrightarrow> wa_weak_reach acquire release n out h (weak_start_next n z)"
| ww_run: "wa_weak_reach acquire release n out h z \<Longrightarrow> \<not> wa_terminated (fst z)
    \<Longrightarrow> wa_weak_reach acquire release n out h (weak_helper_step acquire release n i (out i) cur z)"
| ww_learn: "wa_weak_reach acquire release n out h z \<Longrightarrow> wa_weak_reach acquire release n out h (weak_learn i j z)"

lemma wa_weak_projects: "wa_weak_reach a r n out h z \<Longrightarrow> wa_reach n out h (fst z)"
  by (induction rule: wa_weak_reach.induct)
    (auto simp: weak_start_next_def weak_helper_step_def weak_learn_def split_beta intro: wa_init wa_next wa_run)

section \<open>The invariant\<close>

definition results_within :: "wa_views \<Rightarrow> wa_loc view \<Rightarrow> bool" where
  "results_within w V \<longleftrightarrow> (\<forall>l. V (WResult l) \<le> wm_writes (wv_mem w) (WResult l))"

definition released :: "wa_views \<Rightarrow> wa_loc view" where
  "released w = store_view (wv_mem w) WCount (newest (wv_mem w) WCount)"

definition views_inv :: "nat \<Rightarrow> 'v when_all \<Rightarrow> wa_views \<Rightarrow> bool" where
  "views_inv n s w \<longleftrightarrow> \<not> wv_race w \<and> wm_stores (wv_mem w) WCount \<noteq> []
     \<and> store_value (wv_mem w) WCount (newest (wv_mem w) WCount) = wa_count s
     \<and> (\<forall>l. wm_writes (wv_mem w) (WResult l) = (if has_result (wa_pc s l) then 1 else 0))
     \<and> results_within w (wv_starter w) \<and> results_within w (released w) \<and> (\<forall>i. results_within w (wv_helper w i))
     \<and> (\<forall>i. has_result (wa_pc s i) \<longrightarrow> 1 \<le> wv_helper w i (WResult i))
     \<and> (\<forall>i. counted (wa_pc s i) \<longrightarrow> 1 \<le> released w (WResult i))
     \<and> (\<forall>i l. wa_pc s i = Decided 1 \<and> l < n \<longrightarrow> 1 \<le> wv_helper w i (WResult l))"

lemma views_invD:
  assumes "views_inv n s w"
  shows "\<not> wv_race w" and "wm_stores (wv_mem w) WCount \<noteq> []"
    and "store_value (wv_mem w) WCount (newest (wv_mem w) WCount) = wa_count s"
    and "wm_writes (wv_mem w) (WResult l) = (if has_result (wa_pc s l) then 1 else 0)"
    and "results_within w (wv_starter w)" and "results_within w (released w)" and "results_within w (wv_helper w i)"
    and "has_result (wa_pc s i) \<Longrightarrow> 1 \<le> wv_helper w i (WResult i)"
    and "counted (wa_pc s i) \<Longrightarrow> 1 \<le> released w (WResult i)"
    and "wa_pc s i = Decided 1 \<Longrightarrow> l < n \<Longrightarrow> 1 \<le> wv_helper w i (WResult l)"
  using assms unfolding views_inv_def by blast+

lemma views_invI:
  assumes "\<not> wv_race w" and "wm_stores (wv_mem w) WCount \<noteq> []"
    and "store_value (wv_mem w) WCount (newest (wv_mem w) WCount) = wa_count s"
    and "\<And>l. wm_writes (wv_mem w) (WResult l) = (if has_result (wa_pc s l) then 1 else 0)"
    and "results_within w (wv_starter w)" and "results_within w (released w)" and "\<And>i. results_within w (wv_helper w i)"
    and "\<And>i. has_result (wa_pc s i) \<Longrightarrow> 1 \<le> wv_helper w i (WResult i)"
    and "\<And>i. counted (wa_pc s i) \<Longrightarrow> 1 \<le> released w (WResult i)"
    and "\<And>i l. wa_pc s i = Decided 1 \<Longrightarrow> l < n \<Longrightarrow> 1 \<le> wv_helper w i (WResult l)"
  shows "views_inv n s w"
  using assms unfolding views_inv_def by blast

lemma views_inv_init: "views_inv n (wa_suspend n d h) (views_init n)"
  by (simp add: views_inv_def views_init_def wa_suspend_def wa_make_def newest_def results_within_def released_def)

lemma views_upd [simp]:
  "results_within (w\<lparr> wv_helper := f \<rparr>) = results_within w" "released (w\<lparr> wv_helper := f \<rparr>) = released w"
  "results_within (w\<lparr> wv_race := r \<rparr>) = results_within w" "released (w\<lparr> wv_race := r \<rparr>) = released w"
  by (simp_all add: results_within_def released_def fun_eq_iff)

lemma results_within_sup: "results_within w V \<Longrightarrow> results_within w W \<Longrightarrow> results_within w (sup V W)"
  by (simp add: results_within_def)

lemma views_inv_next:
  assumes W: "wa_inv n out h s" and V: "views_inv n s w"
  shows "views_inv n (fst (weak_start_next n (s, w))) (snd (weak_start_next n (s, w)))"
proof (cases "wa_started s < n")
  case True
  have pc: "wa_pc s (wa_started s) = NotStarted"
    using wa_invD(3) [OF W] by blast
  show ?thesis
    using True V pc unfolding views_inv_def by (simp add: weak_start_next_def wa_start_next_def)
qed (use V in \<open>simp add: weak_start_next_def wa_start_next_def\<close>)

lemma views_inv_learn:
  assumes V: "views_inv n s w"
  shows "views_inv n (fst (weak_learn i j (s, w))) (snd (weak_learn i j (s, w)))"
proof (cases "i < wa_started s")
  case True
  have "results_within w (sup (wv_helper w i) (wv_helper w j))"
    using views_invD(7) [OF V] by (intro results_within_sup)
  then show ?thesis
    using True V unfolding views_inv_def by (simp add: weak_learn_def sup_nat_def le_max_iff_disj)
qed (use V in \<open>simp add: weak_learn_def\<close>)

text \<open>A helper writes its result; it has the slot for itself.\<close>

lemma views_inv_store:
  assumes V: "views_inv n s w" and pc: "wa_pc s i = InTask" and r: "r \<noteq> Threw"
  shows "views_inv n (helper_step i r cur s) (views_step a b n i r s w)"
proof -
  let ?m = "wv_mem w" and ?V = "wv_helper w i" and ?l = "WResult i"
  note D = views_invD [OF V]
  have w0: "wm_writes ?m ?l = 0" and v0: "?V ?l = 0"
    using D(4) [of i] D(7) [of i] pc by (simp_all add: results_within_def) (metis le_zero_eq)
  have s': "helper_step i r cur s = wa_at i Stored (s\<lparr> wa_results := (wa_results s)(i := result_slot r) \<rparr>)"
    using pc r by (cases r) (simp_all add: helper_step_def)
  let ?w = "w\<lparr> wv_mem := fst (plain_access ?l ?m ?V), wv_helper := (wv_helper w)(i := ?V(?l := 1)) \<rparr>"
  have w': "views_step a b n i r s w = ?w"
    using pc r w0 v0 D(1) by (cases r) (simp_all add: views_step_def races_def Let_def split_beta)
  have rel: "released ?w = released w"
    by (simp add: released_def)
  have within: "results_within w V \<Longrightarrow> results_within ?w V" for V
    by (auto simp: results_within_def le_SucI)
  have own: "results_within ?w (?V(?l := 1))"
    using D(7) [of i] w0 by (simp add: results_within_def)
  show ?thesis
    unfolding s' w'
  proof (rule views_invI)
    fix j l
    show "wm_writes (wv_mem ?w) (WResult l)
        = (if has_result (wa_pc (wa_at i Stored (s\<lparr> wa_results := (wa_results s)(i := result_slot r) \<rparr>)) l) then 1 else 0)"
      using D(4) [of l] w0 by simp
    show "results_within ?w (wv_helper ?w j)"
      using own within [OF D(7) [of j]] by simp
    show "1 \<le> wv_helper ?w j (WResult j)"
      if "has_result (wa_pc (wa_at i Stored (s\<lparr> wa_results := (wa_results s)(i := result_slot r) \<rparr>)) j)"
      using that D(8) [of j] by (cases "j = i") simp_all
    show "1 \<le> released ?w (WResult j)"
      if "counted (wa_pc (wa_at i Stored (s\<lparr> wa_results := (wa_results s)(i := result_slot r) \<rparr>)) j)"
      using that D(9) [of j] rel by (cases "j = i") simp_all
    show "1 \<le> wv_helper ?w j (WResult l)"
      if "wa_pc (wa_at i Stored (s\<lparr> wa_results := (wa_results s)(i := result_slot r) \<rparr>)) j = Decided 1" "l < n"
      using that D(10) [of j l] by (cases "j = i") simp_all
  next
    show "results_within ?w (wv_starter ?w)" "results_within ?w (released ?w)"
      using within D(5,6) rel by simp_all
  qed (use D(1-3) in simp_all)
qed

text \<open>\<open>fetch_sub\<close> with acquire and release: the helper that counts down to zero has seen all results.\<close>

lemma views_inv_sub:
  assumes W: "wa_inv n out h s" and V: "views_inv n s w" and pc: "wa_pc s i = Stored"
  shows "views_inv n (helper_step i r cur s) (views_step True True n i r s w)"
proof -
  let ?m = "wv_mem w" and ?V = "wv_helper w i"
  note D = views_invD [OF V]
  obtain m1 V1 old where rmw: "weak_rmw True True WCount (\<lambda>c. c - 1) ?m ?V = (old, m1, V1)"
    by (metis prod_cases3)
  have m1: "m1 = fst (snd (weak_rmw True True WCount (\<lambda>c. c - 1) ?m ?V))"
    and V1: "V1 = snd (snd (weak_rmw True True WCount (\<lambda>c. c - 1) ?m ?V))"
    by (simp_all add: rmw)
  have n1: "newest m1 WCount = Suc (newest ?m WCount)" "wm_stores m1 WCount \<noteq> []"
    "store_value m1 WCount (newest m1 WCount) = wa_count s - 1" "wm_writes m1 = wm_writes ?m"
    using rmw_newest [OF D(2), of True True "\<lambda>c. c - 1" ?V] D(3) by (simp_all add: m1)
  have see: "V1 (WResult l) = max (?V (WResult l)) (released w (WResult l))"
    "store_view m1 WCount (newest m1 WCount) (WResult l) = max (?V (WResult l)) (released w (WResult l))" for l
    using rmw_acq_rel [OF D(2), of "WResult l" "\<lambda>c. c - 1" ?V] n1(1) by (simp_all add: m1 V1 released_def)
  let ?s = "wa_at i (Decided (wa_count s)) (s\<lparr> wa_count := wa_count s - 1 \<rparr>)"
    and ?w = "w\<lparr> wv_mem := m1, wv_helper := (wv_helper w)(i := V1) \<rparr>"
  have s': "helper_step i r cur s = ?s" and w': "views_step True True n i r s w = ?w"
    using pc rmw by (simp_all add: helper_step_def views_step_def Let_def)
  have rel: "released ?w (WResult l) = max (?V (WResult l)) (released w (WResult l))" for l
    using see(2) by (simp add: released_def)
  have within: "results_within ?w U \<longleftrightarrow> results_within w U" for U
    by (simp add: results_within_def n1(4))
  have both: "?V (WResult l) \<le> wm_writes ?m (WResult l)" "released w (WResult l) \<le> wm_writes ?m (WResult l)" for l
    using D(6) D(7) [of i] by (simp_all add: results_within_def)
  have seen_all: "1 \<le> max (?V (WResult l)) (released w (WResult l))" if one: "wa_count s = 1" and l: "l < n" for l
  proof (cases "l = i")
    case True
    then show ?thesis
      using D(8) [of i] pc by simp
  next
    case False
    have "i < n" "i \<notin> notified n s"
      using wa_invD(2) [OF W] wa_invD(3) [OF W, of i] pc by (auto simp: notified_def)
    moreover have "card (notified n s) = n - 1"
      using wa_invD(4) [OF W] one by simp
    moreover have "notified n s \<subseteq> {..<n} - {i}"
      using \<open>i \<notin> notified n s\<close> by (auto simp: notified_def)
    ultimately have "notified n s = {..<n} - {i}"
      by (intro card_subset_eq) simp_all
    then have "l \<in> notified n s"
      using False l by simp
    then have "1 \<le> released w (WResult l)"
      by (intro D(9)) (simp add: notified_def)
    then show ?thesis
      by simp
  qed
  have V1_in: "results_within w V1"
    using both by (simp add: results_within_def see(1))
  have own: "1 \<le> ?V (WResult i)"
    using D(8) [of i] pc by simp
  show ?thesis
    unfolding s' w'
  proof (rule views_invI)
    fix j l
    show "wm_writes (wv_mem ?w) (WResult l) = (if has_result (wa_pc ?s l) then 1 else 0)"
      using D(4) [of l] pc n1(4) by (cases "l = i") simp_all
    show "results_within ?w (wv_helper ?w j)"
      unfolding within using D(7) [of j] V1_in by simp
    show "1 \<le> wv_helper ?w j (WResult j)" if "has_result (wa_pc ?s j)"
      using that D(8) [of j] own by (cases "j = i") (simp_all add: see(1))
    show "1 \<le> released ?w (WResult j)" if "counted (wa_pc ?s j)"
      unfolding rel using that D(9) [of j] own by (cases "j = i") simp_all
    show "1 \<le> wv_helper ?w j (WResult l)" if "wa_pc ?s j = Decided 1" "l < n"
      using that D(10) [of j l] seen_all [of l] by (cases "j = i") (simp_all add: see(1))
  next
    show "results_within ?w (released ?w)"
      unfolding results_within_def rel using both n1(4) by simp
    show "results_within ?w (wv_starter ?w)"
      unfolding within using D(5) by simp
  qed (use D(1) n1(2,3) in simp_all)
qed

text \<open>The woken coroutine reads the results without a race.\<close>

lemma views_inv_wake:
  assumes W: "wa_inv n out h s" and V: "views_inv n s w" and pc: "wa_pc s i = Decided old"
  shows "views_inv n (helper_step i r cur s) (views_step a b n i r s w)"
proof -
  note D = views_invD [OF V]
  have "\<not> races (WResult l) (wv_mem w) (wv_helper w i)" if "old = 1" "l < n" for l
  proof -
    have "1 \<le> wv_helper w i (WResult l)" and "wv_helper w i (WResult l) \<le> wm_writes (wv_mem w) (WResult l)"
      using D(10) [of i l] D(7) [of i] that pc by (simp_all add: results_within_def)
    then show ?thesis
      using D(4) [of l] by (simp add: races_def split: if_splits)
  qed
  then have "views_step a b n i r s w = w"
    using D(1) pc by (auto simp: views_step_def Let_def list_ex_iff)
  moreover have "views_inv n (helper_step i r cur s) w"
    using V pc unfolding views_inv_def by (auto simp: helper_step_def)
  ultimately show ?thesis
    by simp
qed

lemma views_inv_step:
  assumes W: "wa_inv n out h s" and V: "views_inv n s w"
  shows "views_inv n (helper_step i r cur s) (views_step True True n i r s w)"
proof (cases "wa_pc s i")
  case InTask
  show ?thesis
  proof (cases "r = Threw")
    case True
    then show ?thesis
      using V InTask unfolding views_inv_def by (simp add: helper_step_def views_step_def Let_def)
  next
    case False
    then show ?thesis
      by (rule views_inv_store [OF V InTask])
  qed
next
  case Stored
  then show ?thesis
    by (rule views_inv_sub [OF W V])
next
  case (Decided old)
  then show ?thesis
    by (rule views_inv_wake [OF W V])
qed (use V in \<open>simp_all add: helper_step_def views_step_def Let_def\<close>)

lemma wa_weak_inv:
  assumes "wa_weak_reach True True n out h z" and "0 < n" and "n < 2 ^ 64" and "h \<noteq> nullptr"
  shows "views_inv n (fst z) (snd z)"
  using assms(1)
proof induction
  case (ww_init d)
  then show ?case
    by (simp add: views_inv_init)
next
  case (ww_next z)
  then show ?case
    using views_inv_next [OF wa_reach_inv [OF wa_weak_projects [OF ww_next.hyps(1)] assms(2-4)]] by (cases z) simp
next
  case (ww_run z i cur)
  then show ?case
    using views_inv_step [OF wa_reach_inv [OF wa_weak_projects [OF ww_run.hyps(1)] assms(2-4)]]
    by (cases z) (simp add: weak_helper_step_def)
next
  case (ww_learn z i j)
  then show ?case
    using views_inv_learn by (cases z) simp
qed

section \<open>What \<open>when_all\<close> promises\<close>

text \<open>
  C17: However the helpers interleave and whatever threads they run on, the awaiting coroutine is woken
  at most once, and not before all results are in place: \<open>await_resume\<close> then returns the values of
  the tasks in their order, 0 for a task without a value. This holds on a memory with release and acquire:
  the orders of \<open>fetch_sub\<close> let the coroutine see all results, and no write or read of a result races.
\<close>

theorem when_all_publishes:
  assumes "wa_weak_reach True True n out h z" and "0 < n" and "n < 2 ^ 64" and "h \<noteq> nullptr"
  shows "\<not> wv_race (snd z) \<and> length (wa_woken (fst z)) \<le> 1
    \<and> (wa_woken (fst z) \<noteq> [] \<longrightarrow> wa_await_resume n (fst z) = map (\<lambda>i. result_slot (out i)) [0..<n])"
  using views_invD(1) [OF wa_weak_inv [OF assms]] when_all_results_in_place [OF wa_weak_projects [OF assms(1)] assms(2-4)]
  by blast

text \<open>Two tasks on two threads; the first helper counts down last.\<close>

definition weak_sample :: "bool \<Rightarrow> bool \<Rightarrow> nat weak_when_all" where
  "weak_sample a r =
     (let z = weak_start_next 2 (weak_start_next 2 (wa_suspend 2 (\<lambda>_. VoidSlot 0) 100, views_init 2));
          z = weak_helper_step a r 2 1 (sample_out 1) 8 (weak_helper_step a r 2 0 (sample_out 0) 16 z);
          z = weak_helper_step a r 2 0 (sample_out 0) 16 (weak_helper_step a r 2 1 (sample_out 1) 8 z)
      in weak_helper_step a r 2 0 (sample_out 0) 16 (weak_helper_step a r 2 1 (sample_out 1) 8 z))"

lemma weak_sample_reach: "wa_weak_reach a r 2 sample_out 100 (weak_sample a r)"
proof -
  have "\<not> wa_terminated (fst (weak_start_next 2 z))" if "\<not> wa_terminated (fst z)" for z :: "nat weak_when_all"
    using that by (cases z) (simp add: weak_start_next_def wa_start_next_def)
  moreover have "\<not> wa_terminated (fst (weak_helper_step a r 2 i (sample_out i) cur z))" if "\<not> wa_terminated (fst z)"
    for z :: "nat weak_when_all" and i cur
    using that by (cases z) (auto simp: weak_helper_step_def helper_step_def sample_out_def split: helper_pc.splits)
  moreover have "\<not> wa_terminated (wa_suspend 2 (\<lambda>_. VoidSlot 0) 100 :: nat when_all)"
    by (simp add: wa_suspend_def wa_make_def)
  ultimately show ?thesis
    unfolding weak_sample_def Let_def by (intro ww_run ww_next ww_init) simp_all
qed

theorem when_all_publishes_witness:
  "\<not> wv_race (snd (weak_sample True True)) \<and> wa_await_resume 2 (fst (weak_sample True True)) = [Slot 5, VoidSlot 0]"
proof -
  have "wa_woken (fst (weak_sample True True)) = [OnScheduler 16 100]"
    by code_simp
  then show ?thesis
    using when_all_publishes [OF weak_sample_reach] by (simp add: sample_out_def result_slot_def upt_rec)
qed

text \<open>Without acquire or without release the coroutine reads a result it need not have seen.\<close>

lemma when_all_orders_needed:
  assumes "\<not> (a \<and> r)"
  shows "\<exists>z. wa_weak_reach a r 2 sample_out 100 z \<and> wv_race (snd z)"
proof -
  have "wv_race (snd (weak_sample False True))" "wv_race (snd (weak_sample True False))" "wv_race (snd (weak_sample False False))"
    by code_simp+
  then have "wv_race (snd (weak_sample a r))"
    using assms by (cases a; cases r) simp_all
  then show ?thesis
    using weak_sample_reach by blast
qed

end
