(* ===== verification/Serializer.thy ===== *)
theory Serializer
  imports Novaio_Prelude
begin

text \<open>
  \<open>include/novaio/serializer.hpp\<close>: \<open>serialize\<close> appends the object representation of arithmetic values,
  length-prefixed strings, and the fields of an object's \<open>tie()\<close> in order. The compile-time choice by
  type is a case distinction on the value here. The target is little-endian with a 64-bit \<open>size_t\<close>.
  There is no decoder in the repository; the one below is the reference against which a reader of
  the format is specified.
\<close>

section \<open>Serializing\<close>

type_synonym byte = "8 word"

text \<open>An arithmetic value is its size in bytes and its representation as a number.\<close>

datatype ser_value =
    Arith nat nat
  | Str "byte list"
  | Fields "ser_value list"

fun le_bytes :: "nat \<Rightarrow> nat \<Rightarrow> byte list" where
  "le_bytes 0 v = []"
| "le_bytes (Suc n) v = of_nat v # le_bytes n (v div 256)"

definition append_bytes :: "nat \<Rightarrow> nat \<Rightarrow> byte list \<Rightarrow> byte list" where
  "append_bytes n v buffer = buffer @ le_bytes n v"

fun serialize :: "ser_value \<Rightarrow> byte list \<Rightarrow> byte list" where
  "serialize (Arith n v) buffer = append_bytes n v buffer"
| "serialize (Str s) buffer = append_bytes 8 (length s) buffer @ s"
| "serialize (Fields vs) buffer = fold serialize vs buffer"

section \<open>Types and the reference decoder\<close>

datatype ser_type =
    ArithT nat
  | StrT
  | FieldsT "ser_type list"

fun le_value :: "byte list \<Rightarrow> nat" where
  "le_value [] = 0"
| "le_value (b # bs) = unat b + 256 * le_value bs"

definition take_bytes :: "nat \<Rightarrow> byte list \<Rightarrow> (byte list \<times> byte list) option" where
  "take_bytes n bs = (if n \<le> length bs then Some (take n bs, drop n bs) else None)"

fun decode :: "ser_type \<Rightarrow> byte list \<Rightarrow> (ser_value \<times> byte list) option"
  and decode_fields :: "ser_type list \<Rightarrow> byte list \<Rightarrow> (ser_value list \<times> byte list) option" where
  "decode (ArithT n) bs =
     (case take_bytes n bs of None \<Rightarrow> None | Some (b, r) \<Rightarrow> Some (Arith n (le_value b), r))"
| "decode StrT bs =
     (case take_bytes 8 bs of None \<Rightarrow> None | Some (b, r) \<Rightarrow>
      case take_bytes (le_value b) r of None \<Rightarrow> None | Some (s, r1) \<Rightarrow> Some (Str s, r1))"
| "decode (FieldsT ts) bs =
     (case decode_fields ts bs of None \<Rightarrow> None | Some (vs, r) \<Rightarrow> Some (Fields vs, r))"
| "decode_fields [] bs = Some ([], bs)"
| "decode_fields (t # ts) bs =
     (case decode t bs of None \<Rightarrow> None | Some (v, r) \<Rightarrow>
      case decode_fields ts r of None \<Rightarrow> None | Some (vs, r1) \<Rightarrow> Some (v # vs, r1))"

text \<open>The values of a type that C++ can hold.\<close>

fun has_type :: "ser_type \<Rightarrow> ser_value \<Rightarrow> bool"
  and have_types :: "ser_type list \<Rightarrow> ser_value list \<Rightarrow> bool" where
  "has_type (ArithT n) v \<longleftrightarrow> (case v of Arith m x \<Rightarrow> m = n \<and> x < 256 ^ n | _ \<Rightarrow> False)"
| "has_type StrT v \<longleftrightarrow> (case v of Str s \<Rightarrow> length s < 2 ^ 64 | _ \<Rightarrow> False)"
| "has_type (FieldsT ts) v \<longleftrightarrow> (case v of Fields vs \<Rightarrow> have_types ts vs | _ \<Rightarrow> False)"
| "have_types [] vs \<longleftrightarrow> vs = []"
| "have_types (t # ts) vs \<longleftrightarrow> (case vs of [] \<Rightarrow> False | v # vs1 \<Rightarrow> has_type t v \<and> have_types ts vs1)"

fun wire_size :: "ser_value \<Rightarrow> nat" where
  "wire_size (Arith n v) = n"
| "wire_size (Str s) = 8 + length s"
| "wire_size (Fields vs) = sum_list (map wire_size vs)"

section \<open>Round trip\<close>

lemma length_le_bytes [simp]: "length (le_bytes n v) = n"
  by (induction n arbitrary: v) simp_all

lemma le_value_bytes: "v < 256 ^ n \<Longrightarrow> le_value (le_bytes n v) = v"
proof (induction n arbitrary: v)
  case (Suc n)
  then have "v div 256 < 256 ^ n"
    by (simp add: less_mult_imp_div_less mult.commute)
  then show ?case
    using Suc.IH by (simp add: unat_of_nat)
qed simp

text \<open>Whatever is in the buffer stays, and what is appended depends on the value only.\<close>

lemma serialize_appends: "serialize v buffer = buffer @ serialize v []"
proof (induction v arbitrary: buffer)
  case (Fields vs)
  have "fold serialize vs (b @ c) = b @ fold serialize vs c" if "set vs \<subseteq> set ws" "\<And>v b. v \<in> set ws \<Longrightarrow> serialize v b = b @ serialize v []"
    for b c vs ws
    using that
  proof (induction vs arbitrary: c)
    case (Cons v vs)
    then have v: "serialize v x = x @ serialize v []" for x
      by (metis insert_subset list.simps(15))
    have "serialize v (b @ c) = b @ serialize v c"
      using v [of "b @ c"] v [of c] by simp
    moreover have "fold serialize vs (b @ serialize v c) = b @ fold serialize vs (serialize v c)"
      by (rule Cons.IH) (use Cons.prems(1) in simp, rule Cons.prems(2))
    ultimately show ?case
      by simp
  qed simp
  from this [OF subset_refl Fields, where b = buffer and c = "[]"] show ?case
    by simp
qed (simp_all add: append_bytes_def)

lemma serialize_fields: "serialize (Fields (v # vs)) [] = serialize v [] @ serialize (Fields vs) []"
  using serialize_appends [of "Fields vs" "serialize v []"] by simp

lemma decode_serialize:
  "has_type t v \<Longrightarrow> decode t (serialize v [] @ r) = Some (v, r)"
  "have_types ts vs \<Longrightarrow> decode_fields ts (serialize (Fields vs) [] @ r) = Some (vs, r)"
proof (induction t v and ts vs arbitrary: r and r rule: has_type_have_types.induct)
  case (1 n v)
  then show ?case
    by (auto simp: append_bytes_def take_bytes_def le_value_bytes split: ser_value.splits)
next
  case (2 v)
  then show ?case
    by (auto simp: append_bytes_def take_bytes_def le_value_bytes split: ser_value.splits)
next
  case (3 ts v)
  then show ?case
    by (auto simp del: serialize.simps split: ser_value.splits)
next
  case (4 vs)
  then show ?case
    by simp
next
  case (5 t ts vs)
  then show ?case
    by (auto simp del: serialize.simps simp: serialize_fields split: list.splits)
qed

lemma length_serialize: "length (serialize v []) = wire_size v"
proof (induction v)
  case (Fields vs)
  then show ?case
  proof (induction vs)
    case (Cons v vs)
    then show ?case
      by (simp del: serialize.simps add: serialize_fields)
  qed simp
qed (simp_all add: append_bytes_def)

text \<open>
  C33: Serializing appends to the buffer, the number of bytes is the sum of the parts' sizes with 8 more
  per string, and the bytes say what was serialized: the reference decoder for the type gives the
  value back and leaves whatever follows.
\<close>

theorem serialize_roundtrip:
  assumes "has_type t v"
  shows "\<exists>bs. serialize v buffer = buffer @ bs \<and> length bs = wire_size v \<and> decode t (bs @ rest) = Some (v, rest)"
  using serialize_appends [of v buffer] length_serialize [of v] decode_serialize(1) [OF assms, of rest] by blast

text \<open>The record of the serializer test: an \<open>int\<close>, the string \<open>novaio\<close>, and the \<open>double\<close> 3.14.\<close>

definition sample_record :: ser_value where
  "sample_record = Fields [Arith 4 42, Str [110, 111, 118, 97, 105, 111], Arith 8 4614253070214989087]"

theorem serialize_roundtrip_witness:
  "\<exists>bs. serialize sample_record [] = bs \<and> length bs = 26 \<and>
     decode (FieldsT [ArithT 4, StrT, ArithT 8]) bs = Some (sample_record, [])"
proof -
  have "has_type (FieldsT [ArithT 4, StrT, ArithT 8]) sample_record"
    by (simp add: sample_record_def)
  moreover have "wire_size sample_record = 26"
    by (simp add: sample_record_def)
  ultimately show ?thesis
    using serialize_roundtrip [of "FieldsT [ArithT 4, StrT, ArithT 8]" sample_record "[]" "[]"] by simp
qed

end
