(* ===== verification/Io_Buffer.thy ===== *)
theory Io_Buffer
  imports Io_Engine
begin

text \<open>
  \<open>IoBuffer\<close> of \<open>include/novaio/io_buffer.hpp\<close>: a move-only owner of a received block, which gives the
  block's id back to the engine of its scheduler. A program holds any number of variables of this
  type; the calls of \<open>return_buffer\<close> they cause are recorded in order.
\<close>

section \<open>The buffer and its operations\<close>

record io_buffer =
  ib_id :: u16
  ib_data :: addr
  ib_sched :: addr

definition ib_empty :: io_buffer where
  "ib_empty = \<lparr> ib_id = 0, ib_data = nullptr, ib_sched = nullptr \<rparr>"

definition ib_make :: "u16 \<Rightarrow> addr \<Rightarrow> addr \<Rightarrow> io_buffer" where
  "ib_make i data sched = \<lparr> ib_id = i, ib_data = data, ib_sched = sched \<rparr>"

definition ib_bool :: "io_buffer \<Rightarrow> bool" where
  "ib_bool b \<longleftrightarrow> ib_data b \<noteq> nullptr"

definition ib_size :: "io_buffer \<Rightarrow> u32" where
  "ib_size b = BUF_BLOCK_SIZE"

type_synonym returned = "(addr \<times> u16) list"

definition ib_release :: "io_buffer \<Rightarrow> returned \<Rightarrow> io_buffer \<times> returned" where
  "ib_release b log =
     (if ib_data b \<noteq> nullptr \<and> ib_sched b \<noteq> nullptr
      then (b\<lparr> ib_data := nullptr \<rparr>, log @ [(ib_sched b, ib_id b)]) else (b, log))"

text \<open>The move constructor: the new buffer and what it leaves of the old one.\<close>

definition ib_move :: "io_buffer \<Rightarrow> io_buffer \<times> io_buffer" where
  "ib_move other = (other, other\<lparr> ib_data := nullptr \<rparr>)"

text \<open>Move assignment between two different variables: target, source and the log after it.\<close>

definition ib_assign :: "io_buffer \<Rightarrow> io_buffer \<Rightarrow> returned \<Rightarrow> io_buffer \<times> io_buffer \<times> returned" where
  "ib_assign b other log =
     (let (b1, log1) = ib_release b log
      in (b1\<lparr> ib_id := ib_id other, ib_data := ib_data other, ib_sched := ib_sched other \<rparr>,
          other\<lparr> ib_data := nullptr \<rparr>, log1))"

section \<open>Programs over buffers\<close>

record buffer_sys =
  bs_vars :: "nat \<Rightarrow> io_buffer option"
  bs_returned :: returned
  bs_received :: returned     \<comment> \<open>blocks wrapped so far that have data and a scheduler\<close>

definition bs_start :: buffer_sys where
  "bs_start = \<lparr> bs_vars = (\<lambda>_. None), bs_returned = [], bs_received = [] \<rparr>"

definition token :: "io_buffer \<Rightarrow> (addr \<times> u16) option" where
  "token b = (if ib_data b \<noteq> nullptr \<and> ib_sched b \<noteq> nullptr then Some (ib_sched b, ib_id b) else None)"

definition buf_default :: "nat \<Rightarrow> buffer_sys \<Rightarrow> buffer_sys" where
  "buf_default v s = s\<lparr> bs_vars := (bs_vars s)(v \<mapsto> ib_empty) \<rparr>"

definition buf_make :: "nat \<Rightarrow> u16 \<Rightarrow> addr \<Rightarrow> addr \<Rightarrow> buffer_sys \<Rightarrow> buffer_sys" where
  "buf_make v i data sched s =
     (let b = ib_make i data sched
      in s\<lparr> bs_vars := (bs_vars s)(v \<mapsto> b),
            bs_received := bs_received s @ (case token b of None \<Rightarrow> [] | Some t \<Rightarrow> [t]) \<rparr>)"

definition buf_move :: "nat \<Rightarrow> nat \<Rightarrow> buffer_sys \<Rightarrow> buffer_sys" where
  "buf_move v other s =
     (let (b, o1) = ib_move (the (bs_vars s other)) in s\<lparr> bs_vars := (bs_vars s)(v \<mapsto> b, other \<mapsto> o1) \<rparr>)"

definition buf_assign :: "nat \<Rightarrow> nat \<Rightarrow> buffer_sys \<Rightarrow> buffer_sys" where
  "buf_assign v other s =
     (if v \<noteq> other
      then (let (b, o1, log) = ib_assign (the (bs_vars s v)) (the (bs_vars s other)) (bs_returned s)
            in s\<lparr> bs_vars := (bs_vars s)(v \<mapsto> b, other \<mapsto> o1), bs_returned := log \<rparr>)
      else s)"

definition buf_destroy :: "nat \<Rightarrow> buffer_sys \<Rightarrow> buffer_sys" where
  "buf_destroy v s =
     s\<lparr> bs_vars := (bs_vars s)(v := None), bs_returned := snd (ib_release (the (bs_vars s v)) (bs_returned s)) \<rparr>"

inductive buf_reach :: "buffer_sys \<Rightarrow> bool" where
  buf_init: "buf_reach bs_start"
| buf_default: "buf_reach s \<Longrightarrow> bs_vars s v = None \<Longrightarrow> buf_reach (buf_default v s)"
| buf_make: "buf_reach s \<Longrightarrow> bs_vars s v = None \<Longrightarrow> buf_reach (buf_make v i data sched s)"
| buf_move: "buf_reach s \<Longrightarrow> bs_vars s v = None \<Longrightarrow> bs_vars s other \<noteq> None \<Longrightarrow> buf_reach (buf_move v other s)"
| buf_assign: "buf_reach s \<Longrightarrow> bs_vars s v \<noteq> None \<Longrightarrow> bs_vars s other \<noteq> None \<Longrightarrow> buf_reach (buf_assign v other s)"
| buf_destroy: "buf_reach s \<Longrightarrow> bs_vars s v \<noteq> None \<Longrightarrow> buf_reach (buf_destroy v s)"

section \<open>Blocks held by variables\<close>

definition held :: "buffer_sys \<Rightarrow> nat \<Rightarrow> (addr \<times> u16) option" where
  "held s v = (case bs_vars s v of None \<Rightarrow> None | Some b \<Rightarrow> token b)"

definition buf_inv :: "buffer_sys \<Rightarrow> bool" where
  "buf_inv s \<longleftrightarrow> finite (dom (held s)) \<and> mset (bs_received s) = mset (bs_returned s) + values_of (held s)"

lemma token_simps [simp]:
  "token ib_empty = None" "token (b\<lparr> ib_data := nullptr \<rparr>) = None"
  "token (b\<lparr> ib_id := ib_id c, ib_data := ib_data c, ib_sched := ib_sched c \<rparr>) = token c"
  by (simp_all add: token_def ib_empty_def)

lemma release_log: "mset (snd (ib_release b log)) = mset log + (case token b of None \<Rightarrow> {#} | Some r \<Rightarrow> {# r #})"
  by (simp add: ib_release_def token_def)

lemma buf_reach_inv: "buf_reach s \<Longrightarrow> buf_inv s"
proof (induction rule: buf_reach.induct)
  case buf_init
  then show ?case
    by (simp add: buf_inv_def bs_start_def held_def [abs_def] values_of_def)
next
  case (buf_default s v)
  then have "held (buf_default v s) = held s"
    by (intro ext) (simp add: held_def buf_default_def)
  then show ?case
    using buf_default by (simp add: buf_inv_def buf_default_def)
next
  case (buf_make s v i data sched)
  let ?b = "ib_make i data sched"
  have "held (buf_make v i data sched s) = (held s)(v := token ?b)"
    by (rule ext) (simp add: held_def buf_make_def Let_def)
  moreover have "held s v = None"
    using buf_make by (simp add: held_def)
  ultimately show ?case
    using buf_make finite_dom_upd [of "held s" v "token ?b"] values_of_none [of "held s" v "token ?b"]
    by (auto simp: buf_inv_def buf_make_def split: option.splits)
next
  case (buf_move s v other)
  obtain b where b: "bs_vars s other = Some b"
    using buf_move by blast
  have ne: "v \<noteq> other" and hv: "held s v = None" and ho: "held s other = token b"
    using buf_move b by (auto simp: held_def)
  have h: "held (buf_move v other s) = ((held s)(other := None))(v := token b)"
    using b ne by (intro ext) (simp add: held_def buf_move_def ib_move_def)
  have "values_of (held (buf_move v other s)) = values_of (held s)"
    unfolding h using buf_move.IH hv ho values_of_remove [of "held s" other] ne
    by (subst values_of_none) (auto simp: buf_inv_def finite_dom_upd)
  then show ?case
    using buf_move.IH h finite_dom_upd by (auto simp: buf_inv_def buf_move_def ib_move_def split_beta)
next
  case (buf_assign s v other)
  show ?case
  proof (cases "v = other")
    case False
    obtain b c where b: "bs_vars s v = Some b" and c: "bs_vars s other = Some c"
      using buf_assign by blast
    have hv: "held s v = token b" and ho: "held s other = token c"
      using b c by (auto simp: held_def)
    let ?m = "((held s)(v := None))(other := None)"
    have h: "held (buf_assign v other s) = ?m(v := token c)"
      using b c False
      by (intro ext) (simp add: held_def buf_assign_def ib_assign_def ib_release_def Let_def split_beta)
    have fin: "finite (dom (held s))"
      using buf_assign.IH by (simp add: buf_inv_def)
    have "values_of (?m(v := token c)) = (case token c of None \<Rightarrow> {#} | Some r \<Rightarrow> {# r #}) + values_of ?m"
      using fin by (intro values_of_none) (auto intro!: finite_dom_upd)
    also have "\<dots> = values_of ((held s)(v := None))"
      using values_of_remove [OF finite_dom_upd [OF fin, of v None], of other] ho False by simp
    finally have "values_of (held (buf_assign v other s)) = values_of ((held s)(v := None))"
      unfolding h .
    moreover have "mset (bs_returned (buf_assign v other s)) = mset (bs_returned s) + (case token b of None \<Rightarrow> {#} | Some r \<Rightarrow> {# r #})"
      using b c False release_log [of b "bs_returned s"]
      by (simp add: buf_assign_def ib_assign_def Let_def split_beta)
    moreover have "bs_received (buf_assign v other s) = bs_received s"
      by (simp add: buf_assign_def Let_def split_beta)
    ultimately show ?thesis
      using buf_assign.IH values_of_remove [OF fin, of v] hv fin h
      by (simp add: buf_inv_def finite_dom_upd del: fun_upd_apply)
  qed (use buf_assign in \<open>simp add: buf_assign_def\<close>)
next
  case (buf_destroy s v)
  obtain b where b: "bs_vars s v = Some b"
    using buf_destroy by blast
  have h: "held (buf_destroy v s) = (held s)(v := None)"
    by (intro ext) (simp add: held_def buf_destroy_def)
  have fin: "finite (dom (held s))" and hv: "held s v = token b"
    using buf_destroy.IH b by (auto simp: buf_inv_def held_def)
  show ?case
    using buf_destroy.IH values_of_remove [OF fin, of v] hv fin h b release_log [of b "bs_returned s"]
    by (simp add: buf_inv_def finite_dom_upd buf_destroy_def)
qed

text \<open>
  C34: Whatever a program does with its buffers, no received block is given back to its engine more often
  than it was received, and when no buffer is left every block has been given back exactly once.
\<close>

theorem io_buffer_returned_once:
  assumes "buf_reach s"
  shows "mset (bs_returned s) \<subseteq># mset (bs_received s) \<and>
    ((\<forall>v. bs_vars s v = None) \<longrightarrow> mset (bs_returned s) = mset (bs_received s))"
proof -
  have inv: "mset (bs_received s) = mset (bs_returned s) + values_of (held s)"
    using buf_reach_inv [OF assms] by (simp add: buf_inv_def)
  have "values_of (held s) = {#}" if "\<forall>v. bs_vars s v = None"
    using that by (simp add: values_of_def held_def [abs_def])
  then show ?thesis
    using inv by auto
qed

definition sample_buffers :: buffer_sys where
  "sample_buffers = buf_destroy 1 (buf_destroy 0 (buf_assign 0 1 (buf_move 1 2 (buf_make 2 7 4096 64 (buf_make 0 5 2048 64 bs_start)))))"

theorem io_buffer_returned_once_witness:
  "mset (bs_returned (buf_destroy 2 sample_buffers)) = {# (64, 5), (64, 7) #}"
proof -
  have "buf_reach (buf_destroy 2 sample_buffers)"
    unfolding sample_buffers_def
    by (intro buf_reach.intros)
      (simp_all add: bs_start_def buf_make_def buf_move_def buf_assign_def buf_destroy_def ib_move_def ib_assign_def
        ib_make_def split_beta Let_def)
  moreover have "\<forall>v. bs_vars (buf_destroy 2 sample_buffers) v = None"
    by (simp add: sample_buffers_def bs_start_def buf_make_def buf_move_def buf_assign_def buf_destroy_def ib_move_def
        ib_assign_def ib_make_def split_beta Let_def)
  moreover have "bs_received (buf_destroy 2 sample_buffers) = [(64, 5), (64, 7)]"
    by (simp add: sample_buffers_def bs_start_def buf_make_def buf_move_def buf_assign_def buf_destroy_def ib_move_def
        ib_assign_def ib_make_def token_def split_beta Let_def)
  ultimately show ?thesis
    using io_buffer_returned_once [of "buf_destroy 2 sample_buffers"] by simp
qed

end
