(* ===== verification/Time_Wheel.thy ===== *)
theory Time_Wheel
  imports Novaio_Prelude
begin

text \<open>
  \<open>include/novaio/time_wheel.hpp\<close> and \<open>src/time_wheel.cpp\<close>: the five-level timer wheel with its
  intrusive, doubly linked buckets. A \<open>TimerNode*\<close> is an address; the nodes live in the frames of
  the sleeping coroutines, which the record's \<open>nodes\<close> field stands for. A \<open>TimerNode**\<close> always
  points at an element of one of the five arrays, so it is a slot name. The loops over the chains
  are \<open>partial_function\<close>s: \<open>None\<close> is a loop that does not end.
\<close>

section \<open>Constants and data\<close>

definition TVR_BITS :: nat where "TVR_BITS = 8"
definition TVN_BITS :: nat where "TVN_BITS = 6"
definition TVR_SIZE :: nat where "TVR_SIZE = 2 ^ TVR_BITS"
definition TVN_SIZE :: nat where "TVN_SIZE = 2 ^ TVN_BITS"
definition TVR_MASK :: u64 where "TVR_MASK = of_nat (TVR_SIZE - 1)"
definition TVN_MASK :: u64 where "TVN_MASK = of_nat (TVN_SIZE - 1)"

lemmas tv_consts = TVR_BITS_def TVN_BITS_def TVR_SIZE_def TVN_SIZE_def TVR_MASK_def TVN_MASK_def

datatype tv_slot = TV1 nat | TV2 nat | TV3 nat | TV4 nat | TV5 nat

type_synonym timer_ptr = addr

record timer_node =
  expires_at :: u64
  t_handle :: handle
  t_next :: timer_ptr
  t_prev :: timer_ptr
  t_head_ptr :: "tv_slot option"

record time_wheel =
  tv :: "tv_slot \<Rightarrow> timer_ptr"
  current_tick :: u64
  active_timers :: u64
  nodes :: "timer_ptr \<Rightarrow> timer_node"

definition wheel_init :: "(timer_ptr \<Rightarrow> timer_node) \<Rightarrow> time_wheel" where
  "wheel_init ns = \<lparr> tv = (\<lambda>_. nullptr), current_tick = 0, active_timers = 0, nodes = ns \<rparr>"

definition upd_node :: "timer_ptr \<Rightarrow> (timer_node \<Rightarrow> timer_node) \<Rightarrow> time_wheel \<Rightarrow> time_wheel" where
  "upd_node p f w = w\<lparr> nodes := (nodes w)(p := f (nodes w p)) \<rparr>"

definition set_head :: "tv_slot \<Rightarrow> timer_ptr \<Rightarrow> time_wheel \<Rightarrow> time_wheel" where
  "set_head s p w = w\<lparr> tv := (tv w)(s := p) \<rparr>"

section \<open>add_timer and remove_timer\<close>

text \<open>The bucket of a timer, from the distance to the current tick and the expiry's bits.\<close>

definition slot_for :: "u64 \<Rightarrow> u64 \<Rightarrow> tv_slot" where
  "slot_for tick expires =
     (let idx = expires - tick in
      if idx < of_nat TVR_SIZE then TV1 (unat (expires AND TVR_MASK))
      else if idx < push_bit (TVR_BITS + TVN_BITS) 1
        then TV2 (unat (drop_bit TVR_BITS expires AND TVN_MASK))
      else if idx < push_bit (TVR_BITS + 2 * TVN_BITS) 1
        then TV3 (unat (drop_bit (TVR_BITS + TVN_BITS) expires AND TVN_MASK))
      else if idx < push_bit (TVR_BITS + 3 * TVN_BITS) 1
        then TV4 (unat (drop_bit (TVR_BITS + 2 * TVN_BITS) expires AND TVN_MASK))
      else TV5 (unat (drop_bit (TVR_BITS + 3 * TVN_BITS) expires AND TVN_MASK)))"

definition add_timer :: "timer_ptr \<Rightarrow> time_wheel \<Rightarrow> time_wheel" where
  "add_timer node w0 =
     (let w = w0\<lparr> active_timers := active_timers w0 + 1 \<rparr>;
          head = slot_for (current_tick w) (expires_at (nodes w node));
          w1 = upd_node node (\<lambda>n. n\<lparr> t_next := tv w head \<rparr>) w;
          w2 = (if tv w1 head \<noteq> nullptr
                then upd_node (tv w1 head) (\<lambda>n. n\<lparr> t_prev := node \<rparr>) w1 else w1);
          w3 = upd_node node (\<lambda>n. n\<lparr> t_prev := nullptr \<rparr>) w2;
          w4 = upd_node node (\<lambda>n. n\<lparr> t_head_ptr := Some head \<rparr>) w3
      in set_head head node w4)"

definition remove_timer :: "timer_ptr \<Rightarrow> time_wheel \<Rightarrow> time_wheel" where
  "remove_timer node w0 =
     (let w = (if t_head_ptr (nodes w0 node) \<noteq> None
               then w0\<lparr> active_timers := active_timers w0 - 1 \<rparr> else w0);
          w1 = (if t_prev (nodes w node) \<noteq> nullptr
                then upd_node (t_prev (nodes w node))
                       (\<lambda>n. n\<lparr> t_next := t_next (nodes w node) \<rparr>) w
                else (case t_head_ptr (nodes w node) of
                        None \<Rightarrow> w
                      | Some s \<Rightarrow> if tv w s = node then set_head s (t_next (nodes w node)) w
                                 else w));
          w2 = (if t_next (nodes w1 node) \<noteq> nullptr
                then upd_node (t_next (nodes w1 node))
                       (\<lambda>n. n\<lparr> t_prev := t_prev (nodes w1 node) \<rparr>) w1
                else w1)
      in upd_node node (\<lambda>n. n\<lparr> t_head_ptr := None, t_prev := nullptr, t_next := nullptr \<rparr>) w2)"

section \<open>cascade and tick\<close>

partial_function (option) cascade_loop :: "timer_ptr \<Rightarrow> time_wheel \<Rightarrow> time_wheel option" where
  "cascade_loop cur w =
     (if cur = nullptr then Some w
      else cascade_loop (t_next (nodes w cur)) (add_timer cur w))"

definition cascade :: "tv_slot \<Rightarrow> time_wheel \<Rightarrow> time_wheel option" where
  "cascade s w = cascade_loop (tv w s) (set_head s nullptr w)"

text \<open>The nested cascades at the start of a tick, taken when the lower indices are all zero.\<close>

definition tick_cascades :: "time_wheel \<Rightarrow> time_wheel option" where
  "tick_cascades w =
     (let now = current_tick w; index = now AND TVR_MASK in
      if index = 0 \<and> now > 0 then
        (let i2 = drop_bit TVR_BITS now AND TVN_MASK in
         case cascade (TV2 (unat i2)) w of None \<Rightarrow> None | Some w2 \<Rightarrow>
         if i2 = 0 then
           (let i3 = drop_bit (TVR_BITS + TVN_BITS) now AND TVN_MASK in
            case cascade (TV3 (unat i3)) w2 of None \<Rightarrow> None | Some w3 \<Rightarrow>
            if i3 = 0 then
              (let i4 = drop_bit (TVR_BITS + 2 * TVN_BITS) now AND TVN_MASK in
               case cascade (TV4 (unat i4)) w3 of None \<Rightarrow> None | Some w4 \<Rightarrow>
               if i4 = 0 then
                 (let i5 = drop_bit (TVR_BITS + 3 * TVN_BITS) now AND TVN_MASK in
                  cascade (TV5 (unat i5)) w4)
               else Some w4)
            else Some w3)
         else Some w2)
      else Some w)"

text \<open>
  Firing a bucket: every handle is passed to the current scheduler's \<open>schedule\<close>, if the calling
  thread has one. The result carries the scheduled handles in order.
\<close>

partial_function (option) fire_loop ::
    "bool \<Rightarrow> timer_ptr \<Rightarrow> time_wheel \<Rightarrow> handle list \<Rightarrow> (time_wheel \<times> handle list) option" where
  "fire_loop has_sched cur w out =
     (if cur = nullptr then Some (w, out)
      else fire_loop has_sched (t_next (nodes w cur))
             (upd_node cur (\<lambda>n. n\<lparr> t_head_ptr := None \<rparr>) w)
             (if has_sched then out @ [t_handle (nodes w cur)] else out))"

definition tick_one :: "bool \<Rightarrow> time_wheel \<Rightarrow> handle list \<Rightarrow> (time_wheel \<times> handle list) option" where
  "tick_one has_sched w out =
     (case tick_cascades w of None \<Rightarrow> None | Some w1 \<Rightarrow>
      (let index = unat (current_tick w AND TVR_MASK) in
       case fire_loop has_sched (tv w1 (TV1 index)) (set_head (TV1 index) nullptr w1) out of
         None \<Rightarrow> None
       | Some (w2, out2) \<Rightarrow> Some (w2\<lparr> current_tick := current_tick w2 + 1 \<rparr>, out2)))"

partial_function (option) tick_loop ::
    "bool \<Rightarrow> u64 \<Rightarrow> time_wheel \<Rightarrow> handle list \<Rightarrow> (time_wheel \<times> handle list) option" where
  "tick_loop has_sched current_time w out =
     (if current_tick w < current_time
      then (case tick_one has_sched w out of None \<Rightarrow> None
            | Some (w', out') \<Rightarrow> tick_loop has_sched current_time w' out')
      else Some (w, out))"

definition tick :: "bool \<Rightarrow> u64 \<Rightarrow> time_wheel \<Rightarrow> (time_wheel \<times> handle list) option" where
  "tick has_sched current_time w = tick_loop has_sched current_time w []"

declare cascade_loop.simps [code] fire_loop.simps [code] tick_loop.simps [code]

section \<open>next_timeout and sleeping\<close>

text \<open>The scan of the first level, from offset \<open>i\<close>, with \<open>n\<close> slots left to look at.\<close>

fun next_timeout_scan :: "time_wheel \<Rightarrow> u64 \<Rightarrow> nat \<Rightarrow> nat \<Rightarrow> u64" where
  "next_timeout_scan w current_time i 0 = 50"
| "next_timeout_scan w current_time i (Suc n) =
     (let index = unat ((current_tick w + of_nat i) AND TVR_MASK) in
      if tv w (TV1 index) \<noteq> nullptr
      then (let expires = expires_at (nodes w (tv w (TV1 index))) in
            if expires > current_time then expires - current_time else 0)
      else next_timeout_scan w current_time (Suc i) n)"

definition next_timeout :: "u64 \<Rightarrow> time_wheel \<Rightarrow> u64" where
  "next_timeout current_time w =
     (if active_timers w = 0 then -1 else next_timeout_scan w current_time 0 TVR_SIZE)"

text \<open>\<open>SleepAwaiter\<close>: a zero sleep does not suspend; otherwise the embedded node is filled in and
  added to the wheel of the current scheduler, whose clock reads \<open>now\<close>.\<close>

definition sleep_await_ready :: "u64 \<Rightarrow> bool" where
  "sleep_await_ready ms \<longleftrightarrow> ms = 0"

definition sleep_await_suspend ::
    "bool \<Rightarrow> u64 \<Rightarrow> u64 \<Rightarrow> handle \<Rightarrow> timer_ptr \<Rightarrow> time_wheel \<Rightarrow> time_wheel" where
  "sleep_await_suspend has_sched now ms h node w =
     (if has_sched
      then add_timer node (upd_node node (\<lambda>n. n\<lparr> expires_at := now + ms, t_handle := h \<rparr>) w)
      else w)"

end
