(* ===== verification/Wheel_Spec.thy ===== *)
theory Wheel_Spec
  imports Time_Wheel
begin

text \<open>
  The abstract timer wheel: every bucket is a list of timers, times are natural numbers. The
  operations are those of \<open>Time_Wheel\<close> without pointers; here the placement invariant is proved
  and, from it, that ticking fires exactly the timers that are due, in order of their expiry.
\<close>

section \<open>Buckets and placement\<close>

type_synonym 'p buckets = "tv_slot \<Rightarrow> 'p list"

definition slot_of :: "nat \<Rightarrow> nat \<Rightarrow> tv_slot" where
  "slot_of ct x =
     (if x - ct < 2 ^ 8 then TV1 (x mod 2 ^ 8)
      else if x - ct < 2 ^ 14 then TV2 (x div 2 ^ 8 mod 2 ^ 6)
      else if x - ct < 2 ^ 20 then TV3 (x div 2 ^ 14 mod 2 ^ 6)
      else if x - ct < 2 ^ 26 then TV4 (x div 2 ^ 20 mod 2 ^ 6)
      else TV5 (x div 2 ^ 26 mod 2 ^ 6))"

definition put :: "nat \<Rightarrow> ('p \<Rightarrow> nat) \<Rightarrow> 'p \<Rightarrow> 'p buckets \<Rightarrow> 'p buckets" where
  "put ct e p L = L(slot_of ct (e p) := p # L (slot_of ct (e p)))"

definition l_cascade :: "nat \<Rightarrow> ('p \<Rightarrow> nat) \<Rightarrow> tv_slot \<Rightarrow> 'p buckets \<Rightarrow> 'p buckets" where
  "l_cascade ct e s L = fold (put ct e) (L s) (L(s := []))"

text \<open>The slots cascaded at the start of tick \<open>ct\<close>.\<close>

definition cascade_slots :: "nat \<Rightarrow> tv_slot list" where
  "cascade_slots ct =
     (let i2 = ct div 2 ^ 8 mod 2 ^ 6; i3 = ct div 2 ^ 14 mod 2 ^ 6;
          i4 = ct div 2 ^ 20 mod 2 ^ 6; i5 = ct div 2 ^ 26 mod 2 ^ 6 in
      if ct mod 2 ^ 8 = 0 \<and> 0 < ct
      then TV2 i2 # (if i2 = 0 then TV3 i3 # (if i3 = 0 then TV4 i4 #
             (if i4 = 0 then [TV5 i5] else []) else []) else [])
      else [])"

definition l_tick_one :: "nat \<Rightarrow> ('p \<Rightarrow> nat) \<Rightarrow> 'p buckets \<Rightarrow> 'p buckets \<times> 'p list" where
  "l_tick_one ct e L =
     (let L1 = fold (l_cascade ct e) (cascade_slots ct) L; s = TV1 (ct mod 2 ^ 8)
      in (L1(s := []), L1 s))"

fun l_ticks :: "nat \<Rightarrow> ('p \<Rightarrow> nat) \<Rightarrow> nat \<Rightarrow> 'p buckets \<Rightarrow> 'p buckets \<times> 'p list" where
  "l_ticks ct e 0 L = (L, [])"
| "l_ticks ct e (Suc n) L =
     (let (L1, ps) = l_tick_one ct e L; (L2, qs) = l_ticks (Suc ct) e n L1 in (L2, ps @ qs))"

definition pending :: "'p buckets \<Rightarrow> 'p set" where
  "pending L = (\<Union>s. set (L s))"

definition bucket_distinct :: "'p buckets \<Rightarrow> bool" where
  "bucket_distinct L \<longleftrightarrow>
     (\<forall>s. distinct (L s)) \<and> (\<forall>s t. s \<noteq> t \<longrightarrow> set (L s) \<inter> set (L t) = {})"

text \<open>
  A timer that expires at \<open>x\<close> may sit in slot \<open>s\<close> when the next tick to process is \<open>ct\<close>: in the
  first level its slot comes round at \<open>x\<close> within this rotation; in a higher level the block of
  ticks it expires in has not been cascaded yet.
\<close>

fun placed :: "nat \<Rightarrow> nat \<Rightarrow> tv_slot \<Rightarrow> bool" where
  "placed ct x (TV1 i) \<longleftrightarrow> i = x mod 2 ^ 8 \<and> ct \<le> x \<and> x < ct + 2 ^ 8"
| "placed ct x (TV2 i) \<longleftrightarrow> i = x div 2 ^ 8 mod 2 ^ 6 \<and> ct \<le> x div 2 ^ 8 * 2 ^ 8 \<and> 0 < x div 2 ^ 8"
| "placed ct x (TV3 i) \<longleftrightarrow> i = x div 2 ^ 14 mod 2 ^ 6 \<and> ct \<le> x div 2 ^ 14 * 2 ^ 14 \<and> 0 < x div 2 ^ 14"
| "placed ct x (TV4 i) \<longleftrightarrow> i = x div 2 ^ 20 mod 2 ^ 6 \<and> ct \<le> x div 2 ^ 20 * 2 ^ 20 \<and> 0 < x div 2 ^ 20"
| "placed ct x (TV5 i) \<longleftrightarrow> i = x div 2 ^ 26 mod 2 ^ 6 \<and> ct \<le> x div 2 ^ 26 * 2 ^ 26 \<and> 0 < x div 2 ^ 26"

text \<open>The block of the timer starts right at tick \<open>ct\<close>: it has to be cascaded now.\<close>

fun boundary :: "nat \<Rightarrow> nat \<Rightarrow> tv_slot \<Rightarrow> bool" where
  "boundary ct x (TV1 i) \<longleftrightarrow> False"
| "boundary ct x (TV2 i) \<longleftrightarrow> x div 2 ^ 8 * 2 ^ 8 = ct"
| "boundary ct x (TV3 i) \<longleftrightarrow> x div 2 ^ 14 * 2 ^ 14 = ct"
| "boundary ct x (TV4 i) \<longleftrightarrow> x div 2 ^ 20 * 2 ^ 20 = ct"
| "boundary ct x (TV5 i) \<longleftrightarrow> x div 2 ^ 26 * 2 ^ 26 = ct"

definition wheel_ok :: "nat \<Rightarrow> ('p \<Rightarrow> nat) \<Rightarrow> 'p buckets \<Rightarrow> bool" where
  "wheel_ok ct e L \<longleftrightarrow> (\<forall>s. \<forall>p \<in> set (L s). placed ct (e p) s)"

section \<open>Arithmetic of blocks\<close>

lemma block_le: "x div g * g \<le> (x::nat)"
  by simp

lemma block_gt:
  assumes "0 < g" and "ct + g \<le> (x::nat)"
  shows "ct < x div g * g"
proof -
  have "x < x div g * g + g"
    using assms(1) mod_less_divisor [of g x] div_mult_mod_eq [of x g] by linarith
  then show ?thesis
    using assms(2) by linarith
qed

lemma placed_ge: "placed ct x s \<Longrightarrow> ct \<le> x"
  by (cases s) (auto intro: order_trans block_le)

lemma slot_of_cases:
  assumes "ct \<le> x"
  obtains (l1) "x < ct + 2 ^ 8" "slot_of ct x = TV1 (x mod 2 ^ 8)"
  | (l2) "ct + 2 ^ 8 \<le> x" "slot_of ct x = TV2 (x div 2 ^ 8 mod 2 ^ 6)"
  | (l3) "ct + 2 ^ 14 \<le> x" "slot_of ct x = TV3 (x div 2 ^ 14 mod 2 ^ 6)"
  | (l4) "ct + 2 ^ 20 \<le> x" "slot_of ct x = TV4 (x div 2 ^ 20 mod 2 ^ 6)"
  | (l5) "ct + 2 ^ 26 \<le> x" "slot_of ct x = TV5 (x div 2 ^ 26 mod 2 ^ 6)"
proof -
  consider "x - ct < 2 ^ 8" | "2 ^ 8 \<le> x - ct" "x - ct < 2 ^ 14" | "2 ^ 14 \<le> x - ct" "x - ct < 2 ^ 20"
    | "2 ^ 20 \<le> x - ct" "x - ct < 2 ^ 26" | "2 ^ 26 \<le> x - ct"
    by linarith
  then show thesis
    using assms by cases (auto simp: slot_of_def intro: that)
qed

lemma block_pos: "0 < g \<Longrightarrow> ct + g \<le> (x::nat) \<Longrightarrow> 0 < x div g"
  by (simp add: div_greater_zero_iff)

text \<open>A timer put into the wheel is placed, and is not on a boundary.\<close>

lemma slot_of_placed:
  assumes "ct \<le> x"
  shows "placed ct x (slot_of ct x)" and "\<not> boundary ct x (slot_of ct x)"
proof -
  note gt = block_gt [of "2 ^ 8" ct x] block_gt [of "2 ^ 14" ct x] block_gt [of "2 ^ 20" ct x]
    block_gt [of "2 ^ 26" ct x]
  note pos = block_pos [of "2 ^ 8" ct x] block_pos [of "2 ^ 14" ct x] block_pos [of "2 ^ 20" ct x]
    block_pos [of "2 ^ 26" ct x]
  show "placed ct x (slot_of ct x)"
    using assms by (cases rule: slot_of_cases) (use gt pos assms in auto)
  show "\<not> boundary ct x (slot_of ct x)"
    using assms by (cases rule: slot_of_cases) (use gt in auto)
qed

lemma block_digit_zero:
  assumes "ct = b * 2 ^ m" and "i + j \<le> m"
  shows "ct div 2 ^ i mod 2 ^ j = (0::nat)"
proof -
  have "(2::nat) ^ m = 2 ^ i * (2 ^ j * 2 ^ (m - (i + j)))"
    using assms(2) by (simp flip: power_add)
  then have "ct = 2 ^ i * (2 ^ j * (b * 2 ^ (m - (i + j))))"
    using assms(1) by simp
  then have "ct div 2 ^ i = 2 ^ j * (b * 2 ^ (m - (i + j)))"
    by simp
  then show ?thesis
    by simp
qed

lemma block_low_zero:
  assumes "ct = b * 2 ^ m" and "8 \<le> m"
  shows "ct mod 2 ^ 8 = (0::nat)"
  using block_digit_zero [OF assms(1), of 0 8] assms(2) by simp

lemma block_start:
  assumes "ct = b * 2 ^ m" and "0 < (b::nat)"
  shows "0 < ct" and "ct div 2 ^ m = b"
  using assms by simp_all

lemma cascade_slots_nested:
  assumes "ct mod 2 ^ 8 = 0" and "0 < ct"
  shows "TV2 (ct div 2 ^ 8 mod 2 ^ 6) \<in> set (cascade_slots ct)"
    and "ct div 2 ^ 8 mod 2 ^ 6 = 0 \<Longrightarrow> TV3 (ct div 2 ^ 14 mod 2 ^ 6) \<in> set (cascade_slots ct)"
    and "ct div 2 ^ 8 mod 2 ^ 6 = 0 \<Longrightarrow> ct div 2 ^ 14 mod 2 ^ 6 = 0
      \<Longrightarrow> TV4 (ct div 2 ^ 20 mod 2 ^ 6) \<in> set (cascade_slots ct)"
    and "ct div 2 ^ 8 mod 2 ^ 6 = 0 \<Longrightarrow> ct div 2 ^ 14 mod 2 ^ 6 = 0
      \<Longrightarrow> ct div 2 ^ 20 mod 2 ^ 6 = 0 \<Longrightarrow> TV5 (ct div 2 ^ 26 mod 2 ^ 6) \<in> set (cascade_slots ct)"
  unfolding cascade_slots_def Let_def
  by (simp_all only: assms if_True list.set insert_iff simp_thms)

text \<open>A timer on a boundary is in one of the slots the tick cascades.\<close>

lemma boundary_in_cascade_slots:
  assumes "placed ct x s" and "boundary ct x s"
  shows "s \<in> set (cascade_slots ct)"
proof (cases s)
  case (TV1 i)
  then show ?thesis using assms by simp
next
  case (TV2 i)
  then have ct: "ct = x div 2 ^ 8 * 2 ^ 8" and b: "0 < x div 2 ^ 8"
    and i: "i = x div 2 ^ 8 mod 2 ^ 6"
    using assms by (simp_all only: placed.simps boundary.simps)
  have low: "ct mod 2 ^ 8 = 0"
    using ct by (rule block_low_zero) simp
  show ?thesis
    using cascade_slots_nested(1) [OF low block_start(1) [OF ct b]]
    unfolding TV2 i block_start(2) [OF ct b] .
next
  case (TV3 i)
  then have ct: "ct = x div 2 ^ 14 * 2 ^ 14" and b: "0 < x div 2 ^ 14"
    and i: "i = x div 2 ^ 14 mod 2 ^ 6"
    using assms by (simp_all only: placed.simps boundary.simps)
  have low: "ct mod 2 ^ 8 = 0" and z2: "ct div 2 ^ 8 mod 2 ^ 6 = 0"
    by (rule block_low_zero [OF ct] block_digit_zero [OF ct], simp)+
  show ?thesis
    using cascade_slots_nested(2) [OF low block_start(1) [OF ct b] z2]
    unfolding TV3 i block_start(2) [OF ct b] .
next
  case (TV4 i)
  then have ct: "ct = x div 2 ^ 20 * 2 ^ 20" and b: "0 < x div 2 ^ 20"
    and i: "i = x div 2 ^ 20 mod 2 ^ 6"
    using assms by (simp_all only: placed.simps boundary.simps)
  have low: "ct mod 2 ^ 8 = 0" and z2: "ct div 2 ^ 8 mod 2 ^ 6 = 0"
    and z3: "ct div 2 ^ 14 mod 2 ^ 6 = 0"
    by (rule block_low_zero [OF ct] block_digit_zero [OF ct], simp)+
  show ?thesis
    using cascade_slots_nested(3) [OF low block_start(1) [OF ct b] z2 z3]
    unfolding TV4 i block_start(2) [OF ct b] .
next
  case (TV5 i)
  then have ct: "ct = x div 2 ^ 26 * 2 ^ 26" and b: "0 < x div 2 ^ 26"
    and i: "i = x div 2 ^ 26 mod 2 ^ 6"
    using assms by (simp_all only: placed.simps boundary.simps)
  have low: "ct mod 2 ^ 8 = 0" and z2: "ct div 2 ^ 8 mod 2 ^ 6 = 0"
    and z3: "ct div 2 ^ 14 mod 2 ^ 6 = 0" and z4: "ct div 2 ^ 20 mod 2 ^ 6 = 0"
    by (rule block_low_zero [OF ct] block_digit_zero [OF ct], simp)+
  show ?thesis
    using cascade_slots_nested(4) [OF low block_start(1) [OF ct b] z2 z3 z4]
    unfolding TV5 i block_start(2) [OF ct b] .
qed

section \<open>put and cascade\<close>

lemma set_put: "set (put ct e p L t) = set (L t) \<union> (if t = slot_of ct (e p) then {p} else {})"
  by (simp add: put_def)

lemma set_fold_put:
  "set (fold (put ct e) ps L t) = set (L t) \<union> {p \<in> set ps. slot_of ct (e p) = t}"
  by (induction ps arbitrary: L) (auto simp: set_put)

lemma pending_put [simp]: "pending (put ct e p L) = insert p (pending L)"
  by (auto simp: pending_def set_put split: if_splits)

lemma pending_fold_put [simp]: "pending (fold (put ct e) ps L) = set ps \<union> pending L"
  by (induction ps arbitrary: L) auto

lemma pending_empty_slot: "pending L = set (L s) \<union> pending (L(s := []))"
  by (auto simp: pending_def split: if_splits)

lemma pending_cascade [simp]: "pending (l_cascade ct e s L) = pending L"
  unfolding l_cascade_def pending_fold_put by (rule pending_empty_slot [symmetric])

lemma pending_fold_cascade [simp]: "pending (fold (l_cascade ct e) ss L) = pending L"
  by (induction ss arbitrary: L) auto

lemma bucket_distinct_put:
  assumes "bucket_distinct L" and "p \<notin> pending L"
  shows "bucket_distinct (put ct e p L)"
proof -
  have "\<And>t. p \<notin> set (L t)"
    using assms(2) by (auto simp: pending_def)
  then show ?thesis
    using assms(1) by (auto simp: bucket_distinct_def put_def)
qed

lemma bucket_distinct_fold_put:
  "bucket_distinct L \<Longrightarrow> distinct ps \<Longrightarrow> set ps \<inter> pending L = {}
    \<Longrightarrow> bucket_distinct (fold (put ct e) ps L)"
  by (induction ps arbitrary: L) (auto simp: bucket_distinct_put)

lemma bucket_distinct_empty_slot:
  assumes "bucket_distinct L"
  shows "bucket_distinct (L(s := []))" and "set (L s) \<inter> pending (L(s := [])) = {}"
    and "distinct (L s)"
proof -
  show "set (L s) \<inter> pending (L(s := [])) = {}"
  proof (rule equals0I)
    fix p
    assume "p \<in> set (L s) \<inter> pending (L(s := []))"
    then obtain t where "p \<in> set (L s)" and "p \<in> set (L t)" and "t \<noteq> s"
      by (auto simp: pending_def split: if_splits)
    moreover have "set (L s) \<inter> set (L t) = {}" if "t \<noteq> s" for t
      using assms that by (simp add: bucket_distinct_def)
    ultimately show False
      by blast
  qed
qed (use assms in \<open>auto simp: bucket_distinct_def\<close>)

lemma bucket_distinct_cascade:
  assumes "bucket_distinct L"
  shows "bucket_distinct (l_cascade ct e s L)"
  unfolding l_cascade_def
  by (intro bucket_distinct_fold_put bucket_distinct_empty_slot [OF assms])

lemma bucket_distinct_fold_cascade:
  "bucket_distinct L \<Longrightarrow> bucket_distinct (fold (l_cascade ct e) ss L)"
  by (induction ss arbitrary: L) (auto simp: bucket_distinct_cascade)

text \<open>One cascade keeps the placement; what is still on a boundary was not in the slot.\<close>

lemma cascade_ok:
  assumes "wheel_ok ct e L"
  shows "wheel_ok ct e (l_cascade ct e s L)"
    and "p \<in> set (l_cascade ct e s L t) \<Longrightarrow> boundary ct (e p) t \<Longrightarrow> t \<noteq> s \<and> p \<in> set (L t)"
proof -
  have ge: "ct \<le> e p" if "p \<in> set (L s)" for p
    using assms that by (auto simp: wheel_ok_def intro: placed_ge)
  then show "wheel_ok ct e (l_cascade ct e s L)"
    using assms slot_of_placed(1)
    by (auto simp: wheel_ok_def l_cascade_def set_fold_put split: if_splits)
  assume "p \<in> set (l_cascade ct e s L t)" and "boundary ct (e p) t"
  then show "t \<noteq> s \<and> p \<in> set (L t)"
    using ge slot_of_placed(2) by (auto simp: l_cascade_def set_fold_put split: if_splits)
qed

lemma fold_cascade_ok:
  "wheel_ok ct e L \<Longrightarrow> wheel_ok ct e (fold (l_cascade ct e) ss L)
    \<and> (\<forall>t. \<forall>p \<in> set (fold (l_cascade ct e) ss L t). boundary ct (e p) t
         \<longrightarrow> t \<notin> set ss \<and> p \<in> set (L t))"
proof (induction ss arbitrary: L)
  case Nil
  then show ?case by simp
next
  case (Cons s ss)
  note step = cascade_ok [OF Cons.prems]
  show ?case
    unfolding fold.simps comp_def
    using Cons.IH [OF step(1)] step(2) by (metis set_ConsD)
qed

lemma cascades_no_boundary:
  assumes "wheel_ok ct e L" and "p \<in> set (fold (l_cascade ct e) (cascade_slots ct) L t)"
  shows "\<not> boundary ct (e p) t"
proof
  assume b: "boundary ct (e p) t"
  with fold_cascade_ok [OF assms(1), of "cascade_slots ct"] assms(2)
  have "t \<notin> set (cascade_slots ct)" and "p \<in> set (L t)"
    by blast+
  moreover from \<open>p \<in> set (L t)\<close> have "placed ct (e p) t"
    using assms(1) by (simp add: wheel_ok_def)
  ultimately show False
    using boundary_in_cascade_slots b by blast
qed

section \<open>One tick\<close>

lemma mod_window_unique:
  assumes "ct \<le> x" and "x < ct + n" and "x mod n = ct mod (n::nat)"
  shows "x = ct"
proof -
  have "n dvd x - ct"
    using assms(1,3) by (metis mod_eq_dvd_iff_nat)
  then show ?thesis
    using assms(1,2) by (metis Nat.less_diff_conv2 add.commute dvd_imp_le le_antisym
        linorder_not_less zero_less_diff)
qed

lemma tick_one_fired:
  assumes ok: "wheel_ok ct e L"
  shows "set (snd (l_tick_one ct e L)) = {p \<in> pending L. e p = ct}"
proof -
  let ?L = "fold (l_cascade ct e) (cascade_slots ct) L" and ?s = "TV1 (ct mod 2 ^ 8)"
  have ok1: "wheel_ok ct e ?L"
    using fold_cascade_ok [OF ok] by blast
  have "e p = ct" if "p \<in> set (?L ?s)" for p
  proof -
    have "placed ct (e p) ?s"
      using ok1 that unfolding wheel_ok_def by blast
    then show ?thesis
      using mod_window_unique [of ct "e p" "2 ^ 8"] by simp
  qed
  moreover have "p \<in> set (?L ?s)" if p: "p \<in> pending ?L" and x: "e p = ct" for p
  proof -
    from p obtain t where t: "p \<in> set (?L t)"
      by (auto simp: pending_def)
    have pl: "placed ct (e p) t" and nb: "\<not> boundary ct (e p) t"
      using ok1 t cascades_no_boundary [OF ok t] by (auto simp: wheel_ok_def)
    have "t = ?s"
      using pl nb x block_le by (cases t) (auto simp: le_antisym)
    then show ?thesis using t by simp
  qed
  moreover have "set (?L ?s) \<subseteq> pending ?L"
    by (auto simp: pending_def)
  ultimately show ?thesis
    by (auto simp: l_tick_one_def Let_def)
qed

lemma tick_one_rest:
  assumes ok: "wheel_ok ct e L" and dist: "bucket_distinct L"
  shows "pending (fst (l_tick_one ct e L)) = {p \<in> pending L. e p \<noteq> ct}"
    and "wheel_ok (Suc ct) e (fst (l_tick_one ct e L))"
    and "bucket_distinct (fst (l_tick_one ct e L))"
    and "distinct (snd (l_tick_one ct e L))"
proof -
  let ?L = "fold (l_cascade ct e) (cascade_slots ct) L" and ?s = "TV1 (ct mod 2 ^ 8)"
  have d1: "bucket_distinct ?L"
    by (rule bucket_distinct_fold_cascade [OF dist])
  have "pending ?L = set (?L ?s) \<union> pending (?L(?s := []))"
    by (rule pending_empty_slot)
  then show pend: "pending (fst (l_tick_one ct e L)) = {p \<in> pending L. e p \<noteq> ct}"
    using tick_one_fired [OF ok] bucket_distinct_empty_slot(2) [OF d1, of ?s]
    by (auto simp: l_tick_one_def Let_def)
  show "bucket_distinct (fst (l_tick_one ct e L))" and "distinct (snd (l_tick_one ct e L))"
    using bucket_distinct_empty_slot [OF d1] by (simp_all add: l_tick_one_def Let_def)
  have ok1: "wheel_ok ct e ?L"
    using fold_cascade_ok [OF ok] by blast
  have "placed (Suc ct) (e p) t" if p: "p \<in> set ((?L(?s := [])) t)" for p t
  proof -
    have t: "p \<in> set (?L t)" and "t \<noteq> ?s"
      using p by (auto split: if_splits)
    have pl: "placed ct (e p) t" and nb: "\<not> boundary ct (e p) t"
      using ok1 t cascades_no_boundary [OF ok t] by (auto simp: wheel_ok_def)
    then show ?thesis
      using \<open>t \<noteq> ?s\<close> by (cases t) (auto simp: Suc_le_eq le_less)
  qed
  then show "wheel_ok (Suc ct) e (fst (l_tick_one ct e L))"
    by (simp add: wheel_ok_def l_tick_one_def Let_def)
qed

section \<open>Ticking to a time\<close>

lemma wheel_ok_pending_ge: "wheel_ok ct e L \<Longrightarrow> p \<in> pending L \<Longrightarrow> ct \<le> e p"
  by (auto simp: wheel_ok_def pending_def intro: placed_ge)

lemma ticks_correct:
  assumes "wheel_ok ct e L" and "bucket_distinct L" and "l_ticks ct e n L = (L', fired)"
  shows "set fired = {p \<in> pending L. e p < ct + n} \<and> distinct fired \<and> sorted (map e fired)
    \<and> pending L' = {p \<in> pending L. ct + n \<le> e p} \<and> wheel_ok (ct + n) e L' \<and> bucket_distinct L'"
  using assms
proof (induction n arbitrary: ct L L' fired)
  case 0
  then show ?case
    using wheel_ok_pending_ge [OF "0.prems"(1)] by fastforce
next
  case (Suc n)
  obtain L1 ps where one: "l_tick_one ct e L = (L1, ps)"
    by fastforce
  obtain L2 qs where rest: "l_ticks (Suc ct) e n L1 = (L2, qs)"
    by fastforce
  have res: "L' = L2" "fired = ps @ qs"
    using Suc.prems(3) by (simp_all add: one rest)
  have ps: "set ps = {p \<in> pending L. e p = ct}" "distinct ps"
    and L1: "pending L1 = {p \<in> pending L. e p \<noteq> ct}" "wheel_ok (Suc ct) e L1" "bucket_distinct L1"
    using tick_one_fired [OF Suc.prems(1)] tick_one_rest [OF Suc.prems(1,2)] by (simp_all add: one)
  have qs: "set qs = {p \<in> pending L1. e p < ct + Suc n}" "distinct qs" "sorted (map e qs)"
    and L2: "pending L2 = {p \<in> pending L1. ct + Suc n \<le> e p}" "wheel_ok (ct + Suc n) e L2"
      "bucket_distinct L2"
    using Suc.IH [OF L1(2,3) rest] by simp_all
  have eq: "map e ps = replicate (length ps) ct"
    using ps(1) by (intro replicate_eqI) auto
  have ge: "ct \<le> e p" if "p \<in> pending L" for p
    by (rule wheel_ok_pending_ge [OF Suc.prems(1) that])
  have "set fired = {p \<in> pending L. e p < ct + Suc n}"
    unfolding res set_append ps(1) qs(1) L1(1) by auto
  moreover have "distinct fired"
    unfolding res distinct_append ps(1) qs(1) L1(1) using ps(2) qs(2) by auto
  moreover have "sorted (map e fired)"
  proof -
    have "ct \<le> e q" if "q \<in> set qs" for q
      using that ge unfolding qs(1) L1(1) by blast
    then show ?thesis
      unfolding res map_append eq sorted_append using qs(3) by auto
  qed
  moreover have "pending L' = {p \<in> pending L. ct + Suc n \<le> e p}"
    unfolding res L2(1) L1(1) by auto
  ultimately show ?case
    using L2(2,3) unfolding res by blast
qed

end
