(* ===== verification/Wheel_Refine.thy ===== *)
theory Wheel_Refine
  imports Wheel_Spec
begin

text \<open>
  The pointer code of \<open>Time_Wheel\<close> implements the abstract wheel of \<open>Wheel_Spec\<close>: a relation
  between a wheel with its node memory and the bucket lists, one simulation lemma per operation,
  termination of every chain walk, and the resulting theorems about the code.
\<close>

section \<open>Chains in memory\<close>

fun path :: "(timer_ptr \<Rightarrow> timer_node) \<Rightarrow> timer_ptr \<Rightarrow> timer_ptr list \<Rightarrow> bool" where
  "path h c [] \<longleftrightarrow> c = nullptr"
| "path h c (p # ps) \<longleftrightarrow> c = p \<and> p \<noteq> nullptr \<and> path h (t_next (h p)) ps"

text \<open>A bucket: a chain whose nodes carry the right back links and bucket address.\<close>

fun dll :: "(timer_ptr \<Rightarrow> timer_node) \<Rightarrow> tv_slot \<Rightarrow> timer_ptr \<Rightarrow> timer_ptr \<Rightarrow> timer_ptr list \<Rightarrow> bool" where
  "dll h s b c [] \<longleftrightarrow> c = nullptr"
| "dll h s b c (p # ps) \<longleftrightarrow> c = p \<and> p \<noteq> nullptr \<and> t_prev (h p) = b \<and> t_head_ptr (h p) = Some s
     \<and> dll h s p (t_next (h p)) ps"

definition rep :: "time_wheel \<Rightarrow> timer_ptr buckets \<Rightarrow> bool" where
  "rep w L \<longleftrightarrow> bucket_distinct L \<and> (\<forall>s. dll (nodes w) s nullptr (tv w s) (L s))"

definition same_links :: "timer_node \<Rightarrow> timer_node \<Rightarrow> bool" where
  "same_links m n \<longleftrightarrow> t_next m = t_next n \<and> t_prev m = t_prev n \<and> t_head_ptr m = t_head_ptr n"

text \<open>What no wheel operation touches: the expiry and the handle of every node.\<close>

definition frame :: "time_wheel \<Rightarrow> time_wheel \<Rightarrow> bool" where
  "frame w w' \<longleftrightarrow> current_tick w' = current_tick w
     \<and> (\<forall>q. expires_at (nodes w' q) = expires_at (nodes w q))
     \<and> (\<forall>q. t_handle (nodes w' q) = t_handle (nodes w q))"

abbreviation expiry :: "time_wheel \<Rightarrow> timer_ptr \<Rightarrow> nat" where
  "expiry w \<equiv> \<lambda>p. unat (expires_at (nodes w p))"

lemma frame_refl [simp]: "frame w w"
  by (simp add: frame_def)

lemma frame_trans: "frame w w1 \<Longrightarrow> frame w1 w2 \<Longrightarrow> frame w w2"
  by (simp add: frame_def)

lemma frame_tick: "frame w w' \<Longrightarrow> current_tick w' = current_tick w"
  by (simp add: frame_def)

lemma frame_expiry: "frame w w' \<Longrightarrow> expiry w' = expiry w"
  by (simp add: frame_def)

lemma frame_handle: "frame w w' \<Longrightarrow> t_handle (nodes w' q) = t_handle (nodes w q)"
  by (simp add: frame_def)

lemma dll_path: "dll h s b c ps \<Longrightarrow> path h c ps"
  by (induction ps arbitrary: b c) auto

lemma path_nonnull: "path h c ps \<Longrightarrow> nullptr \<notin> set ps"
  by (induction ps arbitrary: c) auto

lemma path_cong:
  "(\<And>p. p \<in> set ps \<Longrightarrow> t_next (h' p) = t_next (h p)) \<Longrightarrow> path h' c ps = path h c ps"
  by (induction ps arbitrary: c) auto

lemma dll_cong:
  "(\<And>p. p \<in> set ps \<Longrightarrow> same_links (h' p) (h p)) \<Longrightarrow> dll h' s b c ps = dll h s b c ps"
  by (induction ps arbitrary: b c) (auto simp: same_links_def)

lemma same_links_refl [simp]: "same_links n n"
  by (simp add: same_links_def)

lemma dll_head: "dll h s b c ps \<Longrightarrow> c = (case ps of [] \<Rightarrow> nullptr | p # _ \<Rightarrow> p)"
  by (cases ps) auto

lemma dll_head_in: "dll h s b c ps \<Longrightarrow> c = nullptr \<or> c \<in> set ps"
  by (cases ps) auto

lemma bucket_unique:
  "bucket_distinct L \<Longrightarrow> p \<in> set (L s) \<Longrightarrow> p \<in> set (L t) \<Longrightarrow> s = t"
  unfolding bucket_distinct_def by blast

lemma pendingI: "p \<in> set (L s) \<Longrightarrow> p \<in> pending L"
  by (auto simp: pending_def)

lemma pendingE:
  assumes "p \<in> pending L"
  obtains s where "p \<in> set (L s)"
  using assms by (auto simp: pending_def)

lemma rep_distinct: "rep w L \<Longrightarrow> bucket_distinct L"
  by (simp add: rep_def)

lemma rep_dll: "rep w L \<Longrightarrow> dll (nodes w) s nullptr (tv w s) (L s)"
  by (simp add: rep_def)

lemma rep_nonnull: "rep w L \<Longrightarrow> nullptr \<notin> pending L"
  by (metis pendingE rep_dll dll_path path_nonnull)

lemma rep_init: "rep (wheel_init ns) (\<lambda>_. [])"
  by (simp add: rep_def wheel_init_def bucket_distinct_def)

section \<open>The bucket of a timer\<close>

lemma mask_R: "TVR_MASK = 2 ^ 8 - 1" and mask_N: "TVN_MASK = 2 ^ 6 - 1"
  by (simp_all add: tv_consts)

lemma unat_mask_R: "unat (x AND TVR_MASK) = unat x mod 2 ^ 8"
  unfolding mask_R by (rule and_mask_unat) simp

lemma unat_field_N: "unat (drop_bit n x AND TVN_MASK) = unat x div 2 ^ n mod 2 ^ 6"
proof -
  have "unat (drop_bit n x AND TVN_MASK) = unat (drop_bit n x) mod 2 ^ 6"
    unfolding mask_N by (rule and_mask_unat) simp
  also have "\<dots> = drop_bit n (unat x) mod 2 ^ 6"
    by (simp only: unat_drop_bit_eq)
  finally show ?thesis
    by (simp only: drop_bit_eq_div)
qed

lemma mask_R_eq_0: "x AND TVR_MASK = 0 \<longleftrightarrow> unat x mod 2 ^ 8 = 0"
  by (metis unat_mask_R unat_eq_zero)

lemma field_N_eq_0: "drop_bit n x AND TVN_MASK = 0 \<longleftrightarrow> unat x div 2 ^ n mod 2 ^ 6 = 0"
  by (metis unat_field_N unat_eq_zero)

lemma slot_for_slot_of:
  assumes "now \<le> x"
  shows "slot_for now x = slot_of (unat now) (unat x)"
proof -
  have d: "unat (x - now) = unat x - unat now"
    using assms by (simp add: unat_sub_if' word_le_nat_alt)
  have lt: "x - now < c \<longleftrightarrow> unat x - unat now < unat c" for c
    by (simp add: word_less_nat_alt d)
  show ?thesis
    unfolding slot_for_def slot_of_def Let_def unat_mask_R unat_field_N lt
    by (simp add: tv_consts)
qed

section \<open>add_timer\<close>

lemma add_timer_current_tick [simp]: "current_tick (add_timer p w) = current_tick w"
  by (simp add: add_timer_def Let_def upd_node_def set_head_def)

lemma add_timer_frame [simp]: "frame w (add_timer p w)"
  by (auto simp: frame_def add_timer_def Let_def upd_node_def set_head_def)

lemma add_timer_active: "active_timers (add_timer p w) = active_timers w + 1"
  by (simp add: add_timer_def Let_def upd_node_def set_head_def)

lemma add_timer_tv:
  "tv (add_timer p w) = (tv w)(slot_for (current_tick w) (expires_at (nodes w p)) := p)"
  by (simp add: add_timer_def Let_def upd_node_def set_head_def)

lemma add_timer_nodes:
  assumes "s = slot_for (current_tick w) (expires_at (nodes w p))" and "tv w s \<noteq> p"
  shows "nodes (add_timer p w) q =
    (if q = p then (nodes w p)\<lparr> t_next := tv w s, t_prev := nullptr, t_head_ptr := Some s \<rparr>
     else if q = tv w s \<and> tv w s \<noteq> nullptr then (nodes w q)\<lparr> t_prev := p \<rparr>
     else nodes w q)"
  using assms by (auto simp: add_timer_def Let_def upd_node_def set_head_def)

lemma add_timer_rep:
  assumes rep: "rep w L" and p: "p \<noteq> nullptr" "p \<notin> pending L"
    and s: "s = slot_for (current_tick w) (expires_at (nodes w p))"
  shows "rep (add_timer p w) (L(s := p # L s))"
proof -
  have dist: "bucket_distinct L"
    using rep by (rule rep_distinct)
  have notin: "p \<notin> set (L t)" for t
    using p(2) by (auto simp: pending_def)
  have hd_s: "tv w s = (case L s of [] \<Rightarrow> nullptr | c # _ \<Rightarrow> c)"
    using dll_head [OF rep_dll [OF rep]] .
  then have ne: "tv w s \<noteq> p"
    using p(1) notin [of s] by (auto split: list.splits)
  note nds = add_timer_nodes [OF s ne]
  have other: "dll (nodes (add_timer p w)) t nullptr (tv w t) (L t)" if "t \<noteq> s" for t
  proof -
    have "tv w s \<notin> set (L t) \<or> tv w s = nullptr"
      using dll_head_in [OF rep_dll [OF rep, of s]] bucket_unique [OF dist] that by blast
    then have "dll (nodes (add_timer p w)) t nullptr (tv w t) (L t)
        = dll (nodes w) t nullptr (tv w t) (L t)"
      using notin [of t] by (intro dll_cong) (auto simp: nds)
    then show ?thesis
      using rep_dll [OF rep] by simp
  qed
  have this_slot: "dll (nodes (add_timer p w)) s nullptr p (p # L s)"
  proof (cases "L s")
    case Nil
    then show ?thesis
      using p(1) hd_s by (simp add: nds)
  next
    case (Cons c cs)
    have old: "dll (nodes w) s nullptr c (c # cs)"
      using rep_dll [OF rep, of s] hd_s Cons by simp
    have "c \<notin> set cs"
      using dist Cons unfolding bucket_distinct_def by (metis distinct.simps(2))
    then have "dll (nodes (add_timer p w)) s c (t_next (nodes w c)) cs
        = dll (nodes w) s c (t_next (nodes w c)) cs"
      using notin [of s] Cons hd_s by (intro dll_cong) (auto simp: nds)
    then show ?thesis
      using old Cons hd_s p(1) notin [of s] by (auto simp: nds)
  qed
  have "bucket_distinct (L(s := p # L s))"
    using dist notin unfolding bucket_distinct_def by auto
  then show ?thesis
    using this_slot other by (simp add: rep_def add_timer_tv flip: s)
qed

section \<open>cascade\<close>

lemma add_timer_put:
  assumes "rep w L" and "p \<noteq> nullptr" and "p \<notin> pending L"
    and "current_tick w \<le> expires_at (nodes w p)"
  shows "rep (add_timer p w) (put (unat (current_tick w)) (expiry w) p L)"
  using add_timer_rep [OF assms(1-3) refl]
  by (simp add: put_def slot_for_slot_of [OF assms(4)])

lemma cascade_loop_rep:
  assumes "path (nodes w) c ps" and "distinct ps" and "set ps \<inter> pending L = {}" and "rep w L"
    and "\<And>p. p \<in> set ps \<Longrightarrow> current_tick w \<le> expires_at (nodes w p)"
  shows "\<exists>w'. cascade_loop c w = Some w' \<and> frame w w'
     \<and> active_timers w' = active_timers w + of_nat (length ps)
     \<and> rep w' (fold (put (unat (current_tick w)) (expiry w)) ps L)"
  using assms
proof (induction ps arbitrary: c w L)
  case Nil
  then show ?case by (simp add: cascade_loop.simps)
next
  case (Cons p ps)
  let ?w = "add_timer p w" and ?s = "slot_for (current_tick w) (expires_at (nodes w p))"
  have c: "c = p" "p \<noteq> nullptr" and rest: "path (nodes w) (t_next (nodes w p)) ps"
    using Cons.prems(1) by auto
  have rep': "rep ?w (put (unat (current_tick w)) (expiry w) p L)"
    using Cons.prems c by (intro add_timer_put) auto
  have "tv w ?s \<noteq> p"
    using Cons.prems(3) c(2) dll_head_in [OF rep_dll [OF Cons.prems(4), of ?s]]
    by (auto dest: pendingI)
  then have nxt: "t_next (nodes ?w q) = t_next (nodes w q)" if "q \<noteq> p" for q
    using that add_timer_nodes [OF refl, of w p q] by simp
  have path': "path (nodes ?w) (t_next (nodes w p)) ps"
    using rest path_cong [of ps "nodes ?w" "nodes w"] nxt Cons.prems(2) by fastforce
  have exp: "expiry ?w = expiry w" and cur_tick: "current_tick ?w = current_tick w"
    using frame_expiry [OF add_timer_frame] by simp_all
  have "expires_at (nodes ?w q) = expires_at (nodes w q)" for q
    using add_timer_frame [of w p] by (simp add: frame_def)
  then obtain w' where "cascade_loop (t_next (nodes w p)) ?w = Some w'" and "frame ?w w'"
    and "active_timers w' = active_timers ?w + of_nat (length ps)"
    and "rep w' (fold (put (unat (current_tick w)) (expiry w)) ps
           (put (unat (current_tick w)) (expiry w) p L))"
    using Cons.IH [OF path' _ _ rep'] Cons.prems(2,3,5) exp cur_tick by auto
  then show ?case
    using c frame_trans [OF add_timer_frame] add_timer_active [of p w]
    by (auto simp: cascade_loop.simps [of p w])
qed

lemma set_head_frame [simp]: "frame w (set_head s c w)"
  by (simp add: frame_def set_head_def)

lemma set_head_nodes [simp]: "nodes (set_head s c w) = nodes w"
  by (simp add: set_head_def)

lemma set_head_active [simp]: "active_timers (set_head s c w) = active_timers w"
  by (simp add: set_head_def)

lemma set_head_current_tick [simp]: "current_tick (set_head s c w) = current_tick w"
  by (simp add: set_head_def)

lemma set_head_empty_rep: "rep w L \<Longrightarrow> rep (set_head s nullptr w) (L(s := []))"
  using bucket_distinct_empty_slot(1) [of L s] by (simp add: rep_def set_head_def)

definition timers_ahead :: "time_wheel \<Rightarrow> timer_ptr buckets \<Rightarrow> bool" where
  "timers_ahead w L \<longleftrightarrow> (\<forall>p \<in> pending L. current_tick w \<le> expires_at (nodes w p))"

lemma timers_ahead_frame: "frame w w' \<Longrightarrow> pending L' = pending L \<Longrightarrow> timers_ahead w L \<Longrightarrow> timers_ahead w' L'"
  by (simp add: timers_ahead_def frame_def)

lemma cascade_rep:
  assumes rep: "rep w L" and ahead: "timers_ahead w L"
  shows "\<exists>w'. cascade s w = Some w' \<and> frame w w'
     \<and> active_timers w' = active_timers w + of_nat (length (L s))
     \<and> rep w' (l_cascade (unat (current_tick w)) (expiry w) s L)"
proof -
  note d = bucket_distinct_empty_slot [OF rep_distinct [OF rep], of s]
  have "path (nodes (set_head s nullptr w)) (tv w s) (L s)"
    using dll_path [OF rep_dll [OF rep]] by simp
  moreover have "current_tick w \<le> expires_at (nodes w p)" if "p \<in> set (L s)" for p
    using ahead that by (auto simp: timers_ahead_def pending_def)
  ultimately obtain w' where "cascade_loop (tv w s) (set_head s nullptr w) = Some w'"
    and "frame (set_head s nullptr w) w'"
    and "active_timers w' = active_timers w + of_nat (length (L s))"
    and "rep w' (fold (put (unat (current_tick w)) (expiry w)) (L s) (L(s := [])))"
    using cascade_loop_rep [OF _ d(3,2) set_head_empty_rep [OF rep]] by auto
  then show ?thesis
    using frame_trans [OF set_head_frame] by (auto simp: cascade_def l_cascade_def)
qed

text \<open>The nest of cascades a tick performs is a sequence of cascades.\<close>

lemma nested_cascades:
  assumes "P w L"
    and "cascade s2 w = Some w2" and "P w2 (C s2 L)"
    and "cascade s3 w2 = Some w3" and "P w3 (C s3 (C s2 L))"
    and "cascade s4 w3 = Some w4" and "P w4 (C s4 (C s3 (C s2 L)))"
    and "cascade s5 w4 = Some w5" and "P w5 (C s5 (C s4 (C s3 (C s2 L))))"
  shows "\<exists>w'. (if b1 then (case cascade s2 w of None \<Rightarrow> None | Some w2 \<Rightarrow>
             if b2 then (case cascade s3 w2 of None \<Rightarrow> None | Some w3 \<Rightarrow>
             if b3 then (case cascade s4 w3 of None \<Rightarrow> None | Some w4 \<Rightarrow>
             if b4 then cascade s5 w4 else Some w4) else Some w3) else Some w2) else Some w) = Some w'
     \<and> P w' (fold C (if b1 then s2 # (if b2 then s3 # (if b3 then s4 #
               (if b4 then [s5] else []) else []) else []) else []) L)"
  using assms by simp

text \<open>A sequence of cascades, and the nest of cascades a tick performs.\<close>

text \<open>The timers the cascades of one tick move, and those of several ticks.\<close>

definition l_move ::
    "nat \<Rightarrow> ('p \<Rightarrow> nat) \<Rightarrow> tv_slot \<Rightarrow> 'p buckets \<times> nat \<Rightarrow> 'p buckets \<times> nat" where
  "l_move ct e s Lk = (l_cascade ct e s (fst Lk), snd Lk + length (fst Lk s))"

definition moved_one :: "nat \<Rightarrow> ('p \<Rightarrow> nat) \<Rightarrow> 'p buckets \<Rightarrow> nat" where
  "moved_one ct e L = snd (fold (l_move ct e) (cascade_slots ct) (L, 0))"

fun moved :: "nat \<Rightarrow> ('p \<Rightarrow> nat) \<Rightarrow> nat \<Rightarrow> 'p buckets \<Rightarrow> nat" where
  "moved ct e 0 L = 0"
| "moved ct e (Suc n) L = moved_one ct e L + moved (Suc ct) e n (fst (l_tick_one ct e L))"

lemma fst_fold_move: "fst (fold (l_move ct e) ss Lk) = fold (l_cascade ct e) ss (fst Lk)"
  by (induction ss arbitrary: Lk) (auto simp: l_move_def)

lemma tick_cascades_rep:
  assumes rep: "rep w L" and ahead: "timers_ahead w L"
  shows "\<exists>w'. tick_cascades w = Some w' \<and> frame w w'
     \<and> active_timers w' = active_timers w + of_nat (moved_one (unat (current_tick w)) (expiry w) L)
     \<and> rep w' (fold (l_cascade (unat (current_tick w)) (expiry w))
                 (cascade_slots (unat (current_tick w))) L)"
proof -
  let ?ct = "unat (current_tick w)" and ?e = "expiry w"
  let ?C = "l_move ?ct ?e"
  define P where "P w' Lk \<longleftrightarrow> frame w w' \<and> pending (fst Lk) = pending L \<and> rep w' (fst Lk)
      \<and> active_timers w' = active_timers w + of_nat (snd Lk)" for w' Lk
  have step: "\<exists>w2. cascade s w1 = Some w2 \<and> P w2 (?C s Lk)" if "P w1 Lk" for s w1 Lk
  proof -
    have fr: "frame w w1" and pend: "pending (fst Lk) = pending L" and rep1: "rep w1 (fst Lk)"
      and act: "active_timers w1 = active_timers w + of_nat (snd Lk)"
      using that by (simp_all add: P_def)
    from cascade_rep [OF rep1 timers_ahead_frame [OF fr pend ahead], of s] obtain w2 where
      "cascade s w1 = Some w2" and "frame w1 w2"
      and "active_timers w2 = active_timers w1 + of_nat (length (fst Lk s))"
      and "rep w2 (l_cascade (unat (current_tick w1)) (expiry w1) s (fst Lk))"
      by blast
    then show ?thesis
      using frame_trans [OF fr] frame_tick [OF fr] frame_expiry [OF fr] pend act
      by (auto simp: P_def l_move_def)
  qed
  let ?s2 = "TV2 (?ct div 2 ^ 8 mod 2 ^ 6)" and ?s3 = "TV3 (?ct div 2 ^ 14 mod 2 ^ 6)"
  let ?s4 = "TV4 (?ct div 2 ^ 20 mod 2 ^ 6)" and ?s5 = "TV5 (?ct div 2 ^ 26 mod 2 ^ 6)"
  have start: "P w (L, 0)"
    using rep by (simp add: P_def)
  obtain w2 where w2: "cascade ?s2 w = Some w2" "P w2 (?C ?s2 (L, 0))"
    using step [OF start] by blast
  obtain w3 where w3: "cascade ?s3 w2 = Some w3" "P w3 (?C ?s3 (?C ?s2 (L, 0)))"
    using step [OF w2(2)] by blast
  obtain w4 where w4: "cascade ?s4 w3 = Some w4" "P w4 (?C ?s4 (?C ?s3 (?C ?s2 (L, 0))))"
    using step [OF w3(2)] by blast
  obtain w5 where w5: "cascade ?s5 w4 = Some w5" "P w5 (?C ?s5 (?C ?s4 (?C ?s3 (?C ?s2 (L, 0)))))"
    using step [OF w4(2)] by blast
  have bits: "TVR_BITS = 8" "8 + TVN_BITS = 14" "8 + 2 * TVN_BITS = 20" "8 + 3 * TVN_BITS = 26"
    by (simp_all add: tv_consts)
  have gt: "current_tick w > 0 \<longleftrightarrow> 0 < ?ct"
    by (simp add: word_less_nat_alt)
  have "\<exists>w'. tick_cascades w = Some w' \<and> P w' (fold ?C (cascade_slots ?ct) (L, 0))"
    using nested_cascades [where P = P and C = ?C, OF start w2 w3 w4 w5]
    unfolding tick_cascades_def cascade_slots_def Let_def bits unat_field_N field_N_eq_0
      mask_R_eq_0 gt .
  then show ?thesis
    by (auto simp: P_def moved_one_def fst_fold_move)
qed

section \<open>Firing a bucket\<close>

lemma fire_loop_path:
  assumes "path (nodes w) c ps" and "distinct ps"
  shows "\<exists>w'. fire_loop hs c w out
       = Some (w', out @ (if hs then map (\<lambda>p. t_handle (nodes w p)) ps else []))
     \<and> frame w w' \<and> tv w' = tv w \<and> active_timers w' = active_timers w
     \<and> (\<forall>q. q \<notin> set ps \<longrightarrow> nodes w' q = nodes w q)"
  using assms
proof (induction ps arbitrary: c w out)
  case Nil
  then show ?case by (simp add: fire_loop.simps)
next
  case (Cons p ps)
  let ?w = "upd_node p (\<lambda>n. n\<lparr> t_head_ptr := None \<rparr>) w"
  let ?out = "if hs then out @ [t_handle (nodes w p)] else out"
  have c: "c = p" "p \<noteq> nullptr" and rest: "path (nodes w) (t_next (nodes w p)) ps"
    using Cons.prems(1) by auto
  have path': "path (nodes ?w) (t_next (nodes w p)) ps"
    using rest path_cong [of ps "nodes ?w" "nodes w"] by (simp add: upd_node_def)
  have frame1: "frame w ?w"
    by (simp add: frame_def upd_node_def)
  obtain w' where "fire_loop hs (t_next (nodes w p)) ?w ?out
      = Some (w', ?out @ (if hs then map (\<lambda>q. t_handle (nodes ?w q)) ps else []))"
    and "frame ?w w'" and "tv w' = tv ?w" and "active_timers w' = active_timers ?w"
    and "\<forall>q. q \<notin> set ps \<longrightarrow> nodes w' q = nodes ?w q"
    using Cons.IH [OF path', of ?out] Cons.prems(2) by auto
  then show ?case
    using c frame_trans [OF frame1, of w'] frame_handle [OF frame1] Cons.prems(2)
    by (auto simp: fire_loop.simps [of hs p w out] upd_node_def)
qed

lemma tick_one_rep:
  assumes rep: "rep w L" and ahead: "timers_ahead w L"
    and one: "l_tick_one (unat (current_tick w)) (expiry w) L = (L', ps)"
    and room: "current_tick w < now"
  shows "\<exists>w'. tick_one hs w out
       = Some (w', out @ (if hs then map (\<lambda>p. t_handle (nodes w p)) ps else []))
     \<and> rep w' L' \<and> current_tick w' = current_tick w + 1
     \<and> active_timers w' = active_timers w + of_nat (moved_one (unat (current_tick w)) (expiry w) L)
     \<and> frame w (w'\<lparr> current_tick := current_tick w \<rparr>)"
proof -
  let ?ct = "unat (current_tick w)" and ?s = "TV1 (unat (current_tick w AND TVR_MASK))"
  let ?L1 = "fold (l_cascade ?ct (expiry w)) (cascade_slots ?ct) L"
  obtain w1 where w1: "tick_cascades w = Some w1" "frame w w1" "rep w1 ?L1"
    and act: "active_timers w1
      = active_timers w + of_nat (moved_one (unat (current_tick w)) (expiry w) L)"
    using tick_cascades_rep [OF rep ahead] by blast
  have s: "?s = TV1 (?ct mod 2 ^ 8)"
    by (simp only: unat_mask_R)
  have res: "L' = ?L1(?s := [])" "ps = ?L1 ?s"
    using one by (simp_all add: l_tick_one_def Let_def s)
  note d1 = rep_distinct [OF w1(3)]
  let ?w1 = "set_head ?s nullptr w1"
  have path: "path (nodes ?w1) (tv w1 ?s) ps"
    using dll_path [OF rep_dll [OF w1(3)]] by (simp add: res)
  have "distinct ps"
    using bucket_distinct_empty_slot(3) [OF d1] by (simp add: res)
  from fire_loop_path [OF path this, of hs out] obtain w2 where
    w2: "fire_loop hs (tv w1 ?s) ?w1 out
      = Some (w2, out @ (if hs then map (\<lambda>p. t_handle (nodes w1 p)) ps else []))"
      "frame ?w1 w2" "tv w2 = tv ?w1" "\<forall>q. q \<notin> set ps \<longrightarrow> nodes w2 q = nodes w1 q"
      "active_timers w2 = active_timers w1"
    by auto
  have disj: "q \<notin> set ps" if "q \<in> set (L' t)" for q t
    using bucket_distinct_empty_slot(2) [OF d1, of ?s] pendingI [of q L' t, OF that] unfolding res
    by blast
  have "dll (nodes w2) t nullptr (tv w2 t) (L' t)" for t
  proof -
    have "dll (nodes ?w1) t nullptr (tv ?w1 t) (L' t)"
      using rep_dll [OF set_head_empty_rep [OF w1(3)]] unfolding res .
    moreover have "dll (nodes w2) t nullptr (tv w2 t) (L' t)
        = dll (nodes ?w1) t nullptr (tv w2 t) (L' t)"
      using w2(4) disj by (intro dll_cong) simp
    ultimately show ?thesis
      by (simp add: w2(3))
  qed
  moreover have "bucket_distinct L'"
    using bucket_distinct_empty_slot(1) [OF d1] by (simp add: res)
  moreover have "frame w w2"
    using frame_trans [OF w1(2) frame_trans [OF set_head_frame w2(2)]] .
  ultimately show ?thesis
    using w1(1) w2(1,5) act frame_handle [OF w1(2)]
    by (auto simp: tick_one_def rep_def frame_def)
qed

section \<open>Ticking\<close>

lemma tick_loop_rep:
  assumes "rep w L" and "wheel_ok (unat (current_tick w)) (expiry w) L"
    and "l_ticks (unat (current_tick w)) (expiry w) n L = (L', ps)"
    and "unat (current_tick w) + n = max (unat (current_tick w)) (unat now)"
  shows "\<exists>w'. tick_loop hs now w out
       = Some (w', out @ (if hs then map (\<lambda>p. t_handle (nodes w p)) ps else []))
     \<and> rep w' L' \<and> current_tick w' = max (current_tick w) now
     \<and> active_timers w' = active_timers w + of_nat (moved (unat (current_tick w)) (expiry w) n L)
     \<and> frame w (w'\<lparr> current_tick := current_tick w \<rparr>)"
  using assms
proof (induction n arbitrary: w L ps out)
  case 0
  then have "\<not> current_tick w < now"
    by (simp add: word_less_nat_alt)
  then show ?case
    using 0 by (auto simp: tick_loop.simps max_def)
next
  case (Suc n)
  then have lt: "current_tick w < now"
    by (simp add: word_less_nat_alt max_def split: if_splits)
  obtain L1 qs where one: "l_tick_one (unat (current_tick w)) (expiry w) L = (L1, qs)"
    by fastforce
  obtain L2 rs where rest: "l_ticks (Suc (unat (current_tick w))) (expiry w) n L1 = (L2, rs)"
    by fastforce
  have res: "L' = L2" "ps = qs @ rs"
    using Suc.prems(3) by (simp_all add: one rest)
  have ahead: "timers_ahead w L"
    using wheel_ok_pending_ge [OF Suc.prems(2)] by (auto simp: timers_ahead_def word_le_nat_alt)
  let ?out = "out @ (if hs then map (\<lambda>p. t_handle (nodes w p)) qs else [])"
  from tick_one_rep [OF Suc.prems(1) ahead one lt] obtain w1 where
    w1: "tick_one hs w out = Some (w1, ?out)" "rep w1 L1" "current_tick w1 = current_tick w + 1"
      "active_timers w1
        = active_timers w + of_nat (moved_one (unat (current_tick w)) (expiry w) L)"
      "frame w (w1\<lparr> current_tick := current_tick w \<rparr>)"
    by blast
  have suc: "unat (current_tick w1) = Suc (unat (current_tick w))"
    unfolding w1(3) by (rule unat_Suc_less [OF lt])
  have exp: "expiry w1 = expiry w" and han: "t_handle (nodes w1 q) = t_handle (nodes w q)" for q
    using w1(5) by (simp_all add: frame_def)
  have ok1: "wheel_ok (unat (current_tick w1)) (expiry w1) L1"
    using tick_one_rest(2) [OF Suc.prems(2) rep_distinct [OF Suc.prems(1)]]
    by (simp add: one suc exp)
  have n: "unat (current_tick w1) + n = max (unat (current_tick w1)) (unat now)"
    using Suc.prems(4) suc by simp
  from Suc.IH [OF w1(2) ok1 _ n, of rs ?out] rest obtain w' where
    "tick_loop hs now w1 ?out
      = Some (w', ?out @ (if hs then map (\<lambda>p. t_handle (nodes w1 p)) rs else []))"
    and "rep w' L2" and "current_tick w' = max (current_tick w1) now"
    and "active_timers w' = active_timers w1 + of_nat (moved (Suc (unat (current_tick w))) (expiry w) n L1)"
    and "frame w1 (w'\<lparr> current_tick := current_tick w1 \<rparr>)"
    by (auto simp: suc exp res)
  moreover have "max (current_tick w1) now = max (current_tick w) now"
    using lt suc by (simp add: max_def word_less_nat_alt word_le_nat_alt)
  ultimately show ?case
    using lt w1 by (auto simp: tick_loop.simps [of hs now w out] res han frame_def one)
qed

section \<open>remove_timer\<close>

text \<open>What the links of a node in the middle of a bucket say.\<close>

lemma dll_middle:
  "dll h s b c (xs @ p # ys) \<Longrightarrow>
     t_prev (h p) = (if xs = [] then b else last xs)
   \<and> t_next (h p) = (if ys = [] then nullptr else hd ys)
   \<and> t_head_ptr (h p) = Some s \<and> c = hd (xs @ [p])"
proof (induction xs arbitrary: b c)
  case Nil
  then show ?case by (cases ys) auto
next
  case (Cons x xs)
  then show ?case by (cases xs) auto
qed

lemma dll_unlink:
  assumes "dll h s b c (xs @ p # ys)" and "distinct (xs @ p # ys)"
    and "\<And>q. q \<in> set xs \<union> set ys \<Longrightarrow> t_head_ptr (h' q) = t_head_ptr (h q)"
    and "\<And>q. q \<in> set xs \<Longrightarrow> t_prev (h' q) = t_prev (h q)"
    and "\<And>q. q \<in> set ys \<Longrightarrow> t_next (h' q) = t_next (h q)"
    and "\<And>q. q \<in> set xs \<Longrightarrow> t_next (h' q) = (if q = last xs then t_next (h p) else t_next (h q))"
    and "\<And>q. q \<in> set ys \<Longrightarrow> t_prev (h' q) = (if q = hd ys then t_prev (h p) else t_prev (h q))"
  shows "dll h' s b (if xs = [] then t_next (h p) else c) (xs @ ys)"
  using assms
proof (induction xs arbitrary: b c)
  case Nil
  show ?case
  proof (cases ys)
    case Nil
    then show ?thesis using Nil.prems(1) by simp
  next
    case (Cons y zs)
    have "dll h' s y (t_next (h y)) zs = dll h s y (t_next (h y)) zs"
      using Nil.prems Cons by (intro dll_cong) (auto simp: same_links_def)
    then show ?thesis using Nil.prems Cons by auto
  qed
next
  case (Cons x xs)
  have old: "c = x" "x \<noteq> nullptr" "t_prev (h x) = b" "t_head_ptr (h x) = Some s"
    "dll h s x (t_next (h x)) (xs @ p # ys)"
    using Cons.prems(1) by auto
  have x: "x \<notin> set xs"
    using Cons.prems(2) by auto
  have IH: "dll h' s x (if xs = [] then t_next (h p) else t_next (h x)) (xs @ ys)"
  proof (rule Cons.IH [OF old(5)])
    fix q
    assume "q \<in> set xs"
    then show "t_next (h' q) = (if q = last xs then t_next (h p) else t_next (h q))"
      using Cons.prems(6) [of q] by auto
  qed (use Cons.prems in auto)
  have "t_next (h' x) = (if xs = [] then t_next (h p) else t_next (h x))"
    using Cons.prems(6) [of x] x by auto
  then show ?case
    using IH old Cons.prems(3,4) by simp
qed

lemma remove_timer_linked:
  assumes "t_head_ptr (nodes w p) = Some s" and "t_prev (nodes w p) = b" and "t_next (nodes w p) = x"
    and "b \<noteq> p" and "x \<noteq> p" and "b = x \<Longrightarrow> b = nullptr"
    and "b = nullptr \<Longrightarrow> tv w s = p"
  shows "nodes (remove_timer p w) q =
      (if q = p then (nodes w p)\<lparr> t_head_ptr := None, t_prev := nullptr, t_next := nullptr \<rparr>
       else if q = b \<and> b \<noteq> nullptr then (nodes w q)\<lparr> t_next := x \<rparr>
       else if q = x \<and> x \<noteq> nullptr then (nodes w q)\<lparr> t_prev := b \<rparr>
       else nodes w q)"
    and "tv (remove_timer p w) = (if b = nullptr then (tv w)(s := x) else tv w)"
    and "active_timers (remove_timer p w) = active_timers w - 1"
    and "current_tick (remove_timer p w) = current_tick w"
proof -
  let ?w = "w\<lparr> active_timers := active_timers w - 1 \<rparr>"
  let ?w1 = "if b \<noteq> nullptr then upd_node b (\<lambda>n. n\<lparr> t_next := x \<rparr>) ?w else set_head s x ?w"
  let ?w2 = "if x \<noteq> nullptr then upd_node x (\<lambda>n. n\<lparr> t_prev := b \<rparr>) ?w1 else ?w1"
  have n1: "nodes ?w1 p = nodes w p"
    using assms(4) by (simp add: upd_node_def set_head_def)
  have rm: "remove_timer p w
      = upd_node p (\<lambda>n. n\<lparr> t_head_ptr := None, t_prev := nullptr, t_next := nullptr \<rparr>) ?w2"
  proof (cases "b = nullptr")
    case True
    then show ?thesis
      using assms(1-3) assms(7) [OF True] by (simp add: remove_timer_def Let_def)
  next
    case False
    then show ?thesis
      using assms(1-4) n1 by (simp add: remove_timer_def Let_def upd_node_def)
  qed
  show "nodes (remove_timer p w) q =
      (if q = p then (nodes w p)\<lparr> t_head_ptr := None, t_prev := nullptr, t_next := nullptr \<rparr>
       else if q = b \<and> b \<noteq> nullptr then (nodes w q)\<lparr> t_next := x \<rparr>
       else if q = x \<and> x \<noteq> nullptr then (nodes w q)\<lparr> t_prev := b \<rparr>
       else nodes w q)"
    unfolding rm using assms(4-6)
    by (cases "b = nullptr"; cases "x = nullptr") (auto simp: upd_node_def)
  show "tv (remove_timer p w) = (if b = nullptr then (tv w)(s := x) else tv w)"
    and "active_timers (remove_timer p w) = active_timers w - 1"
    and "current_tick (remove_timer p w) = current_tick w"
    unfolding rm by (simp_all add: upd_node_def set_head_def)
qed

lemma remove_timer_rep:
  assumes rep: "rep w L" and p: "p \<in> set (L s)"
  shows "rep (remove_timer p w) (L(s := remove1 p (L s)))"
    and "active_timers (remove_timer p w) = active_timers w - 1"
    and "frame w (remove_timer p w)"
proof -
  have dist: "bucket_distinct L"
    by (rule rep_distinct [OF rep])
  from p obtain xs ys where split: "L s = xs @ p # ys"
    by (auto simp: in_set_conv_decomp)
  have d: "distinct (xs @ p # ys)"
    using dist split unfolding bucket_distinct_def by metis
  have old: "dll (nodes w) s nullptr (tv w s) (xs @ p # ys)"
    using rep_dll [OF rep, of s] split by simp
  have nn: "nullptr \<notin> set (xs @ p # ys)"
    by (rule path_nonnull [OF dll_path [OF old]])
  note mid = dll_middle [OF old]
  let ?b = "t_prev (nodes w p)" and ?x = "t_next (nodes w p)"
  have b: "?b = (if xs = [] then nullptr else last xs)"
    and x: "?x = (if ys = [] then nullptr else hd ys)" and hp: "t_head_ptr (nodes w p) = Some s"
    using mid by auto
  have in_xs: "xs \<noteq> [] \<Longrightarrow> last xs \<in> set xs" and in_ys: "ys \<noteq> [] \<Longrightarrow> hd ys \<in> set ys"
    by simp_all
  have last_nn: "xs \<noteq> [] \<Longrightarrow> last xs \<noteq> nullptr" and hd_nn: "ys \<noteq> [] \<Longrightarrow> hd ys \<noteq> nullptr"
    using nn in_xs in_ys by (metis UnCI set_ConsD list.set_intros(2) set_append)+
  have b_ne: "?b \<noteq> p" and x_ne: "?x \<noteq> p"
    using b x d nn in_xs in_ys by (auto split: if_splits)
  have bx: "?b = nullptr" if "?b = ?x"
    using that b x d in_xs in_ys by (cases "xs = []"; cases "ys = []") auto
  have b0: "?b = nullptr \<longleftrightarrow> xs = []" and x0: "?x = nullptr \<longleftrightarrow> ys = []"
    using b x last_nn hd_nn by auto
  have hd0: "tv w s = p" if "?b = nullptr"
    using mid that b0 by auto
  note rm = remove_timer_linked [OF hp refl refl b_ne x_ne bx hd0]
  show "active_timers (remove_timer p w) = active_timers w - 1"
    by (rule rm(3))
  show "frame w (remove_timer p w)"
    by (auto simp: frame_def rm(1,4))
  have this_slot: "dll (nodes (remove_timer p w)) s nullptr
      (if xs = [] then ?x else tv w s) (xs @ ys)"
  proof (rule dll_unlink [OF old d])
    fix q
    assume q: "q \<in> set xs"
    have disj: "set xs \<inter> set (p # ys) = {}"
      using d by simp
    have ne: "q \<noteq> p" "q \<noteq> ?x \<or> ?x = nullptr"
      using disj q x0 x in_ys by (metis IntI empty_iff list.set_intros)+
    show "t_prev (nodes (remove_timer p w) q) = t_prev (nodes w q)"
      using ne by (auto simp: rm(1))
    show "t_next (nodes (remove_timer p w) q)
        = (if q = last xs then ?x else t_next (nodes w q))"
      using ne q b b0 by (auto simp: rm(1))
  next
    fix q
    assume q: "q \<in> set ys"
    have disj: "set (xs @ [p]) \<inter> set ys = {}"
      using d by auto
    have ne: "q \<noteq> p" "q \<noteq> ?b \<or> ?b = nullptr"
      using disj q b0 b in_xs by (metis IntI empty_iff in_set_conv_decomp UnCI set_append)+
    show "t_next (nodes (remove_timer p w) q) = t_next (nodes w q)"
      using ne by (auto simp: rm(1))
    show "t_prev (nodes (remove_timer p w) q)
        = (if q = hd ys then ?b else t_prev (nodes w q))"
      using ne q x x0 by (auto simp: rm(1))
  qed (use d in \<open>auto simp: rm(1)\<close>)
  have rest: "remove1 p (L s) = xs @ ys"
    using d split by (simp add: remove1_append)
  have other: "dll (nodes (remove_timer p w)) t nullptr (tv w t) (L t)" if t: "t \<noteq> s" for t
  proof -
    have in_s: "?b = nullptr \<or> ?b \<in> set (L s)" "?x = nullptr \<or> ?x \<in> set (L s)"
      unfolding split using b x in_xs in_ys by auto
    have "q \<noteq> p \<and> (q = ?b \<longrightarrow> ?b = nullptr) \<and> (q = ?x \<longrightarrow> ?x = nullptr)" if "q \<in> set (L t)" for q
      using that t p in_s bucket_unique [OF dist] by blast
    then have "same_links (nodes (remove_timer p w) q) (nodes w q)" if "q \<in> set (L t)" for q
      using that by (auto simp: rm(1))
    then show ?thesis
      using rep_dll [OF rep, of t] dll_cong [of "L t" "nodes (remove_timer p w)" "nodes w"] by auto
  qed
  have "bucket_distinct (L(s := remove1 p (L s)))"
    using dist set_remove1_subset [of p "L s"] unfolding bucket_distinct_def
    by (auto simp: distinct_remove1)
  moreover have "dll (nodes (remove_timer p w)) t nullptr (tv (remove_timer p w) t)
      ((L(s := remove1 p (L s))) t)" for t
    using this_slot other [of t] b0 by (cases "t = s") (auto simp: rm(2) rest)
  ultimately show "rep (remove_timer p w) (L(s := remove1 p (L s)))"
    by (simp add: rep_def)
qed

end
