(* ===== verification/Wheel_Props.thy ===== *)
theory Wheel_Props
  imports Wheel_Refine
begin

text \<open>
  The theorems about the timer wheel of \<open>src/time_wheel.cpp\<close>: exact firing, sleeping, cancelling,
  and what \<open>next_timeout\<close> and the counter of active timers really deliver.
\<close>

section \<open>Valid wheels\<close>

text \<open>The memory holds the buckets \<open>L\<close> and every timer sits where its expiry is not missed.\<close>

definition wheel_valid :: "time_wheel \<Rightarrow> timer_ptr buckets \<Rightarrow> bool" where
  "wheel_valid w L \<longleftrightarrow> rep w L \<and> wheel_ok (unat (current_tick w)) (expiry w) L"

lemma wheel_valid_init: "wheel_valid (wheel_init ns) (\<lambda>_. [])"
  by (simp add: wheel_valid_def rep_init wheel_ok_def)

lemma wheel_valid_add:
  assumes "wheel_valid w L" and "p \<noteq> nullptr" and "p \<notin> pending L"
    and "current_tick w \<le> expires_at (nodes w p)"
  shows "wheel_valid (add_timer p w) (put (unat (current_tick w)) (expiry w) p L)"
proof -
  have "unat (current_tick w) \<le> expiry w p"
    using assms(4) by (simp add: word_le_nat_alt)
  then have "wheel_ok (unat (current_tick w)) (expiry w) (put (unat (current_tick w)) (expiry w) p L)"
    using assms(1) slot_of_placed(1) by (auto simp: wheel_valid_def wheel_ok_def set_put split: if_splits)
  then show ?thesis
    using assms add_timer_put [of w L p] frame_expiry [OF add_timer_frame [of w p]]
    by (simp add: wheel_valid_def)
qed

lemma wheel_valid_remove:
  assumes "wheel_valid w L" and "p \<in> set (L s)"
  shows "wheel_valid (remove_timer p w) (L(s := remove1 p (L s)))"
proof -
  note rm = remove_timer_rep [of w L p s]
  have r: "rep w L" and ok: "wheel_ok (unat (current_tick w)) (expiry w) L"
    using assms(1) by (simp_all add: wheel_valid_def)
  have "wheel_ok (unat (current_tick w)) (expiry w) (L(s := remove1 p (L s)))"
    using ok set_remove1_subset [of p "L s"] by (auto simp: wheel_ok_def)
  then show ?thesis
    using rm(1) [OF r assms(2)] frame_expiry [OF rm(3) [OF r assms(2)]]
      frame_tick [OF rm(3) [OF r assms(2)]]
    by (simp add: wheel_valid_def)
qed

text \<open>Ticking in one lemma: what fires, what stays, and the counter.\<close>

lemma tick_due:
  assumes "wheel_valid w L"
    and n: "n = unat now - unat (current_tick w)"
    and run: "l_ticks (unat (current_tick w)) (expiry w) n L = (L', ps)"
  shows "\<exists>w'. tick hs now w = Some (w', if hs then map (\<lambda>p. t_handle (nodes w p)) ps else [])
     \<and> wheel_valid w' L' \<and> current_tick w' = max (current_tick w) now
     \<and> active_timers w' = active_timers w + of_nat (moved (unat (current_tick w)) (expiry w) n L)
     \<and> (\<forall>q. expires_at (nodes w' q) = expires_at (nodes w q))
     \<and> (\<forall>q. t_handle (nodes w' q) = t_handle (nodes w q))"
    and "distinct ps" and "set ps = {p \<in> pending L. expires_at (nodes w p) < now}"
    and "sorted (map (\<lambda>p. expires_at (nodes w p)) ps)"
    and "pending L' = {p \<in> pending L. now \<le> expires_at (nodes w p)}"
proof -
  let ?ct = "unat (current_tick w)"
  have r: "rep w L" and ok: "wheel_ok ?ct (expiry w) L"
    using assms(1) by (simp_all add: wheel_valid_def)
  note c = ticks_correct [OF ok rep_distinct [OF r] run]
  have ge: "?ct \<le> expiry w p" if "p \<in> pending L" for p
    by (rule wheel_ok_pending_ge [OF ok that])
  have lt: "expiry w p < ?ct + n \<longleftrightarrow> expires_at (nodes w p) < now" if "p \<in> pending L" for p
    using ge [OF that] n by (auto simp: word_less_nat_alt)
  show "distinct ps"
    using c by blast
  show "set ps = {p \<in> pending L. expires_at (nodes w p) < now}"
    using c lt by blast
  show "pending L' = {p \<in> pending L. now \<le> expires_at (nodes w p)}"
    using c lt by (auto simp flip: linorder_not_less)
  have "sorted (map (expiry w) ps)"
    using c by blast
  then show "sorted (map (\<lambda>p. expires_at (nodes w p)) ps)"
    by (simp add: sorted_map word_le_nat_alt)
  have mx: "?ct + n = max ?ct (unat now)"
    using n by simp
  from tick_loop_rep [OF r ok run mx, of hs "[]"] obtain w' where
    w': "tick hs now w = Some (w', if hs then map (\<lambda>p. t_handle (nodes w p)) ps else [])"
      "rep w' L'" "current_tick w' = max (current_tick w) now"
      "active_timers w' = active_timers w + of_nat (moved ?ct (expiry w) n L)"
      "frame w (w'\<lparr> current_tick := current_tick w \<rparr>)"
    by (auto simp: tick_def)
  have "unat (current_tick w') = ?ct + n"
    using w'(3) mx by (simp add: max_def word_le_nat_alt)
  moreover have "expiry w' = expiry w"
    using w'(5) by (simp add: frame_def)
  ultimately have "wheel_valid w' L'"
    using c w'(2) by (simp add: wheel_valid_def)
  then show "\<exists>w'. tick hs now w = Some (w', if hs then map (\<lambda>p. t_handle (nodes w p)) ps else [])
     \<and> wheel_valid w' L' \<and> current_tick w' = max (current_tick w) now
     \<and> active_timers w' = active_timers w + of_nat (moved ?ct (expiry w) n L)
     \<and> (\<forall>q. expires_at (nodes w' q) = expires_at (nodes w q))
     \<and> (\<forall>q. t_handle (nodes w' q) = t_handle (nodes w q))"
    using w' by (auto simp: frame_def)
qed

section \<open>Ticks without a cascade\<close>

lemma l_ticks_no_cascade:
  assumes "\<And>c. ct \<le> c \<Longrightarrow> c < ct + n \<Longrightarrow> cascade_slots c = []"
  shows "moved ct e n L = 0" and "(\<And>i. s \<noteq> TV1 i) \<Longrightarrow> fst (l_ticks ct e n L) s = L s"
  using assms
proof (induction n arbitrary: ct L)
  case (Suc n)
  {
    case 1
    have "cascade_slots ct = []"
      using 1 by simp
    moreover have "moved (Suc ct) e n L' = 0" for L'
      using 1 by (intro Suc.IH(1)) simp
    ultimately show ?case
      by (simp add: moved_one_def)
  next
    case 2
    have none: "cascade_slots ct = []"
      using 2 by simp
    have "fst (l_ticks (Suc ct) e n L') s = L' s" for L'
      using 2 by (intro Suc.IH(2)) auto
    then show ?case
      using none 2(1) by (simp add: l_tick_one_def Let_def split_beta)
  }
qed simp_all

lemma cascade_slots_inside: "c mod 2 ^ 8 \<noteq> 0 \<or> c = 0 \<Longrightarrow> cascade_slots c = []"
  by (auto simp: cascade_slots_def Let_def)

section \<open>The first level and next_timeout\<close>

lemma first_level_index:
  "unat ((ct + of_nat i) AND TVR_MASK) = (unat ct + i) mod 2 ^ 8"
proof -
  have "unat ((ct + of_nat i) AND TVR_MASK) = unat (ct + of_nat i) mod 2 ^ 8"
    by (rule unat_mask_R)
  also have "\<dots> = (unat ct + unat (of_nat i :: u64)) mod 2 ^ 8"
    by (rule unat_add_mod_pow2) simp
  also have "unat (of_nat i :: u64) mod 2 ^ 8 = i mod 2 ^ 8"
    unfolding unat_of_nat by (rule mod_mod_cancel) (simp add: le_imp_power_dvd)
  then have "(unat ct + unat (of_nat i :: u64)) mod 2 ^ 8 = (unat ct + i) mod 2 ^ 8"
    by (metis mod_add_right_eq)
  finally show ?thesis .
qed

text \<open>A timer in the slot the scan visits at offset \<open>i\<close> expires at \<open>current_tick + i\<close>.\<close>

lemma first_level_expiry:
  assumes "wheel_valid w L" and "p \<in> set (L (TV1 ((unat (current_tick w) + i) mod 2 ^ 8)))"
    and "i < 2 ^ 8"
  shows "expiry w p = unat (current_tick w) + i"
proof -
  let ?ct = "unat (current_tick w)"
  have pl: "expiry w p mod 2 ^ 8 = (?ct + i) mod 2 ^ 8" "?ct \<le> expiry w p" "expiry w p < ?ct + 2 ^ 8"
  proof -
    have "placed ?ct (expiry w p) (TV1 ((?ct + i) mod 2 ^ 8))"
      using assms(1,2) unfolding wheel_valid_def wheel_ok_def by blast
    then show "expiry w p mod 2 ^ 8 = (?ct + i) mod 2 ^ 8" "?ct \<le> expiry w p"
      "expiry w p < ?ct + 2 ^ 8"
      by auto
  qed
  show ?thesis
  proof (cases "?ct + i \<le> expiry w p")
    case True
    then show ?thesis
      using mod_window_unique [of "?ct + i" "expiry w p" "2 ^ 8"] pl by simp
  next
    case False
    then show ?thesis
      using mod_window_unique [of "expiry w p" "?ct + i" "2 ^ 8"] pl assms(3) by simp
  qed
qed

lemma tv_empty_iff: "rep w L \<Longrightarrow> tv w s = nullptr \<longleftrightarrow> L s = []"
  using rep_dll [of w L s] by (cases "L s") auto

lemma scan_finds:
  assumes valid: "wheel_valid w L" and "i + n = 2 ^ 8"
    and before: "\<And>j. j < i \<Longrightarrow> L (TV1 ((unat (current_tick w) + j) mod 2 ^ 8)) = []"
  shows "(\<forall>j < 2 ^ 8. L (TV1 ((unat (current_tick w) + j) mod 2 ^ 8)) = [])
           \<and> next_timeout_scan w now i n = 50
       \<or> (\<exists>j < 2 ^ 8. \<exists>p \<in> set (L (TV1 ((unat (current_tick w) + j) mod 2 ^ 8))).
            (\<forall>k < j. L (TV1 ((unat (current_tick w) + k) mod 2 ^ 8)) = [])
          \<and> next_timeout_scan w now i n
              = (if expires_at (nodes w p) > now then expires_at (nodes w p) - now else 0))"
  using assms(2,3)
proof (induction n arbitrary: i)
  case 0
  then show ?case by simp
next
  case (Suc n)
  let ?s = "TV1 ((unat (current_tick w) + i) mod 2 ^ 8)"
  have rep: "rep w L"
    using valid by (simp add: wheel_valid_def)
  show ?case
  proof (cases "L ?s")
    case Nil
    then have "tv w ?s = nullptr"
      using tv_empty_iff [OF rep] by simp
    then have "next_timeout_scan w now i (Suc n) = next_timeout_scan w now (Suc i) n"
      by (simp add: Let_def first_level_index)
    moreover have "L (TV1 ((unat (current_tick w) + j) mod 2 ^ 8)) = []" if "j < Suc i" for j
      using that Nil Suc.prems(2) by (cases "j = i") auto
    ultimately show ?thesis
      using Suc.IH [of "Suc i"] Suc.prems(1) by simp
  next
    case (Cons p ps)
    then have head: "tv w ?s = p" and "p \<noteq> nullptr"
      using rep_dll [OF rep, of ?s] by auto
    then have "next_timeout_scan w now i (Suc n)
        = (if expires_at (nodes w p) > now then expires_at (nodes w p) - now else 0)"
      by (simp add: Let_def first_level_index)
    moreover have "i < 2 ^ 8" and "p \<in> set (L ?s)"
      using Suc.prems(1) Cons by simp_all
    ultimately show ?thesis
      using Suc.prems(2) by blast
  qed
qed

lemma first_level_all:
  assumes "wheel_valid w L" and "q \<in> set (L (TV1 i))"
  shows "\<exists>j < 2 ^ 8. q \<in> set (L (TV1 ((unat (current_tick w) + j) mod 2 ^ 8)))
    \<and> expiry w q = unat (current_tick w) + j"
proof -
  have "placed (unat (current_tick w)) (expiry w q) (TV1 i)"
    using assms unfolding wheel_valid_def wheel_ok_def by blast
  then have "expiry w q - unat (current_tick w) < 2 ^ 8" and "unat (current_tick w) \<le> expiry w q"
    and "i = expiry w q mod 2 ^ 8"
    by auto
  then show ?thesis
    using assms(2) by (intro exI [of _ "expiry w q - unat (current_tick w)"]) simp
qed

lemma next_timeout_cases:
  assumes valid: "wheel_valid w L" and "active_timers w \<noteq> 0"
  shows "(\<forall>i. L (TV1 i) = []) \<and> next_timeout now w = 50
       \<or> (\<exists>i. \<exists>p \<in> set (L (TV1 i)). (\<forall>k. \<forall>q \<in> set (L (TV1 k)). expiry w p \<le> expiry w q)
          \<and> next_timeout now w
              = (if expires_at (nodes w p) > now then expires_at (nodes w p) - now else 0))"
proof -
  let ?ct = "unat (current_tick w)"
  have nt: "next_timeout now w = next_timeout_scan w now 0 (2 ^ 8)"
    using assms(2) by (simp add: next_timeout_def tv_consts)
  consider (none) "\<forall>j < 2 ^ 8. L (TV1 ((?ct + j) mod 2 ^ 8)) = []" "next_timeout now w = 50"
    | (some) j p where "j < 2 ^ 8" "p \<in> set (L (TV1 ((?ct + j) mod 2 ^ 8)))"
        "\<forall>k < j. L (TV1 ((?ct + k) mod 2 ^ 8)) = []"
        "next_timeout now w
           = (if expires_at (nodes w p) > now then expires_at (nodes w p) - now else 0)"
    using scan_finds [OF valid, of 0 "2 ^ 8" now] unfolding nt by auto
  then show ?thesis
  proof cases
    case none
    then have "L (TV1 i) = []" for i
      using first_level_all [OF valid, of _ i] by (cases "L (TV1 i)") fastforce+
    then show ?thesis using none(2) by blast
  next
    case some
    have "expiry w p \<le> expiry w q" if "q \<in> set (L (TV1 k))" for q k
    proof -
      from first_level_all [OF valid that] obtain m where
        "q \<in> set (L (TV1 ((?ct + m) mod 2 ^ 8)))" and m: "expiry w q = ?ct + m"
        by blast
      then have "\<not> m < j"
        using some(3) by fastforce
      then show ?thesis
        using first_level_expiry [OF valid some(2,1)] m by simp
    qed
    then show ?thesis
      using some(2,4) by blast
  qed
qed

section \<open>Removing from the set of buckets\<close>

lemma pending_remove1:
  assumes "bucket_distinct L" and "p \<in> set (L s)"
  shows "pending (L(s := remove1 p (L s))) = pending L - {p}"
proof -
  have "distinct (L s)"
    using assms(1) unfolding bucket_distinct_def by blast
  then have "set ((L(s := remove1 p (L s))) t) = set (L t) - {p}" for t
    using bucket_unique [OF assms, of t] by auto
  then show ?thesis
    unfolding pending_def by blast
qed

text \<open>Filling in a node that is not in the wheel disturbs nothing.\<close>

lemma wheel_valid_fill:
  assumes valid: "wheel_valid w L" and p: "p \<notin> pending L"
  shows "wheel_valid (upd_node p (\<lambda>n. n\<lparr> expires_at := x, t_handle := h \<rparr>) w) L"
proof -
  let ?w = "upd_node p (\<lambda>n. n\<lparr> expires_at := x, t_handle := h \<rparr>) w"
  have "dll (nodes ?w) s nullptr (tv ?w s) (L s)" for s
  proof -
    have "dll (nodes ?w) s nullptr (tv w s) (L s) = dll (nodes w) s nullptr (tv w s) (L s)"
      by (rule dll_cong) (simp add: same_links_def upd_node_def)
    then show ?thesis
      using valid rep_dll [of w L s] by (simp add: wheel_valid_def upd_node_def)
  qed
  moreover have "expiry ?w q = expiry w q" if "q \<in> set (L s)" for q s
    using pendingI [of q L s] that p by (auto simp: upd_node_def)
  ultimately show ?thesis
    using valid by (auto simp: wheel_valid_def rep_def wheel_ok_def upd_node_def)
qed

section \<open>What the wheel promises\<close>

lemma distinct_set_singleton: "distinct xs \<Longrightarrow> set xs = {x} \<Longrightarrow> xs = [x]"
  by (metis distinct.simps(2) insert_iff list.set_cases list.set_intros(1) list.simps(15)
      neq_Nil_conv singletonD)

lemma distinct_filter_eq: "distinct xs \<Longrightarrow> filter ((=) a) xs = (if a \<in> set xs then [a] else [])"
  by (induction xs) auto

text \<open>
  C2: \<open>tick\<close> ends on every well-formed wheel and resumes exactly the pending timers whose
  expiry lies strictly before the given time, each once, in order of expiry; all others stay
  pending in a well-formed wheel whose current tick has reached that time.
\<close>

theorem tick_fires_exactly_due:
  assumes "wheel_valid w L"
  shows "\<exists>w' L' ps. tick True now w = Some (w', map (\<lambda>p. t_handle (nodes w p)) ps)
     \<and> distinct ps \<and> set ps = {p \<in> pending L. expires_at (nodes w p) < now}
     \<and> sorted (map (\<lambda>p. expires_at (nodes w p)) ps)
     \<and> wheel_valid w' L' \<and> pending L' = {p \<in> pending L. now \<le> expires_at (nodes w p)}
     \<and> current_tick w' = max (current_tick w) now"
proof -
  let ?n = "unat now - unat (current_tick w)"
  obtain L' ps where "l_ticks (unat (current_tick w)) (expiry w) ?n L = (L', ps)"
    by fastforce
  note due = tick_due [OF assms refl this]
  from due(1) [of True] show ?thesis
    using due(2-5) by auto
qed

definition sample_nodes :: "timer_ptr \<Rightarrow> timer_node" where
  "sample_nodes p = \<lparr> expires_at = p, t_handle = p + 1, t_next = 0, t_prev = 0, t_head_ptr = None \<rparr>"

lemma pending_empty [simp]: "pending (\<lambda>_. []) = {}"
  by (simp add: pending_def)

lemma wheel_init_active: "active_timers (wheel_init ns) = 0" "current_tick (wheel_init ns) = 0"
  by (simp_all add: wheel_init_def)

lemma sample_valid: "wheel_valid (add_timer 300 (wheel_init sample_nodes)) (put 0 unat 300 (\<lambda>_. []))"
proof -
  have "expiry (wheel_init sample_nodes) = unat"
    by (simp add: fun_eq_iff wheel_init_def sample_nodes_def)
  then show ?thesis
    using wheel_valid_add [OF wheel_valid_init, of 300 sample_nodes]
    by (simp add: wheel_init_def sample_nodes_def)
qed

lemma sample_expires: "expires_at (nodes (add_timer p (wheel_init sample_nodes)) q) = q"
  "t_handle (nodes (add_timer p (wheel_init sample_nodes)) q) = q + 1"
  using add_timer_frame [of "wheel_init sample_nodes" p]
  by (simp_all add: frame_def wheel_init_def sample_nodes_def)

theorem tick_fires_exactly_due_witness:
  "map_option snd (tick True 301 (add_timer 300 (wheel_init sample_nodes))) = Some [301]"
proof -
  from tick_fires_exactly_due [OF sample_valid, of 301] obtain w' ps where
    run: "tick True 301 (add_timer 300 (wheel_init sample_nodes)) = Some (w', map (\<lambda>p. p + 1) ps)"
    and ps: "distinct ps" "set ps = {p \<in> {300}. p < 301}"
    unfolding sample_expires pending_put pending_empty by blast
  have "{p \<in> {300::addr}. p < 301} = {300}"
    by force
  then have "ps = [300]"
    using ps by (intro distinct_set_singleton) simp_all
  then show ?thesis
    using run by simp
qed

text \<open>
  A coroutine that sleeps \<open>ms\<close> from the time \<open>t0\<close> on is resumed by a later \<open>tick\<close> exactly
  once, and by the first \<open>tick\<close> whose time lies strictly beyond its deadline \<open>t0 + ms\<close>; the
  sleep counts as one more active timer.
\<close>

lemma sleep_wakes_on_time:
  assumes "wheel_valid w L" and "node \<noteq> nullptr" and "node \<notin> pending L"
    and "current_tick w \<le> t0" and "unat t0 + unat ms < 2 ^ 64"
    and "\<forall>q \<in> pending L. t_handle (nodes w q) \<noteq> h"
  shows "active_timers (sleep_await_suspend True t0 ms h node w) = active_timers w + 1
     \<and> (\<exists>w' hs. tick True now (sleep_await_suspend True t0 ms h node w) = Some (w', hs)
         \<and> count_list hs h = (if t0 + ms < now then 1 else 0))"
proof -
  let ?f = "upd_node node (\<lambda>n. n\<lparr> expires_at := t0 + ms, t_handle := h \<rparr>) w"
  let ?w = "sleep_await_suspend True t0 ms h node w"
  have w: "?w = add_timer node ?f"
    by (simp add: sleep_await_suspend_def)
  have "unat (t0 + ms) = unat t0 + unat ms"
    using assms(5) by (simp add: unat_plus_if')
  then have "current_tick w \<le> t0 + ms"
    using assms(4) by (simp add: word_le_nat_alt)
  then have valid: "wheel_valid ?w (put (unat (current_tick w)) (expiry ?f) node L)"
    using wheel_valid_add [OF wheel_valid_fill [OF assms(1,3)] assms(2,3), of h "t0 + ms"]
    by (simp add: w upd_node_def)
  have handles: "t_handle (nodes ?w q) = (if q = node then h else t_handle (nodes w q))" for q
    using frame_handle [OF add_timer_frame [of ?f node], of q] by (simp add: w upd_node_def)
  have exp: "expires_at (nodes ?w node) = t0 + ms"
    using add_timer_frame [of ?f node] unfolding w by (simp add: frame_def upd_node_def)
  obtain L' ps where "l_ticks (unat (current_tick ?w)) (expiry ?w)
      (unat now - unat (current_tick ?w)) (put (unat (current_tick w)) (expiry ?f) node L) = (L', ps)"
    by fastforce
  note due = tick_due [OF valid refl this]
  from due(1) [of True] obtain w' where
    run: "tick True now ?w = Some (w', map (\<lambda>p. t_handle (nodes ?w p)) ps)"
    by auto
  have mine: "t_handle (nodes ?w p) = h \<longleftrightarrow> p = node" if "p \<in> set ps" for p
    using that due(3) assms(6) handles by (cases "p = node") auto
  have "count_list (map (\<lambda>p. t_handle (nodes ?w p)) ps) h
      = length (filter (\<lambda>p. t_handle (nodes ?w p) = h) ps)"
    by (simp add: count_list_eq_length_filter filter_map o_def eq_commute)
  also have "filter (\<lambda>p. t_handle (nodes ?w p) = h) ps = filter ((=) node) ps"
    using mine by (intro filter_cong) auto
  also have "length \<dots> = (if node \<in> set ps then 1 else 0)"
    using due(2) by (simp add: distinct_filter_eq)
  also have "node \<in> set ps \<longleftrightarrow> t0 + ms < now"
    using due(3) exp by simp
  finally show ?thesis
    using run by (simp add: w add_timer_active upd_node_def)
qed

lemma sleep_wakes_on_time_instance:
  "\<exists>w' hs. tick True 301 (sleep_await_suspend True 100 200 77 8 (wheel_init sample_nodes)) = Some (w', hs)
     \<and> count_list hs 77 = 1"
  using sleep_wakes_on_time [OF wheel_valid_init, of 8 sample_nodes 100 200 77 301]
  by (simp add: wheel_init_def)

text \<open>
  Removing a pending timer takes it, and only it, out of the wheel, lowers the counter by
  one, and no later \<open>tick\<close> resumes it, while all the other due timers are still resumed.
\<close>

lemma remove_timer_cancels:
  assumes "wheel_valid w L" and "p \<in> pending L"
  shows "active_timers (remove_timer p w) = active_timers w - 1
     \<and> (\<exists>L'. wheel_valid (remove_timer p w) L' \<and> pending L' = pending L - {p})
     \<and> (\<exists>w' ps. tick True now (remove_timer p w) = Some (w', map (\<lambda>q. t_handle (nodes w q)) ps)
          \<and> distinct ps \<and> set ps = {q \<in> pending L - {p}. expires_at (nodes w q) < now})"
proof -
  obtain s where s: "p \<in> set (L s)"
    using assms(2) by (rule pendingE)
  have rep: "rep w L"
    using assms(1) by (simp add: wheel_valid_def)
  let ?L = "L(s := remove1 p (L s))" and ?w = "remove_timer p w"
  note valid = wheel_valid_remove [OF assms(1) s]
  note pend = pending_remove1 [OF rep_distinct [OF rep] s]
  have same: "expires_at (nodes ?w q) = expires_at (nodes w q)"
    "t_handle (nodes ?w q) = t_handle (nodes w q)" for q
    using remove_timer_rep(3) [OF rep s] by (simp_all add: frame_def)
  obtain L' ps where "l_ticks (unat (current_tick ?w)) (expiry ?w)
      (unat now - unat (current_tick ?w)) ?L = (L', ps)"
    by fastforce
  note due = tick_due [OF valid refl this]
  from due(1) [of True] have
    "\<exists>w'. tick True now ?w = Some (w', map (\<lambda>q. t_handle (nodes w q)) ps)"
    by (auto simp: same)
  moreover have "set ps = {q \<in> pending L - {p}. expires_at (nodes w q) < now}"
    using due(3) by (simp add: pend same)
  ultimately show ?thesis
    using due(2) valid pend remove_timer_rep(2) [OF rep s] by blast
qed

lemma remove_timer_cancels_instance:
  "map_option snd (tick True 301 (remove_timer 300 (add_timer 300 (wheel_init sample_nodes)))) = Some []"
  using remove_timer_cancels [OF sample_valid, of 300 301] by auto

text \<open>
  When every pending timer sits in the first level, \<open>next_timeout\<close> is the time left until
  the earliest expiry among all pending timers, and 0 when that has passed.
\<close>

lemma next_timeout_is_earliest:
  assumes "wheel_valid w L" and "active_timers w \<noteq> 0" and "pending L \<noteq> {}"
    and "\<forall>s. L s \<noteq> [] \<longrightarrow> (\<exists>i. s = TV1 i)"
  shows "\<exists>p \<in> pending L. (\<forall>q \<in> pending L. expires_at (nodes w p) \<le> expires_at (nodes w q))
     \<and> next_timeout now w
         = (if expires_at (nodes w p) > now then expires_at (nodes w p) - now else 0)"
proof -
  have first: "\<exists>i. q \<in> set (L (TV1 i))" if "q \<in> pending L" for q
    using that assms(4) by (metis pendingE list.set(1) empty_iff)
  from next_timeout_cases [OF assms(1,2), of now] first assms(3) obtain i p where
    p: "p \<in> set (L (TV1 i))" "\<forall>k. \<forall>q \<in> set (L (TV1 k)). expiry w p \<le> expiry w q"
      "next_timeout now w = (if expires_at (nodes w p) > now then expires_at (nodes w p) - now else 0)"
    by (metis ex_in_conv list.set(1))
  have "\<forall>q \<in> pending L. expires_at (nodes w p) \<le> expires_at (nodes w q)"
    using first p(2) unfolding word_le_nat_alt by blast
  then show ?thesis
    using pendingI [of p L "TV1 i"] p(1,3) by (intro bexI [of _ p] conjI) simp_all
qed

lemma next_timeout_is_earliest_instance:
  "next_timeout 4 (add_timer 10 (wheel_init sample_nodes)) = 6"
proof -
  have "wheel_valid (add_timer 10 (wheel_init sample_nodes)) (put 0 unat 10 (\<lambda>_. []))"
  proof -
    have "expiry (wheel_init sample_nodes) = unat"
      by (simp add: fun_eq_iff wheel_init_def sample_nodes_def)
    then show ?thesis
      using wheel_valid_add [OF wheel_valid_init, of 10 sample_nodes]
      by (simp add: wheel_init_def sample_nodes_def)
  qed
  moreover have "\<forall>s. put 0 unat (10::addr) (\<lambda>_. []) s \<noteq> [] \<longrightarrow> (\<exists>i. s = TV1 i)"
    by (simp add: put_def slot_of_def)
  ultimately show ?thesis
    using next_timeout_is_earliest [of "add_timer 10 (wheel_init sample_nodes)" "put 0 unat 10 (\<lambda>_. [])" 4]
    by (simp add: sample_expires add_timer_active wheel_init_active)
qed

lemma no_pending: "pending L = {} \<Longrightarrow> L = (\<lambda>_. [])"
  by (auto simp: pending_def fun_eq_iff)

text \<open>
  Firing a timer does not take it off the counter of active timers. After the only timer of
  a wheel has fired the wheel holds no timer at all, but \<open>active_timers\<close> still reads 1, and
  \<open>next_timeout\<close> answers 50 ms at every later time instead of the "no timer" value.
\<close>

lemma fired_timer_stays_counted:
  assumes "p \<noteq> nullptr" and "expires_at (ns p) < 256" and "expires_at (ns p) < now" and "now \<le> 256"
  shows "\<exists>w'. tick True now (add_timer p (wheel_init ns)) = Some (w', [t_handle (ns p)])
     \<and> wheel_valid w' (\<lambda>_. []) \<and> active_timers w' = 1 \<and> (\<forall>t. next_timeout t w' = 50)"
proof -
  let ?w = "add_timer p (wheel_init ns)" and ?L = "put 0 (expiry (wheel_init ns)) p (\<lambda>_. [])"
  have valid: "wheel_valid ?w ?L"
    using wheel_valid_add [OF wheel_valid_init assms(1)] by (simp add: wheel_init_def)
  have same: "expires_at (nodes ?w q) = expires_at (ns q)" "t_handle (nodes ?w q) = t_handle (ns q)" for q
    using add_timer_frame [of "wheel_init ns" p] by (simp_all add: frame_def wheel_init_def)
  have start: "current_tick ?w = 0"
    by (simp add: wheel_init_active)
  obtain L' ps where run: "l_ticks (unat (current_tick ?w)) (expiry ?w)
      (unat now - unat (current_tick ?w)) ?L = (L', ps)"
    by fastforce
  note due = tick_due [OF valid refl run]
  have "unat now \<le> 256"
    using assms(4) by (simp add: word_le_nat_alt)
  then have "cascade_slots c = []" if "c < unat now" for c
    using that cascade_slots_inside [of c] by auto
  then have "moved 0 (expiry ?w) (unat now) ?L = 0"
    by (intro l_ticks_no_cascade(1)) simp
  then have count: "\<exists>w'. tick True now ?w = Some (w', map (\<lambda>q. t_handle (ns q)) ps)
      \<and> wheel_valid w' L' \<and> active_timers w' = 1"
    using due(1) [of True] by (auto simp: same add_timer_active wheel_init_active)
  have "pending L' = {}"
    using due(5) assms(3) by (auto simp: same)
  then have none: "L' = (\<lambda>_. [])"
    by (rule no_pending)
  have "set ps = {p}"
    using due(3) assms(3) by (auto simp: same)
  then have "ps = [p]"
    by (rule distinct_set_singleton [OF due(2)])
  then obtain w' where w': "tick True now ?w = Some (w', [t_handle (ns p)])"
      "wheel_valid w' (\<lambda>_. [])" "active_timers w' = 1"
    using count none by auto
  then have "next_timeout t w' = 50" for t
    using next_timeout_cases [of w' "\<lambda>_. []" t] by simp
  then show ?thesis
    using w' by blast
qed

lemma fired_timer_stays_counted_instance:
  "\<exists>w'. tick True 6 (add_timer 5 (wheel_init sample_nodes)) = Some (w', [6]) \<and> active_timers w' = 1"
  using fired_timer_stays_counted [of 5 sample_nodes 6] by (auto simp: sample_nodes_def)

text \<open>
  C40: \<open>next_timeout\<close> looks at the first level only. With a timer that expires at 266 waiting in
  the second level and one that expires at 455 in the first, the wheel at time 255 answers 200 ms,
  so the idle scheduler may oversleep the earlier timer by up to 189 ms.
\<close>

theorem next_timeout_oversleeps:
  "\<exists>w1. tick True 255 (add_timer 266 (wheel_init sample_nodes)) = Some (w1, [])
     \<and> (\<exists>L. wheel_valid (add_timer 455 w1) L \<and> pending L = {266, 455}
          \<and> expires_at (nodes (add_timer 455 w1) 266) = 266)
     \<and> next_timeout 255 (add_timer 455 w1) = 200"
proof -
  let ?w = "add_timer 266 (wheel_init sample_nodes)" and ?L = "put 0 unat (266 :: addr) (\<lambda>_. [])"
  have e: "expiry (wheel_init sample_nodes) = unat" "expiry ?w = unat"
    by (simp add: fun_eq_iff wheel_init_def sample_nodes_def) (simp add: fun_eq_iff sample_expires)
  have valid: "wheel_valid ?w ?L"
    using wheel_valid_add [OF wheel_valid_init, of 266 sample_nodes] e(1)
    by (simp add: wheel_init_def sample_nodes_def)
  have start: "current_tick ?w = 0"
    by (simp add: wheel_init_active)
  obtain L1 ps where run: "l_ticks (unat (current_tick ?w)) (expiry ?w)
      (unat (255 :: u64) - unat (current_tick ?w)) ?L = (L1, ps)"
    by fastforce
  note due = tick_due [OF valid refl run]
  have split: "{p \<in> {266::addr}. p < 255} = {}" "{p \<in> {266::addr}. 255 \<le> p} = {266}"
    by force+
  have none: "ps = []" and pend1: "pending L1 = {266}"
    using due(3,5) unfolding sample_expires pending_put pending_empty split by simp_all
  have quiet: "cascade_slots c = []" if "c < 255" for c
    using that cascade_slots_inside [of c] by auto
  have "fst (l_ticks 0 unat 255 ?L) (TV2 1) = ?L (TV2 1)"
    by (intro l_ticks_no_cascade(2)) (simp_all add: quiet)
  then have second: "L1 (TV2 1) = [266]"
    using run by (simp add: e(2) wheel_init_active) (simp add: put_def slot_of_def)
  from due(1) [of True] none obtain w1 where
    w1: "tick True 255 ?w = Some (w1, [])" "wheel_valid w1 L1" "current_tick w1 = 255"
      "active_timers w1 = 1 + of_nat (moved 0 unat 255 ?L)"
      "\<And>q. expires_at (nodes w1 q) = q"
    unfolding sample_expires e(2) start by (auto simp: add_timer_active wheel_init_active)
  let ?w2 = "add_timer 455 w1" and ?L2 = "put 255 unat 455 L1"
  have "moved 0 unat 255 ?L = 0"
    by (intro l_ticks_no_cascade(1)) (simp add: quiet)
  then have "active_timers ?w2 \<noteq> 0"
    using w1(4) by (simp add: add_timer_active)
  have e1: "expiry w1 = unat" and e2: "expires_at (nodes ?w2 q) = q" for q
    using w1(5) add_timer_frame [of w1 455] by (simp_all add: frame_def)
  have valid2: "wheel_valid ?w2 ?L2"
    using wheel_valid_add [OF w1(2), of 455] by (simp add: pend1 e1 w1(3,5))
  have "L1 (TV1 i) = []" for i
    using pend1 pendingI [of _ L1 "TV1 i"] second
      bucket_unique [OF rep_distinct, of w1 L1 266 "TV2 1" "TV1 i"] w1(2)
    by (cases "L1 (TV1 i)") (auto simp: wheel_valid_def)
  then have first: "q \<in> set (?L2 (TV1 i)) \<longleftrightarrow> q = 455 \<and> i = 199" for q i
    by (auto simp: put_def slot_of_def)
  then have "?L2 (TV1 199) \<noteq> []"
    by (metis empty_iff list.set(1))
  then have "next_timeout 255 ?w2 = 200"
    using next_timeout_cases [OF valid2 \<open>active_timers ?w2 \<noteq> 0\<close>, of 255] first
    by (auto simp: e2)
  then show ?thesis
    using w1(1) valid2 e2 by (intro exI [of _ w1] conjI exI [of _ ?L2]) (simp_all add: pend1 insert_commute)
qed

end
