(* ===== verification/Metrics.thy ===== *)
theory Metrics
  imports Novaio_Prelude
begin

text \<open>
  \<open>include/novaio/metrics.hpp\<close>, with metrics enabled: the counters of a thread and the registry of
  pointers to them. The counters are \<open>thread_local\<close>, so their storage ends with the thread: the
  memory maps an address to the counters of a thread that is still running.
\<close>

record tcm_metrics =
  tasks_executed :: u64
  io_events_reaped :: u64
  inbox_messages_processed :: u64

definition metrics_zero :: tcm_metrics where
  "metrics_zero = \<lparr> tasks_executed = 0, io_events_reaped = 0, inbox_messages_processed = 0 \<rparr>"

definition metrics_record_task_executed :: "tcm_metrics \<Rightarrow> tcm_metrics" where
  "metrics_record_task_executed m = m\<lparr> tasks_executed := tasks_executed m + 1 \<rparr>"

definition metrics_record_io_event :: "tcm_metrics \<Rightarrow> tcm_metrics" where
  "metrics_record_io_event m = m\<lparr> io_events_reaped := io_events_reaped m + 1 \<rparr>"

definition metrics_record_inbox_processed :: "tcm_metrics \<Rightarrow> tcm_metrics" where
  "metrics_record_inbox_processed m = m\<lparr> inbox_messages_processed := inbox_messages_processed m + 1 \<rparr>"

type_synonym metrics_memory = "addr \<Rightarrow> tcm_metrics option"

definition register_thread :: "addr \<Rightarrow> addr list \<Rightarrow> addr list" where
  "register_thread m registry = registry @ [m]"

fun unregister_thread :: "addr \<Rightarrow> addr list \<Rightarrow> addr list" where
  "unregister_thread m [] = []"
| "unregister_thread m (p # ps) = (if p = m then ps else p # unregister_thread m ps)"

text \<open>The sum over the registered threads; \<open>None\<close> is a read through a dangling pointer.\<close>

fun aggregate_from :: "metrics_memory \<Rightarrow> addr list \<Rightarrow> tcm_metrics \<Rightarrow> tcm_metrics option" where
  "aggregate_from mem [] acc = Some acc"
| "aggregate_from mem (p # ps) acc =
     (case mem p of
        None \<Rightarrow> None
      | Some m \<Rightarrow> aggregate_from mem ps
          \<lparr> tasks_executed = tasks_executed acc + tasks_executed m,
            io_events_reaped = io_events_reaped acc + io_events_reaped m,
            inbox_messages_processed = inbox_messages_processed acc + inbox_messages_processed m \<rparr>)"

definition aggregate :: "metrics_memory \<Rightarrow> addr list \<Rightarrow> tcm_metrics option" where
  "aggregate mem registry = aggregate_from mem registry metrics_zero"

text \<open>
  The life of a scheduler: \<open>run\<close> registers the counters of the worker thread; the destructor
  unregisters the counters of the thread that destroys the scheduler.
\<close>

definition scheduler_run_metrics :: "addr \<Rightarrow> addr list \<Rightarrow> addr list" where
  "scheduler_run_metrics worker_tls registry = register_thread worker_tls registry"

definition scheduler_destroy_metrics :: "addr \<Rightarrow> addr list \<Rightarrow> addr list" where
  "scheduler_destroy_metrics destroying_tls registry = unregister_thread destroying_tls registry"

section \<open>Counters as a sum\<close>

instantiation tcm_metrics_ext :: (comm_monoid_add) comm_monoid_add
begin

definition zero_tcm_metrics_ext :: "'a tcm_metrics_ext" where
  "zero_tcm_metrics_ext = \<lparr> tasks_executed = 0, io_events_reaped = 0, inbox_messages_processed = 0, \<dots> = 0 \<rparr>"

definition plus_tcm_metrics_ext :: "'a tcm_metrics_ext \<Rightarrow> 'a tcm_metrics_ext \<Rightarrow> 'a tcm_metrics_ext" where
  "plus_tcm_metrics_ext a b = \<lparr> tasks_executed = tasks_executed a + tasks_executed b,
     io_events_reaped = io_events_reaped a + io_events_reaped b,
     inbox_messages_processed = inbox_messages_processed a + inbox_messages_processed b,
     \<dots> = tcm_metrics.more a + tcm_metrics.more b \<rparr>"

instance
  by standard (simp_all add: zero_tcm_metrics_ext_def plus_tcm_metrics_ext_def ac_simps)

end

lemma metrics_zero_eq: "metrics_zero = 0"
  by (simp add: metrics_zero_def zero_tcm_metrics_ext_def)

lemma metrics_plus_eq: "\<lparr> tasks_executed = tasks_executed a + tasks_executed b,
     io_events_reaped = io_events_reaped a + io_events_reaped b,
     inbox_messages_processed = inbox_messages_processed a + inbox_messages_processed b \<rparr> = (a + b :: tcm_metrics)"
  by (simp add: plus_tcm_metrics_ext_def)

section \<open>Properties\<close>

lemma aggregate_from_sum:
  "\<forall>p \<in> set ps. mem p \<noteq> None \<Longrightarrow> aggregate_from mem ps acc = Some (acc + (\<Sum>p\<leftarrow>ps. the (mem p)))"
  by (induction ps arbitrary: acc) (auto simp: metrics_plus_eq add.assoc)

lemma aggregate_from_dangling:
  "p \<in> set ps \<Longrightarrow> mem p = None \<Longrightarrow> aggregate_from mem ps acc = None"
  by (induction ps arbitrary: acc) (auto split: option.splits)

lemma unregister_thread_remove1: "unregister_thread m ps = remove1 m ps"
  by (induction ps) auto

text \<open>
  \<open>aggregate\<close> is the sum of every counter over the registered threads (modulo \<open>2^64\<close>), provided
  all of them are still running; with one that has ended it reads freed memory.
\<close>

lemma aggregate_sums:
  "aggregate mem registry =
     (if \<exists>p \<in> set registry. mem p = None then None else Some (\<Sum>p\<leftarrow>registry. the (mem p)))"
  using aggregate_from_sum [of registry mem metrics_zero] aggregate_from_dangling [of _ registry mem metrics_zero]
  by (auto simp: aggregate_def metrics_zero_eq)

text \<open>The events a thread counts, and the threads counting events in any order.\<close>

datatype metric_event = TaskExecuted | IoEvent | InboxProcessed

fun count_event :: "metric_event \<Rightarrow> tcm_metrics \<Rightarrow> tcm_metrics" where
  "count_event TaskExecuted m = metrics_record_task_executed m"
| "count_event IoEvent m = metrics_record_io_event m"
| "count_event InboxProcessed m = metrics_record_inbox_processed m"

fun count_events :: "(addr \<times> metric_event) list \<Rightarrow> metrics_memory \<Rightarrow> metrics_memory" where
  "count_events [] mem = mem"
| "count_events ((p, ev) # evs) mem = count_events evs (mem(p := map_option (count_event ev) (mem p)))"

lemma count_event_plus: "count_event ev m = m + count_event ev 0"
  by (cases ev) (simp_all add: metrics_record_task_executed_def metrics_record_io_event_def
      metrics_record_inbox_processed_def plus_tcm_metrics_ext_def zero_tcm_metrics_ext_def)

text \<open>
  However the registered threads count, \<open>aggregate\<close> afterwards has gone up by exactly the events, each
  under its own counter (modulo \<open>2^64\<close>).
\<close>

lemma aggregate_counts:
  assumes "distinct registry" and "fst ` set evs \<subseteq> set registry" and "aggregate mem registry = Some so_far"
  shows "aggregate (count_events evs mem) registry = Some (so_far + (\<Sum>(p, ev)\<leftarrow>evs. count_event ev 0))"
  using assms(2,3)
proof (induction evs arbitrary: mem so_far)
  case (Cons pe evs)
  obtain p ev where pe: "pe = (p, ev)"
    by (cases pe)
  let ?mem = "mem(p := map_option (count_event ev) (mem p))"
  have alive: "\<forall>q \<in> set registry. mem q \<noteq> None" and so_far: "so_far = (\<Sum>q\<leftarrow>registry. the (mem q))"
    using Cons.prems(2) by (auto simp: aggregate_sums split: if_splits)
  have p: "p \<in> set registry"
    using Cons.prems(1) pe by simp
  have "(\<Sum>q\<leftarrow>registry. the (?mem q)) = (\<Sum>q\<leftarrow>registry. the (mem q)) + count_event ev 0"
    using p alive assms(1)
  proof (induction registry)
    case (Cons q qs)
    have "(\<Sum>q\<leftarrow>qs. the (?mem q)) = (\<Sum>q\<leftarrow>qs. the (mem q))" if "q = p"
      using Cons.prems(3) that by (intro arg_cong [of _ _ sum_list] map_cong) auto
    then show ?case
      using Cons count_event_plus [of ev "the (mem p)"] by (cases "q = p") (auto simp: ac_simps)
  qed simp
  then have "aggregate ?mem registry = Some (so_far + count_event ev 0)"
    using alive so_far by (auto simp: aggregate_sums)
  from Cons.IH [OF _ this] show ?case
    using Cons.prems(1) pe by (simp add: add.assoc del: fun_upd_apply)
qed simp

text \<open>
  A scheduler that ran on a worker thread and is destroyed by another thread leaves the
  worker's counters registered; once the worker has ended, \<open>aggregate\<close> reads freed memory.
\<close>

lemma destroyed_scheduler_dangles:
  assumes "worker \<noteq> destroyer" and "worker \<notin> set registry"
  shows "worker \<in> set (scheduler_destroy_metrics destroyer (scheduler_run_metrics worker registry))
     \<and> (mem worker = None \<longrightarrow>
          aggregate mem (scheduler_destroy_metrics destroyer (scheduler_run_metrics worker registry)) = None)"
proof -
  have "worker \<in> set (unregister_thread destroyer (register_thread worker registry))"
    using assms(1) by (simp add: unregister_thread_remove1 register_thread_def in_set_remove1)
  then show ?thesis
    using aggregate_from_dangling
    by (simp add: scheduler_destroy_metrics_def scheduler_run_metrics_def aggregate_def)
qed

lemma destroyed_scheduler_dangles_instance:
  "aggregate (\<lambda>_. None) (scheduler_destroy_metrics 16 (scheduler_run_metrics 8 [])) = None"
  using destroyed_scheduler_dangles [of 8 16 "[]" "\<lambda>_. None"] by simp

end
