(* ===== verification/Scheduler.thy ===== *)
theory Scheduler
  imports Spsc_Queue Wheel_Props Io_Engine Metrics
begin

text \<open>
  \<open>Scheduler\<close> of \<open>include/novaio/scheduler.hpp\<close> and \<open>src/scheduler.cpp\<close>: the run queue (the
  \<open>runnext_\<close> slot in front of the local queue), the inbox, the timer wheel and the engine, and the
  worker's loop over them. What coroutines, tasks and multishot callbacks do is the user's code, a
  parameter: a \<open>program\<close> tells which scheduler operations each of them calls, from a user state
  that it threads through. The clock, the completions and the answers of the kernel are inputs of
  each iteration.
\<close>

section \<open>The run queue\<close>

definition BATCH_PIPELINE_DEPTH :: nat where
  "BATCH_PIPELINE_DEPTH = 16"

text \<open>
  \<open>runnext_\<close> and \<open>local_queue_\<close>. Three histories follow them: the calls of \<open>schedule\<close>, the handles
  handed out in batches, and whether a call ever pushed onto a full local queue or passed a null
  handle.
\<close>

record run_queue =
  rq_next :: handle
  rq_local :: local_queue
  rq_calls :: "handle list"
  rq_taken :: "handle list"
  rq_fault :: bool

definition rq_schedule :: "handle \<Rightarrow> run_queue \<Rightarrow> run_queue" where
  "rq_schedule h q =
     (if rq_next q = nullptr
      then q\<lparr> rq_next := h, rq_calls := rq_calls q @ [h], rq_fault := (rq_fault q \<or> h = nullptr) \<rparr>
      else q\<lparr> rq_local := lq_push h (rq_local q), rq_calls := rq_calls q @ [h],
              rq_fault := (rq_fault q \<or> h = nullptr \<or> lq_room (rq_local q) = 0) \<rparr>)"

text \<open>The loop of \<open>try_dequeue_batch\<close>, with \<open>n\<close> places left in the batch.\<close>

fun dequeue_loop :: "nat \<Rightarrow> local_queue \<Rightarrow> handle list \<times> local_queue" where
  "dequeue_loop 0 q = ([], q)"
| "dequeue_loop (Suc n) q =
     (let (h, q1) = lq_pop q in
      if h \<noteq> nullptr then (let (hs, q2) = dequeue_loop n q1 in (h # hs, q2))
      else ([], q1))"

definition try_dequeue_batch :: "nat \<Rightarrow> run_queue \<Rightarrow> handle list \<times> run_queue" where
  "try_dequeue_batch max_count q =
     (let first = (if rq_next q \<noteq> nullptr then [rq_next q] else []);
          (hs, l) = dequeue_loop (max_count - length first) (rq_local q)
      in (first @ hs, q\<lparr> rq_next := nullptr, rq_local := l, rq_taken := rq_taken q @ first @ hs \<rparr>))"

section \<open>The scheduler and the code it runs\<close>

datatype 'c action =
    Schedule handle                       \<comment> \<open>\<open>Scheduler::current()->schedule(h)\<close>\<close>
  | Sleep timer_ptr handle u64 u64        \<comment> \<open>node, coroutine, clock, milliseconds\<close>
  | Dispatch nat "'c option"              \<comment> \<open>\<open>Runtime::dispatch_on(core, task)\<close>\<close>
  | Queue sqe                             \<comment> \<open>an engine request\<close>

record ('c, 'e) program =
  pg_resume :: "handle \<Rightarrow> 'e \<Rightarrow> 'c action list \<times> 'e"
  pg_done :: "handle \<Rightarrow> 'e \<Rightarrow> bool"
  pg_task :: "'c \<Rightarrow> 'e \<Rightarrow> 'c action list \<times> 'e"
  pg_multi :: "addr \<Rightarrow> int \<Rightarrow> u32 \<Rightarrow> 'e \<Rightarrow> 'c action list \<times> 'e"

record ('c, 'e) scheduler =
  sc_id :: nat
  sc_fd :: int
  sc_rq :: run_queue
  sc_inbox :: "'c option spsc_queue"
  sc_wheel :: time_wheel
  sc_last_tick :: u64
  sc_contexts :: io_heap
  sc_queued :: "sqe list"
  sc_submitted :: "sqe list"
  sc_metrics :: tcm_metrics
  sc_outbox :: "(nat \<times> 'c option) list"
  sc_env :: 'e

text \<open>A new scheduler with local queue and inbox of the given capacities (by default both 65536).\<close>

definition scheduler_new :: "nat \<Rightarrow> int \<Rightarrow> (timer_ptr \<Rightarrow> timer_node) \<Rightarrow> 'e \<Rightarrow> u64 \<Rightarrow> u64
    \<Rightarrow> queue_error + ('c, 'e) scheduler" where
  "scheduler_new core fd ns e lcap icap =
     (case local_queue_new lcap of Inl err \<Rightarrow> Inl err | Inr l \<Rightarrow>
      case spsc_new icap of Inl err \<Rightarrow> Inl err | Inr i \<Rightarrow>
      Inr \<lparr> sc_id = core, sc_fd = fd,
        sc_rq = \<lparr> rq_next = nullptr, rq_local = l, rq_calls = [], rq_taken = [], rq_fault = False \<rparr>,
        sc_inbox = i, sc_wheel = wheel_init ns, sc_last_tick = 0,
        sc_contexts = \<lparr> io_ctx = (\<lambda>_. None), io_fault = False \<rparr>, sc_queued = [], sc_submitted = [],
        sc_metrics = metrics_zero, sc_outbox = [], sc_env = e \<rparr>)"

definition schedule :: "handle \<Rightarrow> ('c, 'e) scheduler \<Rightarrow> ('c, 'e) scheduler" where
  "schedule h s = s\<lparr> sc_rq := rq_schedule h (sc_rq s) \<rparr>"

definition push_inbox :: "'c option \<Rightarrow> ('c, 'e) scheduler \<Rightarrow> bool \<times> ('c, 'e) scheduler" where
  "push_inbox t s = (let (ok, q) = spsc_push t (sc_inbox s) in (ok, s\<lparr> sc_inbox := q \<rparr>))"

text \<open>
  A dispatch to the own core pushes into the own inbox and, if accepted, queues the notification to
  the own ring; a dispatch to another core leaves through the outbox.
\<close>

definition do_action :: "'c action \<Rightarrow> ('c, 'e) scheduler \<Rightarrow> ('c, 'e) scheduler" where
  "do_action act s =
     (case act of
        Schedule h \<Rightarrow> schedule h s
      | Sleep node h now ms \<Rightarrow>
          (if sleep_await_ready ms then s
           else s\<lparr> sc_wheel := sleep_await_suspend True now ms h node (sc_wheel s) \<rparr>)
      | Dispatch core t \<Rightarrow>
          (if core = sc_id s
           then (let (ok, s1) = push_inbox t s in
                 if ok \<and> sc_fd s1 \<ge> 0
                 then s1\<lparr> sc_queued := sc_queued s1 @ [sqe_new (MsgRing (sc_fd s1) TAG_INBOX)] \<rparr>
                 else s1)
           else s\<lparr> sc_outbox := sc_outbox s @ [(core, t)] \<rparr>)
      | Queue e \<Rightarrow> s\<lparr> sc_queued := sc_queued s @ [e] \<rparr>)"

definition run_code :: "('e \<Rightarrow> 'c action list \<times> 'e) \<Rightarrow> ('c, 'e) scheduler \<Rightarrow> ('c, 'e) scheduler" where
  "run_code f s =
     (let (acts, e) = f (sc_env s) in fold do_action acts (s\<lparr> sc_env := e \<rparr>))"

section \<open>The phases of an iteration\<close>

partial_function (option) process_inbox ::
    "('c, 'e) program \<Rightarrow> ('c, 'e) scheduler \<Rightarrow> ('c, 'e) scheduler option" where
  "process_inbox pg s =
     (let ((popped, t), q) = spsc_pop (sc_inbox s) in
      if popped
      then (let s1 = s\<lparr> sc_inbox := q,
                        sc_metrics := metrics_record_inbox_processed (sc_metrics s) \<rparr>
            in process_inbox pg (case the t of None \<Rightarrow> s1 | Some c \<Rightarrow> run_code (pg_task pg c) s1))
      else Some (s\<lparr> sc_inbox := q \<rparr>))"

declare process_inbox.simps [code]

text \<open>The ticks the loop owes: one call of \<open>tick\<close> per millisecond since the last one. The count is that of the code as
  long as the clock is below \<open>2 ^ 64 - 1\<close> milliseconds, where the condition \<open>t <= now\<close> could not become false.\<close>

fun tick_from :: "nat \<Rightarrow> u64 \<Rightarrow> ('c, 'e) scheduler \<Rightarrow> ('c, 'e) scheduler option" where
  "tick_from 0 t s = Some s"
| "tick_from (Suc n) t s =
     (case tick True t (sc_wheel s) of
        None \<Rightarrow> None
      | Some (w, hs) \<Rightarrow> tick_from n (t + 1) (fold schedule hs (s\<lparr> sc_wheel := w \<rparr>)))"

definition run_ticks :: "u64 \<Rightarrow> ('c, 'e) scheduler \<Rightarrow> ('c, 'e) scheduler option" where
  "run_ticks now s =
     (if now > sc_last_tick s
      then map_option (sc_last_tick_update (\<lambda>_. now))
             (tick_from (unat (now - sc_last_tick s)) (sc_last_tick s + 1) s)
      else Some s)"

definition poll_one :: "('c, 'e) program \<Rightarrow> cqe \<Rightarrow> ('c, 'e) scheduler \<Rightarrow> ('c, 'e) scheduler option" where
  "poll_one pg c s0 =
     (let s = s0\<lparr> sc_metrics := metrics_record_io_event (sc_metrics s0) \<rparr> in
      case poll_dispatch c of
        CompleteIo ctx res fl \<Rightarrow>
          (let (hs, h) = complete_io ctx res fl (sc_contexts s)
           in Some (fold schedule hs (s\<lparr> sc_contexts := h \<rparr>)))
      | InvokeMulti op res fl \<Rightarrow> Some (run_code (pg_multi pg op res fl) s)
      | ScheduleCoro h \<Rightarrow> Some (schedule h s)
      | DrainInbox \<Rightarrow> process_inbox pg s
      | NoAction \<Rightarrow> Some s)"

fun poll :: "('c, 'e) program \<Rightarrow> cqe list \<Rightarrow> ('c, 'e) scheduler \<Rightarrow> ('c, 'e) scheduler option" where
  "poll pg [] s = Some s"
| "poll pg (c # cs) s = (case poll_one pg c s of None \<Rightarrow> None | Some s1 \<Rightarrow> poll pg cs s1)"

text \<open>How an idle scheduler waits, from the answer of \<open>next_timeout\<close>.\<close>

datatype wait_kind =
    WaitForever
  | Peek
  | WaitAtMost u64 u64    \<comment> \<open>seconds and nanoseconds\<close>

definition wait_for :: "u64 \<Rightarrow> wait_kind" where
  "wait_for exact_timeout_ms =
     (if exact_timeout_ms = -1 then WaitForever
      else if exact_timeout_ms = 0 then Peek
      else WaitAtMost (exact_timeout_ms div 1000) (exact_timeout_ms mod 1000 * 1000000))"

text \<open>
  The kernel's part in one iteration: the two clock readings, the result of the wait that the
  idle scheduler chose, and the completions that are visible when it polls.
\<close>

record kernel_input =
  ki_now :: u64
  ki_idle_now :: u64
  ki_wait :: "wait_kind \<Rightarrow> int"
  ki_cqes :: "cqe list"

definition ETIME :: int where
  "ETIME = 62"

definition submit_queued :: "('c, 'e) scheduler \<Rightarrow> ('c, 'e) scheduler" where
  "submit_queued s = s\<lparr> sc_submitted := sc_submitted s @ sc_queued s, sc_queued := [] \<rparr>"

definition process_io_events ::
    "('c, 'e) program \<Rightarrow> kernel_input \<Rightarrow> ('c, 'e) scheduler \<Rightarrow> ('c, 'e) scheduler option" where
  "process_io_events pg ki s =
     (let ret = ki_wait ki (wait_for (next_timeout (ki_idle_now ki) (sc_wheel s)))
      in if ret = 0 \<or> ret = - ETIME then poll pg (ki_cqes ki) s else Some s)"

definition resume_one :: "('c, 'e) program \<Rightarrow> handle \<Rightarrow> ('c, 'e) scheduler \<Rightarrow> ('c, 'e) scheduler" where
  "resume_one pg h s =
     (if h \<noteq> nullptr \<and> \<not> pg_done pg h (sc_env s)
      then (let s1 = run_code (pg_resume pg h) s
            in s1\<lparr> sc_metrics := metrics_record_task_executed (sc_metrics s1) \<rparr>)
      else s)"

text \<open>One round of the loop of \<open>run\<close>.\<close>

definition iteration ::
    "('c, 'e) program \<Rightarrow> kernel_input \<Rightarrow> ('c, 'e) scheduler \<Rightarrow> ('c, 'e) scheduler option" where
  "iteration pg ki s0 =
     (case run_ticks (ki_now ki) s0 of None \<Rightarrow> None | Some s1 \<Rightarrow>
      case process_inbox pg s1 of None \<Rightarrow> None | Some s2 \<Rightarrow>
      (let (batch, q) = try_dequeue_batch BATCH_PIPELINE_DEPTH (sc_rq s2); s3 = s2\<lparr> sc_rq := q \<rparr> in
       if batch = [] then process_io_events pg ki (submit_queued s3)
       else poll pg (ki_cqes ki) (fold (resume_one pg) batch s3)))"

text \<open>
  The same round in its phases. The ticks and the inbox come first; then it takes a batch, and
  either submits its requests, with nothing ready, or resumes the batch and polls.
\<close>

definition gather :: "('c, 'e) program \<Rightarrow> kernel_input \<Rightarrow> ('c, 'e) scheduler \<Rightarrow> ('c, 'e) scheduler option" where
  "gather pg ki s = (case run_ticks (ki_now ki) s of None \<Rightarrow> None | Some s1 \<Rightarrow> process_inbox pg s1)"

definition serve :: "('c, 'e) program \<Rightarrow> kernel_input \<Rightarrow> ('c, 'e) scheduler
    \<Rightarrow> (('c, 'e) scheduler + ('c, 'e) scheduler) option" where
  "serve pg ki s =
     (let (batch, q) = try_dequeue_batch BATCH_PIPELINE_DEPTH (sc_rq s); s1 = s\<lparr> sc_rq := q \<rparr> in
      if batch = [] then Some (Inl (submit_queued s1))
      else map_option Inr (poll pg (ki_cqes ki) (fold (resume_one pg) batch s1)))"

lemma iteration_phases:
  "iteration pg ki s = (case gather pg ki s of None \<Rightarrow> None | Some s1 \<Rightarrow>
     case serve pg ki s1 of None \<Rightarrow> None
     | Some (Inl s2) \<Rightarrow> process_io_events pg ki s2 | Some (Inr s2) \<Rightarrow> Some s2)"
  by (auto simp: iteration_def gather_def serve_def Let_def split: option.splits prod.splits)

fun run_loop :: "('c, 'e) program \<Rightarrow> kernel_input list \<Rightarrow> ('c, 'e) scheduler \<Rightarrow> ('c, 'e) scheduler option" where
  "run_loop pg [] s = Some s"
| "run_loop pg (ki # kis) s = (case iteration pg ki s of None \<Rightarrow> None | Some s1 \<Rightarrow> run_loop pg kis s1)"

end
