(* ===== verification/Scheduler_Rounds.thy ===== *)
theory Scheduler_Rounds
  imports Scheduler
begin

text \<open>
  Following a relation through a round of the loop of \<open>run\<close>. Most facts about the scheduler say how one
  part of its state may change: they hold for the single changes and are carried through the ticks, the
  inbox, the completions and the resumed coroutines in the same way each time. The locales do this
  once, for any relation that is kept by the changes the round is made of.
\<close>

lemmas process_inbox_induct = process_inbox.raw_induct [rotated, consumes 1, case_names step]

section \<open>The phases that resume no coroutine\<close>

locale quiet_relation =
  fixes pg :: "('c, 'e) program" and P :: "('c, 'e) scheduler \<Rightarrow> ('c, 'e) scheduler \<Rightarrow> bool"
  assumes same: "P s s"
    and trans: "P s s1 \<Longrightarrow> P s1 s2 \<Longrightarrow> P s s2"
    and action: "P s (do_action act s)"
    and scheduled: "P s (schedule h s)"
    and wheel: "P s (s\<lparr> sc_wheel := w \<rparr>)"
    and last_tick: "P s (s\<lparr> sc_last_tick := clock \<rparr>)"
    and contexts: "P s (s\<lparr> sc_contexts := cs \<rparr>)"
    and metrics: "P s (s\<lparr> sc_metrics := m \<rparr>)"
    and multi_env: "P s (s\<lparr> sc_env := snd (pg_multi pg op r f (sc_env s)) \<rparr>)"
    and no_pop: "spsc_pop (sc_inbox s) = ((False, t), q) \<Longrightarrow> P s (s\<lparr> sc_inbox := q \<rparr>)"
    and pop: "spsc_pop (sc_inbox s) = ((True, t), q) \<Longrightarrow>
      P s (s\<lparr> sc_inbox := q, sc_env := (case the t of None \<Rightarrow> sc_env s | Some c \<Rightarrow> snd (pg_task pg c (sc_env s))) \<rparr>)"
begin

lemma actions: "P s (fold do_action acts s)"
proof (induction acts arbitrary: s)
  case (Cons act acts)
  show ?case
    using trans [OF action Cons.IH] by simp
qed (simp add: same)

lemma schedules: "P s (fold schedule hs s)"
proof (induction hs arbitrary: s)
  case (Cons h hs)
  show ?case
    using trans [OF scheduled Cons.IH] by simp
qed (simp add: same)

lemma code: "P s (s\<lparr> sc_env := snd (f (sc_env s)) \<rparr>) \<Longrightarrow> P s (run_code f s)"
  unfolding run_code_def split_beta Let_def by (rule trans [OF _ actions])

lemma multi_code: "P s (run_code (pg_multi pg op r f) s)"
  by (rule code) (rule multi_env)

lemma task_code:
  assumes "spsc_pop (sc_inbox s) = ((True, t), q)"
  shows "P s (case the t of None \<Rightarrow> s\<lparr> sc_inbox := q, sc_metrics := m \<rparr>
     | Some c \<Rightarrow> run_code (pg_task pg c) (s\<lparr> sc_inbox := q, sc_metrics := m \<rparr>))"
proof (cases "the t")
  case None
  then show ?thesis
    using trans [OF pop [OF assms] metrics [of _ m]] by simp
next
  case (Some c)
  let ?e = "snd (pg_task pg c (sc_env s))"
  have "P s (s\<lparr> sc_inbox := q, sc_env := ?e, sc_metrics := m \<rparr>)"
    using trans [OF pop [OF assms] metrics [of _ m]] Some by simp
  then have "P s (s\<lparr> sc_inbox := q, sc_metrics := m, sc_env := ?e \<rparr>)"
    by (cases s) simp
  then show ?thesis
    unfolding Some option.case run_code_def split_beta Let_def by (intro trans [OF _ actions]) simp
qed

lemma tick_from: "tick_from n t s = Some s' \<Longrightarrow> P s s'"
proof (induction n arbitrary: t s)
  case (Suc n)
  then obtain w hs where "tick_from n (t + 1) (fold schedule hs (s\<lparr> sc_wheel := w \<rparr>)) = Some s'"
    by (auto split: option.splits)
  from Suc.IH [OF this] show ?case
    using trans [OF trans [OF wheel schedules]] by blast
qed (simp add: same)

lemma run_ticks: "run_ticks now s = Some s' \<Longrightarrow> P s s'"
  by (auto simp: run_ticks_def same split: if_splits intro: trans [OF tick_from last_tick])

lemma process_inbox: "process_inbox pg s = Some s' \<Longrightarrow> P s s'"
proof (induction pg' \<equiv> pg s s' rule: process_inbox_induct)
  case (step rec s s')
  obtain popped t q where p: "spsc_pop (sc_inbox s) = ((popped, t), q)"
    by (metis surj_pair)
  show ?case
  proof (cases popped)
    case True
    let ?s1 = "s\<lparr> sc_inbox := q, sc_metrics := metrics_record_inbox_processed (sc_metrics s) \<rparr>"
    let ?s2 = "case the t of None \<Rightarrow> ?s1 | Some c \<Rightarrow> run_code (pg_task pg c) ?s1"
    have "P s ?s2"
      by (rule task_code) (use p True in simp)
    moreover have "rec pg ?s2 = Some s'"
      using step(2) p True by (simp add: Let_def)
    then have "P ?s2 s'"
      by (rule step(1))
    ultimately show ?thesis
      by (rule trans)
  next
    case False
    then show ?thesis
      using step(2) p no_pop [of s t q] by auto
  qed
qed

lemma poll_one:
  assumes "poll_one pg c s = Some s'"
  shows "P s s'"
proof -
  let ?s = "s\<lparr> sc_metrics := metrics_record_io_event (sc_metrics s) \<rparr>"
  have "P ?s s'"
    using assms
    by (auto simp: poll_one_def split_beta Let_def same scheduled process_inbox multi_code
        intro: trans [OF contexts schedules] split: poll_action.splits)
  then show ?thesis
    by (rule trans [OF metrics])
qed

lemma poll: "poll pg cs s = Some s' \<Longrightarrow> P s s'"
proof (induction cs arbitrary: s)
  case (Cons c cs)
  then obtain s1 where "poll_one pg c s = Some s1" "poll pg cs s1 = Some s'"
    by (auto split: option.splits)
  then show ?case
    using trans [OF poll_one Cons.IH] by blast
qed (simp add: same)

lemma gather: "gather pg ki s = Some s' \<Longrightarrow> P s s'"
  by (auto simp: gather_def split: option.splits intro: trans [OF run_ticks process_inbox])

lemma io_events: "process_io_events pg ki s = Some s' \<Longrightarrow> P s s'"
  by (auto simp: process_io_events_def Let_def same split: if_splits intro: poll)

end

section \<open>All that lies between two batches\<close>

locale phase_relation = quiet_relation +
  assumes resume_env: "P s (s\<lparr> sc_env := snd (pg_resume pg h (sc_env s)) \<rparr>)"
begin

lemma resume_code: "P s (run_code (pg_resume pg h) s)"
  by (rule code) (rule resume_env)

lemma resumes: "P s (fold (resume_one pg) hs s)"
proof (induction hs arbitrary: s)
  case (Cons h hs)
  have "P s (resume_one pg h s)"
    by (auto simp: resume_one_def Let_def same intro: trans [OF resume_code metrics])
  from trans [OF this Cons.IH] show ?case
    by simp
qed (simp add: same)

end

section \<open>Whole rounds\<close>

locale round_relation = phase_relation +
  assumes batch: "P s (s\<lparr> sc_rq := rq \<rparr>)"
    and submit: "P s (submit_queued s)"
begin

lemma serve:
  assumes "serve pg ki s = Some r"
  shows "P s (case r of Inl s' \<Rightarrow> s' | Inr s' \<Rightarrow> s')"
proof -
  have "P s (submit_queued (s\<lparr> sc_rq := q \<rparr>))" for q
    by (rule trans [OF batch submit])
  moreover have "P s s'" if "poll pg cs (fold (resume_one pg) hs (s\<lparr> sc_rq := q \<rparr>)) = Some s'" for q hs cs s'
    by (rule trans [OF batch trans [OF resumes poll [OF that]]])
  ultimately show ?thesis
    using assms by (auto simp: serve_def Let_def split: prod.splits if_splits)
qed

lemma iteration:
  assumes "iteration pg ki s = Some s'"
  shows "P s s'"
proof -
  obtain s1 r where s1: "gather pg ki s = Some s1" and r: "serve pg ki s1 = Some r"
    using assms by (auto simp: iteration_phases split: option.splits)
  have "P s (case r of Inl s' \<Rightarrow> s' | Inr s' \<Rightarrow> s')"
    by (rule trans [OF gather [OF s1] serve [OF r]])
  then show ?thesis
    using assms s1 r trans [OF _ io_events] by (auto simp: iteration_phases split: sum.splits)
qed

lemma run_loop: "run_loop pg kis s = Some s' \<Longrightarrow> P s s'"
proof (induction kis arbitrary: s)
  case (Cons ki kis)
  then obtain s1 where "iteration pg ki s = Some s1" "run_loop pg kis s1 = Some s'"
    by (auto split: option.splits)
  then show ?case
    using trans [OF iteration Cons.IH] by blast
qed (simp add: same)

end

end
