(* ===== verification/Scheduler_Props.thy ===== *)
theory Scheduler_Props
  imports Scheduler_Rounds
begin

text \<open>
  The theorems about the scheduler: the run queue as a list of ready coroutines, conservation of
  coroutines over whole runs of the loop, a bound on how long a ready coroutine waits, and when
  draining the inbox ends.
\<close>

section \<open>The list of ready coroutines\<close>

definition ready :: "run_queue \<Rightarrow> handle list" where
  "ready q = (if rq_next q \<noteq> nullptr then [rq_next q] else []) @ lq_contents (rq_local q)"

text \<open>
  A well-formed run queue whose histories agree with it: every handle scheduled so far has been
  handed out or is ready, as often as it was scheduled.
\<close>

definition rq_inv :: "run_queue \<Rightarrow> bool" where
  "rq_inv q \<longleftrightarrow> lq_inv (rq_local q) \<and> nullptr \<notin> set (lq_contents (rq_local q))
     \<and> mset (rq_calls q) = mset (rq_taken q) + mset (ready q)"

lemma rq_invD:
  assumes "rq_inv q"
  shows "lq_inv (rq_local q)" and "nullptr \<notin> set (lq_contents (rq_local q))"
    and "mset (rq_calls q) = mset (rq_taken q) + mset (ready q)"
  using assms by (simp_all add: rq_inv_def)

lemma rq_fault_mono: "rq_fault q \<Longrightarrow> rq_fault (rq_schedule h q)"
  by (simp add: rq_schedule_def)

lemma rq_fault_fold: "rq_fault q \<Longrightarrow> rq_fault (fold rq_schedule hs q)"
  by (induction hs arbitrary: q) (simp_all add: rq_fault_mono)

text \<open>\<open>schedule\<close> fills the slot in front, or else appends to the queue.\<close>

lemma schedule_ready:
  assumes inv: "rq_inv q" and ok: "\<not> rq_fault (rq_schedule h q)"
  shows "rq_inv (rq_schedule h q)"
    and "ready (rq_schedule h q) = (if rq_next q = nullptr then h # ready q else ready q @ [h])"
    and "\<exists>ys. lq_contents (rq_local (rq_schedule h q)) = lq_contents (rq_local q) @ ys"
    and "rq_taken (rq_schedule h q) = rq_taken q"
proof -
  let ?goal = "rq_inv (rq_schedule h q)
    \<and> ready (rq_schedule h q) = (if rq_next q = nullptr then h # ready q else ready q @ [h])
    \<and> (\<exists>ys. lq_contents (rq_local (rq_schedule h q)) = lq_contents (rq_local q) @ ys)
    \<and> rq_taken (rq_schedule h q) = rq_taken q"
  have ?goal
  proof (cases "rq_next q = nullptr")
    case True
    then show ?thesis
      using inv ok by (simp add: rq_schedule_def rq_inv_def ready_def)
  next
    case False
    have l: "lq_inv (rq_local q)"
      by (rule rq_invD(1) [OF inv])
    have room: "0 < lq_room (rq_local q)" and "h \<noteq> nullptr"
      using ok False by (auto simp: rq_schedule_def)
    then show ?thesis
      using False rq_invD [OF inv] lq.inv_enq [OF l room, of h] lq.contents_enq [OF l room, of h]
      by (simp add: rq_schedule_def rq_inv_def ready_def)
  qed
  then show "rq_inv (rq_schedule h q)"
    "ready (rq_schedule h q) = (if rq_next q = nullptr then h # ready q else ready q @ [h])"
    "\<exists>ys. lq_contents (rq_local (rq_schedule h q)) = lq_contents (rq_local q) @ ys"
    "rq_taken (rq_schedule h q) = rq_taken q"
    by blast+
qed

lemma fold_schedule_ready:
  assumes "rq_inv q" and "\<not> rq_fault (fold rq_schedule hs q)"
  shows "rq_inv (fold rq_schedule hs q)
     \<and> (\<exists>ys. lq_contents (rq_local (fold rq_schedule hs q)) = lq_contents (rq_local q) @ ys)
     \<and> rq_taken (fold rq_schedule hs q) = rq_taken q"
  using assms
proof (induction hs arbitrary: q)
  case Nil
  then show ?case by simp
next
  case (Cons h hs)
  have ok: "\<not> rq_fault (rq_schedule h q)"
    using Cons.prems(2) rq_fault_fold by fastforce
  note one = schedule_ready [OF Cons.prems(1) ok]
  show ?case
    using Cons.IH [OF one(1)] Cons.prems(2) one(3,4) by auto
qed

lemma dequeue_loop_takes:
  assumes "lq_inv l" and "nullptr \<notin> set (lq_contents l)"
  shows "fst (dequeue_loop n l) = take n (lq_contents l)
     \<and> lq_contents (snd (dequeue_loop n l)) = drop n (lq_contents l) \<and> lq_inv (snd (dequeue_loop n l))"
  using assms
proof (induction n arbitrary: l)
  case 0
  then show ?case by simp
next
  case (Suc n)
  show ?case
  proof (cases "lq_contents l")
    case Nil
    then show ?thesis
      using Suc.prems by (simp add: lq_pop_empty)
  next
    case (Cons h hs)
    then have ne: "lq_contents l \<noteq> []"
      by simp
    obtain l1 where l1: "lq_pop l = (h, l1)" "lq_contents l1 = hs" "lq_inv l1"
      using lq.fst_deq [OF Suc.prems(1) ne] lq.contents_snd_deq [OF Suc.prems(1) ne]
        lq.inv_deq [OF Suc.prems(1) ne] Cons by (cases "lq_pop l") auto
    have "h \<noteq> nullptr" and "nullptr \<notin> set hs"
      using Suc.prems(2) Cons by auto
    then show ?thesis
      using Suc.IH [OF l1(3)] l1 Cons by (simp add: split_beta)
  qed
qed

lemma batch_ready:
  assumes inv: "rq_inv q" and "0 < n"
  shows "fst (try_dequeue_batch n q) = take n (ready q)"
    and "ready (snd (try_dequeue_batch n q)) = drop n (ready q)"
    and "rq_inv (snd (try_dequeue_batch n q))"
    and "rq_taken (snd (try_dequeue_batch n q)) = rq_taken q @ take n (ready q)"
    and "rq_fault (snd (try_dequeue_batch n q)) = rq_fault q"
    and "lq_contents (rq_local (snd (try_dequeue_batch n q)))
       = drop (n - (if rq_next q \<noteq> nullptr then 1 else 0)) (lq_contents (rq_local q))"
proof -
  define first where "first = (if rq_next q \<noteq> nullptr then [rq_next q] else [])"
  let ?m = "n - length first"
  have m: "n - (if rq_next q \<noteq> nullptr then 1 else 0) = ?m"
    by (simp add: first_def)
  note d = dequeue_loop_takes [OF rq_invD(1,2) [OF inv], of ?m]
  have b: "try_dequeue_batch n q = (first @ take ?m (lq_contents (rq_local q)),
         q\<lparr> rq_next := nullptr, rq_local := snd (dequeue_loop ?m (rq_local q)),
            rq_taken := rq_taken q @ first @ take ?m (lq_contents (rq_local q)) \<rparr>)"
    unfolding try_dequeue_batch_def first_def [symmetric] using d by (simp add: split_beta Let_def)
  have r: "ready q = first @ lq_contents (rq_local q)" and "length first \<le> n"
    using assms(2) by (simp_all add: ready_def first_def)
  then have t: "first @ take ?m (lq_contents (rq_local q)) = take n (ready q)"
    and dr: "drop ?m (lq_contents (rq_local q)) = drop n (ready q)"
    by simp_all
  show "fst (try_dequeue_batch n q) = take n (ready q)"
    "rq_taken (snd (try_dequeue_batch n q)) = rq_taken q @ take n (ready q)"
    "rq_fault (snd (try_dequeue_batch n q)) = rq_fault q"
    by (simp_all add: b t)
  show "lq_contents (rq_local (snd (try_dequeue_batch n q)))
       = drop (n - (if rq_next q \<noteq> nullptr then 1 else 0)) (lq_contents (rq_local q))"
    using d by (simp add: b m)
  show rd: "ready (snd (try_dequeue_batch n q)) = drop n (ready q)"
    using d dr by (simp add: b ready_def)
  have "mset (take n (ready q)) + mset (drop n (ready q)) = mset (ready q)"
    by (metis append_take_drop_id mset_append)
  moreover have "nullptr \<notin> set (drop ?m (lq_contents (rq_local q)))"
    using rq_invD(2) [OF inv] by (meson in_set_dropD)
  ultimately show "rq_inv (snd (try_dequeue_batch n q))"
    using d rd rq_invD(3) [OF inv] by (simp add: rq_inv_def) (simp add: b t)
qed

section \<open>What the phases do to the run queue\<close>

text \<open>Between two batches the run queue changes by calls of \<open>schedule\<close> only.\<close>

definition only_schedules :: "('c, 'e) scheduler \<Rightarrow> ('c, 'e) scheduler \<Rightarrow> bool" where
  "only_schedules s s' \<longleftrightarrow> (\<exists>hs. sc_rq s' = fold rq_schedule hs (sc_rq s))"

lemma only_schedules_same [intro]: "sc_rq s' = sc_rq s \<Longrightarrow> only_schedules s s'"
  by (auto simp: only_schedules_def intro: exI [of _ "[]"])

lemma only_schedules_trans [trans]:
  assumes "only_schedules s s1" and "only_schedules s1 s2"
  shows "only_schedules s s2"
proof -
  obtain hs1 hs2 where "sc_rq s1 = fold rq_schedule hs1 (sc_rq s)" "sc_rq s2 = fold rq_schedule hs2 (sc_rq s1)"
    using assms by (auto simp: only_schedules_def)
  then have "sc_rq s2 = fold rq_schedule (hs1 @ hs2) (sc_rq s)"
    by simp
  then show ?thesis
    unfolding only_schedules_def by blast
qed

lemma sc_rq_fold_schedule: "sc_rq (fold schedule hs s) = fold rq_schedule hs (sc_rq s)"
  by (induction hs arbitrary: s) (simp_all add: schedule_def)

interpretation only: phase_relation pg only_schedules for pg
proof unfold_locales
  fix s s1 s2 :: "('a, 'b) scheduler" and h and act :: "'a action"
  show "only_schedules s s1 \<Longrightarrow> only_schedules s1 s2 \<Longrightarrow> only_schedules s s2"
    by (rule only_schedules_trans)
  show scheduled: "only_schedules s (schedule h s)" for h
    by (auto simp: only_schedules_def schedule_def intro: exI [of _ "[h]"])
  show "only_schedules s (do_action act s)"
  proof (cases act)
    case (Schedule h)
    then show ?thesis
      using scheduled [of h] by (simp add: do_action_def)
  qed (auto simp: do_action_def push_inbox_def split_beta Let_def)
qed (auto split: option.split)

text \<open>An iteration: calls of \<open>schedule\<close>, one batch, calls of \<open>schedule\<close>.\<close>

lemma iteration_cases:
  assumes "iteration pg ki s = Some s'"
  obtains s1 s2 batch q where "run_ticks (ki_now ki) s = Some s1" and "process_inbox pg s1 = Some s2"
    and "try_dequeue_batch 16 (sc_rq s2) = (batch, q)"
    and "if batch = [] then process_io_events pg ki (submit_queued (s2\<lparr> sc_rq := q \<rparr>)) = Some s'
         else poll pg (ki_cqes ki) (fold (resume_one pg) batch (s2\<lparr> sc_rq := q \<rparr>)) = Some s'"
    and "only_schedules s s2" and "only_schedules (s2\<lparr> sc_rq := q \<rparr>) s'"
proof -
  from assms obtain s1 s2 where s1: "run_ticks (ki_now ki) s = Some s1"
    and s2: "process_inbox pg s1 = Some s2"
    by (auto simp: iteration_def split: option.splits)
  obtain batch q where b: "try_dequeue_batch 16 (sc_rq s2) = (batch, q)"
    by fastforce
  let ?s3 = "s2\<lparr> sc_rq := q \<rparr>"
  have final: "if batch = [] then process_io_events pg ki (submit_queued ?s3) = Some s'
     else poll pg (ki_cqes ki) (fold (resume_one pg) batch ?s3) = Some s'"
    using assms s1 s2 b by (simp add: iteration_def BATCH_PIPELINE_DEPTH_def Let_def split: if_splits)
  have "only_schedules ?s3 s'"
  proof (cases "batch = []")
    case True
    have "only_schedules ?s3 (submit_queued ?s3)"
      by (auto simp: submit_queued_def)
    then show ?thesis
      using True final only.poll [of pg "ki_cqes ki" "submit_queued ?s3" s']
        only_schedules_trans [of ?s3 "submit_queued ?s3" s']
      by (auto simp: process_io_events_def Let_def split: if_splits)
  next
    case False
    then show ?thesis
      using final only_schedules_trans [OF only.resumes only.poll] by auto
  qed
  then show thesis
    using that [OF s1 s2 b final only_schedules_trans [OF only.run_ticks [OF s1] only.process_inbox [OF s2]]]
    by blast
qed

lemma iteration_queue:
  assumes "iteration pg ki s = Some s'"
  shows "\<exists>hs1 hs2. sc_rq s' = fold rq_schedule hs2
     (snd (try_dequeue_batch 16 (fold rq_schedule hs1 (sc_rq s))))"
  using assms by (elim iteration_cases) (metis only_schedules_def scheduler.select_convs(3)
      scheduler.surjective scheduler.update_convs(3) snd_conv)

section \<open>The run queue over whole iterations\<close>

text \<open>\<open>waiting h j q\<close>: \<open>h\<close> is among the first \<open>j + 1\<close> handles of the local queue.\<close>

definition waiting :: "handle \<Rightarrow> nat \<Rightarrow> run_queue \<Rightarrow> bool" where
  "waiting h j q \<longleftrightarrow> (\<exists>i \<le> j. i < length (lq_contents (rq_local q)) \<and> lq_contents (rq_local q) ! i = h)"

lemma waiting_append:
  "waiting h j q \<Longrightarrow> lq_contents (rq_local q') = lq_contents (rq_local q) @ ys \<Longrightarrow> waiting h j q'"
  by (force simp: waiting_def nth_append)

lemma waiting_batch:
  assumes inv: "rq_inv q" and w: "waiting h j q"
  shows "h \<in> set (take 16 (ready q))
     \<or> 15 \<le> j \<and> waiting h (j - 15) (snd (try_dequeue_batch 16 q))"
proof -
  let ?xs = "lq_contents (rq_local q)" and ?f = "if rq_next q \<noteq> nullptr then 1 else (0::nat)"
  obtain i where i: "i \<le> j" "i < length ?xs" "?xs ! i = h"
    using w by (auto simp: waiting_def)
  have r: "ready q = (if rq_next q \<noteq> nullptr then [rq_next q] else []) @ ?xs"
    by (simp add: ready_def)
  show ?thesis
  proof (cases "i < 16 - ?f")
    case True
    then have "h \<in> set (take (16 - ?f) ?xs)"
      using i by (metis in_set_conv_nth length_take min_less_iff_conj nth_take)
    then show ?thesis
      by (auto simp: r take_Cons' split: if_splits)
  next
    case False
    then have "i - (16 - ?f) \<le> j - 15" and "15 \<le> j"
      using i(1) by (auto split: if_splits)
    moreover have "lq_contents (rq_local (snd (try_dequeue_batch 16 q))) = drop (16 - ?f) ?xs"
      by (rule batch_ready(6) [OF inv]) simp
    ultimately show ?thesis
      using i False by (auto simp: waiting_def intro!: exI [of _ "i - (16 - ?f)"])
  qed
qed

lemma iteration_run_queue:
  assumes inv: "rq_inv (sc_rq s)" and run: "iteration pg ki s = Some s'" and ok: "\<not> rq_fault (sc_rq s')"
  shows "rq_inv (sc_rq s')" and "\<not> rq_fault (sc_rq s)"
    and "\<exists>batch. rq_taken (sc_rq s') = rq_taken (sc_rq s) @ batch \<and> length batch \<le> 16
       \<and> (waiting h j (sc_rq s) \<longrightarrow> h \<in> set batch \<or> 15 \<le> j \<and> waiting h (j - 15) (sc_rq s'))"
proof -
  obtain hs1 hs2 where q: "sc_rq s' = fold rq_schedule hs2
     (snd (try_dequeue_batch 16 (fold rq_schedule hs1 (sc_rq s))))"
    using iteration_queue [OF run] by blast
  let ?q1 = "fold rq_schedule hs1 (sc_rq s)"
  let ?q2 = "snd (try_dequeue_batch 16 ?q1)"
  have ok2: "\<not> rq_fault ?q2"
    using ok q rq_fault_fold by metis
  have "rq_fault ?q2 = rq_fault ?q1"
    by (simp add: try_dequeue_batch_def split_beta Let_def)
  then have ok1: "\<not> rq_fault ?q1"
    using ok2 by simp
  then show "\<not> rq_fault (sc_rq s)"
    using rq_fault_fold by metis
  note f1 = fold_schedule_ready [OF inv ok1]
  then have inv1: "rq_inv ?q1" by blast
  have "(0::nat) < 16" by simp
  note b = batch_ready [OF inv1 this]
  have "\<not> rq_fault (fold rq_schedule hs2 ?q2)"
    using ok q by simp
  note f2 = fold_schedule_ready [OF b(3) this]
  show "rq_inv (sc_rq s')"
    using f2 q by simp
  have t: "rq_taken (sc_rq s') = rq_taken (sc_rq s) @ take 16 (ready ?q1)"
    using f1 f2 b(4) q by simp
  have "h \<in> set (take 16 (ready ?q1)) \<or> 15 \<le> j \<and> waiting h (j - 15) (sc_rq s')" if w: "waiting h j (sc_rq s)"
  proof -
    obtain ys1 ys2 where "lq_contents (rq_local ?q1) = lq_contents (rq_local (sc_rq s)) @ ys1"
      "lq_contents (rq_local (sc_rq s')) = lq_contents (rq_local ?q2) @ ys2"
      using f1 f2 q by auto
    then show ?thesis
      using waiting_batch [OF inv1 waiting_append [OF w]] waiting_append by blast
  qed
  then show "\<exists>batch. rq_taken (sc_rq s') = rq_taken (sc_rq s) @ batch \<and> length batch \<le> 16
       \<and> (waiting h j (sc_rq s) \<longrightarrow> h \<in> set batch \<or> 15 \<le> j \<and> waiting h (j - 15) (sc_rq s'))"
    using t by (intro exI [of _ "take 16 (ready ?q1)"]) simp
qed


lemma iteration_fault_mono:
  assumes "iteration pg ki s = Some s'" and "rq_fault (sc_rq s)"
  shows "rq_fault (sc_rq s')"
proof -
  obtain hs1 hs2 where q: "sc_rq s' = fold rq_schedule hs2
     (snd (try_dequeue_batch 16 (fold rq_schedule hs1 (sc_rq s))))"
    using iteration_queue [OF assms(1)] by blast
  have "rq_fault (snd (try_dequeue_batch 16 (fold rq_schedule hs1 (sc_rq s))))"
    using rq_fault_fold [OF assms(2)] by (simp add: try_dequeue_batch_def split_beta Let_def)
  then show ?thesis
    unfolding q by (rule rq_fault_fold)
qed

lemma run_loop_fault_mono: "run_loop pg kis s = Some s' \<Longrightarrow> rq_fault (sc_rq s) \<Longrightarrow> rq_fault (sc_rq s')"
proof (induction kis arbitrary: s)
  case (Cons ki kis)
  then obtain s1 where "iteration pg ki s = Some s1" "run_loop pg kis s1 = Some s'"
    by (auto split: option.splits)
  then show ?case
    using Cons iteration_fault_mono by blast
qed simp

lemma run_loop_queue:
  assumes "rq_inv (sc_rq s)" and "run_loop pg kis s = Some s'" and "\<not> rq_fault (sc_rq s')"
  shows "rq_inv (sc_rq s') \<and> (\<exists>ts. rq_taken (sc_rq s') = rq_taken (sc_rq s) @ ts \<and> length ts \<le> 16 * length kis
     \<and> (waiting h j (sc_rq s) \<longrightarrow> j < 15 * length kis \<longrightarrow> h \<in> set ts))"
  using assms
proof (induction kis arbitrary: s j)
  case Nil
  then show ?case by simp
next
  case (Cons ki kis)
  from Cons.prems(2) obtain s1 where s1: "iteration pg ki s = Some s1" "run_loop pg kis s1 = Some s'"
    by (auto split: option.splits)
  have ok1: "\<not> rq_fault (sc_rq s1)"
    using run_loop_fault_mono [OF s1(2)] Cons.prems(3) by blast
  note it = iteration_run_queue [OF Cons.prems(1) s1(1) ok1]
  obtain batch where b: "rq_taken (sc_rq s1) = rq_taken (sc_rq s) @ batch" "length batch \<le> 16"
    "waiting h j (sc_rq s) \<Longrightarrow> h \<in> set batch \<or> 15 \<le> j \<and> waiting h (j - 15) (sc_rq s1)"
    using it(3) [of h j] by blast
  obtain ts where ts: "rq_inv (sc_rq s')" "rq_taken (sc_rq s') = rq_taken (sc_rq s1) @ ts"
    "length ts \<le> 16 * length kis"
    "waiting h (j - 15) (sc_rq s1) \<Longrightarrow> j - 15 < 15 * length kis \<Longrightarrow> h \<in> set ts"
    using Cons.IH [OF it(1) s1(2) Cons.prems(3), of "j - 15"] by blast
  have "h \<in> set (batch @ ts)" if "waiting h j (sc_rq s)" and "j < 15 * length (ki # kis)"
  proof -
    have "15 \<le> j \<Longrightarrow> j - 15 < 15 * length kis"
      using that(2) by simp
    then show ?thesis
      using b(3) [OF that(1)] ts(4) by auto
  qed
  then show ?case
    using ts(1-3) b(1,2) by (intro conjI exI [of _ "batch @ ts"]) auto
qed

section \<open>Draining the inbox\<close>

lemma push_inbox_accepts:
  assumes inv: "sq_inv (sc_inbox s)"
  shows "sq_inv (sc_inbox (snd (push_inbox t s)))"
    and "sq_contents (sc_inbox (snd (push_inbox t s))) = sq_contents (sc_inbox s) @ (if 0 < sq_room (sc_inbox s) then [t] else [])"
    and "sc_env (snd (push_inbox t s)) = sc_env s"
proof -
  have push: "sc_inbox (snd (push_inbox t s)) = spsc_enq t (sc_inbox s)"
    by (simp add: push_inbox_def spsc_enq_def split_beta)
  have full: "spsc_enq t (sc_inbox s) = sc_inbox s" if "sq_room (sc_inbox s) = 0"
    using spsc_push_full [OF inv that, of t] by (simp add: spsc_enq_def)
  show "sq_inv (sc_inbox (snd (push_inbox t s)))"
    "sq_contents (sc_inbox (snd (push_inbox t s))) = sq_contents (sc_inbox s) @ (if 0 < sq_room (sc_inbox s) then [t] else [])"
    using inv full sq.inv_enq [OF inv, of t] sq.contents_enq [OF inv, of t]
    by (cases "sq_room (sc_inbox s) = 0"; simp add: push)+
  show "sc_env (snd (push_inbox t s)) = sc_env s"
    by (simp add: push_inbox_def split_beta)
qed

lemma spsc_pop_empty_case: "sq_inv q \<Longrightarrow> sq_contents q = [] \<Longrightarrow> spsc_pop q = ((False, None), q)"
  by (simp add: sq_contents_Nil_iff spsc_pop_def)

lemma spsc_pop_head:
  assumes "sq_inv q" and "sq_contents q \<noteq> []"
  obtains q' where "spsc_pop q = ((True, Some (hd (sq_contents q))), q')" and "sq_inv q'"
    and "sq_contents q' = tl (sq_contents q)" and "sq_room q' = Suc (sq_room q)"
proof -
  from assms(1) obtain k where k: "sq_shape k q" "sq_size q \<le> 2 ^ k" "sq_live q"
    by (rule sq_invE)
  have ne: "sq_head q \<noteq> sq_tail q"
    using assms(2) by (simp add: sq_contents_Nil_iff)
  note pop = spsc_pop_nonempty [OF k ne]
  have "fst (spsc_deq q) = hd (sq_contents q)"
    by (rule sq.fst_deq [OF assms])
  then have "spsc_pop q = ((True, Some (hd (sq_contents q))), snd (spsc_deq q))"
    using pop(1,2) by (cases "spsc_pop q") (auto simp: spsc_deq_def)
  then show thesis
    using that sq.inv_deq [OF assms] sq.contents_snd_deq [OF assms] sq.room_deq [OF assms] by blast
qed

text \<open>The user state after the tasks of a list have run.\<close>

fun after_tasks :: "('c, 'e) program \<Rightarrow> 'c option list \<Rightarrow> 'e \<Rightarrow> 'e" where
  "after_tasks pg [] e = e"
| "after_tasks pg (None # ts) e = after_tasks pg ts e"
| "after_tasks pg (Some c # ts) e = after_tasks pg ts (snd (pg_task pg c e))"

definition never_dispatches :: "nat \<Rightarrow> 'c action list \<Rightarrow> bool" where
  "never_dispatches core acts \<longleftrightarrow> (\<forall>t. Dispatch core t \<notin> set acts)"

lemma fold_actions_inbox:
  assumes "never_dispatches (sc_id s) acts"
  shows "sc_inbox (fold do_action acts s) = sc_inbox s \<and> sc_id (fold do_action acts s) = sc_id s
     \<and> sc_env (fold do_action acts s) = sc_env s"
  using assms
proof (induction acts arbitrary: s)
  case (Cons act acts)
  have "sc_inbox (do_action act s) = sc_inbox s \<and> sc_id (do_action act s) = sc_id s
     \<and> sc_env (do_action act s) = sc_env s"
    using Cons.prems by (cases act) (auto simp: do_action_def schedule_def never_dispatches_def)
  moreover have "never_dispatches (sc_id s) acts"
    using Cons.prems by (auto simp: never_dispatches_def)
  ultimately show ?case
    using Cons.IH [of "do_action act s"] by simp
qed simp

lemma run_code_inbox:
  assumes "never_dispatches (sc_id s) (fst (f (sc_env s)))"
  shows "sc_inbox (run_code f s) = sc_inbox s \<and> sc_id (run_code f s) = sc_id s
     \<and> sc_env (run_code f s) = snd (f (sc_env s))"
  using fold_actions_inbox [of "s\<lparr> sc_env := snd (f (sc_env s)) \<rparr>" "fst (f (sc_env s))"] assms
  by (simp add: run_code_def split_beta Let_def)

lemma do_action_metrics: "sc_metrics (do_action act s) = sc_metrics s"
  by (cases act) (auto simp: do_action_def schedule_def push_inbox_def split_beta Let_def)

lemma fold_actions_metrics: "sc_metrics (fold do_action acts s) = sc_metrics s"
  by (induction acts arbitrary: s) (simp_all add: do_action_metrics)

lemma run_code_metrics: "sc_metrics (run_code f s) = sc_metrics s"
  by (simp add: run_code_def split_beta Let_def fold_actions_metrics)

lemma process_inbox_drains:
  assumes calm: "\<And>c e. never_dispatches (sc_id s) (fst (pg_task pg c e))" and "sq_inv (sc_inbox s)"
  shows "\<exists>s'. process_inbox pg s = Some s' \<and> sq_contents (sc_inbox s') = [] \<and> sq_inv (sc_inbox s')
     \<and> sc_env s' = after_tasks pg (sq_contents (sc_inbox s)) (sc_env s)
     \<and> inbox_messages_processed (sc_metrics s') - inbox_messages_processed (sc_metrics s)
         = of_nat (length (sq_contents (sc_inbox s)))"
  using assms
proof (induction "sq_contents (sc_inbox s)" arbitrary: s)
  case Nil
  then have "spsc_pop (sc_inbox s) = ((False, None), sc_inbox s)"
    by (intro spsc_pop_empty_case) simp_all
  then have "process_inbox pg s = Some s"
    by (subst process_inbox.simps) simp
  then show ?case
    using Nil by simp
next
  case (Cons t ts)
  from Cons.hyps(2) Cons.prems(2) obtain q where pop: "spsc_pop (sc_inbox s) = ((True, Some t), q)"
    and q: "sq_inv q" "sq_contents q = ts"
    by (metis list.distinct(1) list.sel(1) list.sel(3) spsc_pop_head)
  let ?s1 = "s\<lparr> sc_inbox := q, sc_metrics := metrics_record_inbox_processed (sc_metrics s) \<rparr>"
  let ?s2 = "case t of None \<Rightarrow> ?s1 | Some c \<Rightarrow> run_code (pg_task pg c) ?s1"
  have step: "process_inbox pg s = process_inbox pg ?s2"
    by (subst process_inbox.simps) (simp add: pop Let_def)
  have s2: "sc_inbox ?s2 = q \<and> sc_id ?s2 = sc_id s \<and> sc_env ?s2 = after_tasks pg [t] (sc_env s)
     \<and> sc_metrics ?s2 = metrics_record_inbox_processed (sc_metrics s)"
    using run_code_inbox [of ?s1 "pg_task pg (the t)"] Cons.prems(1) by (cases t) (auto simp: run_code_metrics)
  from Cons.hyps(1) [of ?s2] s2 q Cons.prems(1) obtain s' where s':
    "process_inbox pg ?s2 = Some s'" "sq_contents (sc_inbox s') = []" "sq_inv (sc_inbox s')"
    "sc_env s' = after_tasks pg ts (after_tasks pg [t] (sc_env s))"
    "inbox_messages_processed (sc_metrics s') - inbox_messages_processed (sc_metrics ?s2) = of_nat (length ts)"
    by auto
  have "after_tasks pg ts (after_tasks pg [t] (sc_env s)) = after_tasks pg (t # ts) (sc_env s)"
    by (cases t) simp_all
  moreover have "inbox_messages_processed (sc_metrics s') - inbox_messages_processed (sc_metrics s)
      = of_nat (length (t # ts))"
    using s'(5) s2 by (simp add: metrics_record_inbox_processed_def algebra_simps)
  ultimately show ?case
    using s' step Cons.hyps(2) by metis
qed

section \<open>Who submits the queued requests\<close>

interpretation sub: phase_relation pg "\<lambda>s s'. sc_submitted s' = sc_submitted s" for pg
proof unfold_locales
  show "sc_submitted (do_action act s) = sc_submitted s" for act and s :: "('a, 'b) scheduler"
    by (cases act) (auto simp: do_action_def schedule_def push_inbox_def split_beta Let_def)
qed (simp_all add: schedule_def)

text \<open>A run queue with a ready coroutine keeps one while \<open>schedule\<close> is called.\<close>

lemma fold_schedule_next: "rq_next q \<noteq> nullptr \<Longrightarrow> rq_next (fold rq_schedule hs q) \<noteq> nullptr"
  by (induction hs arbitrary: q) (simp_all add: rq_schedule_def)

lemma fold_schedule_busy:
  assumes "rq_inv q" and "\<not> rq_fault (fold rq_schedule hs q)" and "ready q \<noteq> []"
  shows "ready (fold rq_schedule hs q) \<noteq> []"
  using assms(3) fold_schedule_ready [OF assms(1,2)] fold_schedule_next [of q hs]
  by (auto simp: ready_def split: if_splits)

lemma busy_iteration_submitted:
  assumes inv: "rq_inv (sc_rq s)" and run: "iteration pg ki s = Some s'" and ok: "\<not> rq_fault (sc_rq s')"
    and busy: "ready (sc_rq s) \<noteq> []"
  shows "sc_submitted s' = sc_submitted s"
  using run
proof (rule iteration_cases)
  fix s1 s2 batch q
  assume s1: "run_ticks (ki_now ki) s = Some s1" and s2: "process_inbox pg s1 = Some s2"
    and b: "try_dequeue_batch 16 (sc_rq s2) = (batch, q)"
    and final: "if batch = [] then process_io_events pg ki (submit_queued (s2\<lparr> sc_rq := q \<rparr>)) = Some s'
         else poll pg (ki_cqes ki) (fold (resume_one pg) batch (s2\<lparr> sc_rq := q \<rparr>)) = Some s'"
    and o1: "only_schedules s s2" and o2: "only_schedules (s2\<lparr> sc_rq := q \<rparr>) s'"
  obtain hs where hs: "sc_rq s2 = fold rq_schedule hs (sc_rq s)"
    using o1 by (auto simp: only_schedules_def)
  have "\<not> rq_fault q"
    using ok o2 rq_fault_fold [of q] by (auto simp: only_schedules_def)
  moreover have "rq_fault q = rq_fault (sc_rq s2)"
    using b by (auto simp: try_dequeue_batch_def split_beta Let_def)
  ultimately have nf: "\<not> rq_fault (fold rq_schedule hs (sc_rq s))"
    using hs by simp
  have "ready (sc_rq s2) \<noteq> []"
    unfolding hs by (rule fold_schedule_busy [OF inv nf busy])
  moreover have "rq_inv (sc_rq s2)"
    unfolding hs using fold_schedule_ready [OF inv nf] by blast
  ultimately have "batch \<noteq> []"
    using batch_ready(1) [of "sc_rq s2" 16] b by auto
  then show ?thesis
    using final sub.poll sub.resumes [of pg batch "s2\<lparr> sc_rq := q \<rparr>"]
      sub.process_inbox [OF s2] sub.run_ticks [OF s1] by fastforce
qed

section \<open>A fresh scheduler\<close>

lemma scheduler_new_inv:
  assumes "scheduler_new core fd ns e (2 ^ k) (2 ^ m) = Inr s" and "k < 32" and "m < 64"
  shows "rq_inv (sc_rq s)" and "ready (sc_rq s) = []" and "sq_inv (sc_inbox s)"
    and "sq_contents (sc_inbox s) = []" and "\<not> rq_fault (sc_rq s)" and "sc_env s = e"
    and "sq_room (sc_inbox s) = 2 ^ m" and "sc_id s = core"
proof -
  obtain l where l: "local_queue_new (2 ^ k) = Inr l" "lq_inv l" "lq_contents l = []"
    using local_queue_new_pow2 [OF assms(2)] by blast
  obtain i :: "'a option spsc_queue" where i: "spsc_new (2 ^ m) = Inr i" "sq_inv i" "sq_contents i = []"
    "sq_room i = 2 ^ m"
    using spsc_new_pow2 [OF assms(3)] by blast
  show "rq_inv (sc_rq s)" "ready (sc_rq s) = []" "sq_inv (sc_inbox s)" "sq_contents (sc_inbox s) = []"
    "\<not> rq_fault (sc_rq s)" "sc_env s = e" "sq_room (sc_inbox s) = 2 ^ m" "sc_id s = core"
    using assms(1) l i by (auto simp: scheduler_new_def rq_inv_def ready_def)
qed

section \<open>Properties\<close>

text \<open>
  The first coroutine scheduled after a batch overtakes every coroutine already queued, the
  later ones line up behind them in order, and a batch hands out the first \<open>n\<close> ready coroutines.
\<close>

lemma schedule_and_batch:
  assumes "rq_inv q" and "rq_next q = nullptr" and "\<not> rq_fault (fold rq_schedule (h # hs) q)" and "0 < n"
  shows "ready (fold rq_schedule (h # hs) q) = h # ready q @ hs
     \<and> fst (try_dequeue_batch n (fold rq_schedule (h # hs) q)) = take n (h # ready q @ hs)
     \<and> ready (snd (try_dequeue_batch n (fold rq_schedule (h # hs) q))) = drop n (h # ready q @ hs)"
proof -
  have ok: "\<not> rq_fault (rq_schedule h q)"
    using assms(3) rq_fault_fold by fastforce
  note one = schedule_ready [OF assms(1) ok]
  have busy: "rq_next (rq_schedule h q) \<noteq> nullptr"
    using ok assms(2) by (simp add: rq_schedule_def)
  have "rq_inv p \<Longrightarrow> rq_next p \<noteq> nullptr \<Longrightarrow> \<not> rq_fault (fold rq_schedule gs p) \<Longrightarrow>
      ready (fold rq_schedule gs p) = ready p @ gs" for p gs
  proof (induction gs arbitrary: p)
    case (Cons g gs)
    have "\<not> rq_fault (rq_schedule g p)"
      using Cons.prems(3) rq_fault_fold by fastforce
    note one = schedule_ready [OF Cons.prems(1) this]
    show ?case
      using Cons one fold_schedule_next [of p "[g]"] by simp
  qed simp
  from this [OF one(1) busy] have r: "ready (fold rq_schedule (h # hs) q) = h # ready q @ hs"
    using assms(2,3) one(2) by simp
  have "rq_inv (fold rq_schedule (h # hs) q)"
    using fold_schedule_ready [OF assms(1,3)] by blast
  note b = batch_ready [OF this assms(4)]
  show ?thesis
    using r b(1,2) by simp
qed

definition example_rq :: run_queue where
  "example_rq = \<lparr> rq_next = nullptr, rq_local = example_lq, rq_calls = [], rq_taken = [], rq_fault = False \<rparr>"

lemma example_rq_inv: "rq_inv example_rq" "ready example_rq = []"
proof -
  have "lq_inv example_lq" and "lq_contents example_lq = []"
    using local_queue_new_pow2 [of 1] example_lq_new by auto
  then show "rq_inv example_rq" and "ready example_rq = []"
    by (simp_all add: example_rq_def rq_inv_def ready_def)
qed

lemma example_rq_run: "\<not> rq_fault (fold rq_schedule [5, 6] example_rq)"
  by (simp add: example_rq_def example_lq_def rq_schedule_def lq_room_def lq_size_def)

lemma schedule_and_batch_instance:
  "fst (try_dequeue_batch 16 (fold rq_schedule [5, 6] example_rq)) = [5, 6]"
  using schedule_and_batch [OF example_rq_inv(1) _ example_rq_run, of 16] example_rq_inv(2)
  by (simp add: example_rq_def)

definition example_program :: "(nat, handle list) program" where
  "example_program = \<lparr> pg_resume = (\<lambda>h e. (if h = 5 then [Schedule 9] else [], e @ [h])),
     pg_done = (\<lambda>_ _. False), pg_task = (\<lambda>c e. ([Schedule 5, Schedule 6], e)),
     pg_multi = (\<lambda>_ _ _ e. ([], e)) \<rparr>"

definition example_input :: kernel_input where
  "example_input = \<lparr> ki_now = 0, ki_idle_now = 0, ki_wait = (\<lambda>_. 0), ki_cqes =
     [\<lparr> cqe_user_data = 2 + 32, cqe_res = 0, cqe_flags = 0 \<rparr>] \<rparr>"

definition example_spsc :: "nat option spsc_queue" where
  "example_spsc = \<lparr> sq_capacity = 2, sq_mask = 1, sq_tail = 0, sq_head = 0, sq_buffer = [None, None] \<rparr>"

definition example_scheduler :: "(nat, handle list) scheduler" where
  "example_scheduler = \<lparr> sc_id = 0, sc_fd = 3, sc_rq = example_rq, sc_inbox = example_spsc,
     sc_wheel = wheel_init sample_nodes, sc_last_tick = 0,
     sc_contexts = \<lparr> io_ctx = (\<lambda>_. None), io_fault = False \<rparr>, sc_queued = [], sc_submitted = [],
     sc_metrics = metrics_zero, sc_outbox = [], sc_env = [] \<rparr>"

lemma example_scheduler_new: "scheduler_new 0 3 sample_nodes [] (2 ^ 1) (2 ^ 1) = Inr example_scheduler"
proof -
  have "spsc_new (2 ^ 1) = Inr example_spsc"
    by code_simp
  then show ?thesis
    using example_lq_new by (simp add: scheduler_new_def example_scheduler_def example_rq_def)
qed

text \<open>What the concrete runs below are about.\<close>

definition summary :: "('c, 'e) scheduler \<Rightarrow> handle list \<times> handle list \<times> bool \<times> 'e" where
  "summary s = (rq_calls (sc_rq s), rq_taken (sc_rq s), rq_fault (sc_rq s), sc_env s)"

text \<open>
  C29: draining the inbox ends when no task dispatches to its own core, and then every queued task
  has run exactly once, in the order of the queue, and has been counted; the inbox is empty.
\<close>

theorem inbox_drained:
  assumes "scheduler_new core fd ns e (2 ^ k) (2 ^ m) = Inr s" and "k < 32" and "m < 64"
    and "length ts \<le> 2 ^ m" and "\<forall>c e. never_dispatches core (fst (pg_task pg c e))"
  shows "\<exists>s'. process_inbox pg (fold (\<lambda>t s. snd (push_inbox t s)) ts s) = Some s'
     \<and> sc_env s' = after_tasks pg ts e \<and> sq_contents (sc_inbox s') = []
     \<and> inbox_messages_processed (sc_metrics s') - inbox_messages_processed (sc_metrics s) = of_nat (length ts)"
proof -
  note new = scheduler_new_inv [OF assms(1-3)]
  let ?s = "fold (\<lambda>t s. snd (push_inbox t s)) ts s"
  have s: "?s = s\<lparr> sc_inbox := fold spsc_enq ts (sc_inbox s) \<rparr>"
    by (induction ts arbitrary: s) (simp_all add: push_inbox_def spsc_enq_def split_beta)
  have "sq_inv (fold spsc_enq ts (sc_inbox s)) \<and> sq_contents (fold spsc_enq ts (sc_inbox s)) = ts"
    using sq.enq_list [OF new(3), of ts] new(4,7) assms(4) by simp
  then show ?thesis
    using process_inbox_drains [of ?s pg] assms(5) new(6,8) unfolding s by auto
qed

theorem inbox_drained_witness:
  "\<exists>s'. process_inbox example_program (snd (push_inbox (Some 4) example_scheduler)) = Some s'
     \<and> sq_contents (sc_inbox s') = []"
proof -
  have "\<forall>c e. never_dispatches 0 (fst (pg_task example_program c e))"
    by (simp add: never_dispatches_def example_program_def)
  from inbox_drained [OF example_scheduler_new _ _ _ this, of "[Some 4]"] show ?thesis
    by auto
qed

text \<open>
  C39: a task that dispatches itself to its own core is found by the same drain loop again: the loop
  never ends, and the worker runs no other coroutine, timer or completion any more.
\<close>

theorem inbox_self_dispatch_diverges:
  assumes "sq_inv (sc_inbox s)" and "sq_contents (sc_inbox s) = [Some c]"
    and "\<forall>e. fst (pg_task pg c e) = [Dispatch (sc_id s) (Some c)]"
  shows "process_inbox pg s = None"
proof -
  have "process_inbox pg s = Some s' \<Longrightarrow> sq_inv (sc_inbox s) \<Longrightarrow> sq_contents (sc_inbox s) = [Some c] \<Longrightarrow>
      (\<And>e. fst (pg_task pg c e) = [Dispatch (sc_id s) (Some c)]) \<Longrightarrow> False" for s'
  proof (induction pg s s' rule: process_inbox_induct)
    case (step rec pg s s')
    obtain q where pop: "spsc_pop (sc_inbox s) = ((True, Some (Some c)), q)" "sq_inv q" "sq_contents q = []"
      "sq_room q = Suc (sq_room (sc_inbox s))"
      using spsc_pop_head [OF step.prems(1)] step.prems(2) by auto
    let ?s1 = "s\<lparr> sc_inbox := q, sc_metrics := metrics_record_inbox_processed (sc_metrics s) \<rparr>"
    let ?s2 = "run_code (pg_task pg c) ?s1"
    have room: "0 < sq_room q"
      using pop(4) by simp
    have "sc_inbox ?s2 = spsc_enq (Some c) q" and "sc_id ?s2 = sc_id s"
      using step.prems(3) [of "sc_env s"]
      by (simp_all add: run_code_def split_beta Let_def do_action_def push_inbox_def spsc_enq_def)
    moreover have "rec pg ?s2 = Some s'"
      using step.hyps pop(1) by (simp add: Let_def)
    ultimately show False
      using step.IH [of pg ?s2 s'] sq.inv_enq [OF pop(2) room] sq.contents_enq [OF pop(2) room] pop(3) step.prems(3)
      by simp
  qed
  then show ?thesis
    using assms by (cases "process_inbox pg s") auto
qed

definition yield_program :: "(nat, handle list) program" where
  "yield_program = example_program\<lparr> pg_task := (\<lambda>c e. ([Dispatch 0 (Some c)], e)) \<rparr>"

theorem inbox_self_dispatch_diverges_witness:
  "process_inbox yield_program (snd (push_inbox (Some 4) example_scheduler)) = None"
proof (rule inbox_self_dispatch_diverges [where c = 4])
  have start: "sq_inv example_spsc" "sq_contents example_spsc = []" "0 < sq_room example_spsc"
    using scheduler_new_inv [OF example_scheduler_new] by (simp_all add: example_scheduler_def)
  have inbox: "sc_inbox (snd (push_inbox (Some 4) example_scheduler)) = spsc_enq (Some 4) example_spsc"
    by (simp add: push_inbox_def split_beta spsc_enq_def example_scheduler_def)
  show "sq_inv (sc_inbox (snd (push_inbox (Some 4) example_scheduler)))"
    unfolding inbox by (rule sq.inv_enq [OF start(1,3)])
  show "sq_contents (sc_inbox (snd (push_inbox (Some 4) example_scheduler))) = [Some 4]"
    unfolding inbox by (simp add: sq.contents_enq [OF start(1,3)] start(2))
  show "\<forall>e. fst (pg_task yield_program 4 e)
      = [Dispatch (sc_id (snd (push_inbox (Some 4) example_scheduler))) (Some 4)]"
    by (simp add: yield_program_def push_inbox_def split_beta example_scheduler_def)
qed

text \<open>
  Requests are handed to the kernel by idle iterations only: an iteration that starts with a
  ready coroutine submits nothing, so a worker that is never idle never starts an I/O request.
\<close>

lemma busy_iteration_submits_nothing:
  assumes "rq_inv (sc_rq s)" and "iteration pg ki s = Some s'" and "\<not> rq_fault (sc_rq s')"
    and "ready (sc_rq s) \<noteq> []"
  shows "sc_submitted s' = sc_submitted s"
  by (rule busy_iteration_submitted [OF assms])

definition busy_example :: "(nat, handle list) scheduler" where
  "busy_example = example_scheduler\<lparr> sc_rq := fold rq_schedule [5, 6] example_rq,
     sc_queued := [sqe_new (CloseDirect 3)] \<rparr>"

lemma busy_iteration_submits_nothing_instance:
  "\<exists>s'. iteration example_program example_input busy_example = Some s' \<and> sc_submitted s' = []"
proof -
  have "map_option summary (iteration example_program example_input busy_example)
      = Some ([5, 6, 9, 32], [5, 6], False, [5, 6])"
    by code_simp
  then obtain s' where s': "iteration example_program example_input busy_example = Some s'"
    "\<not> rq_fault (sc_rq s')"
    by (auto simp: summary_def)
  have inv: "rq_inv (sc_rq busy_example)"
    using fold_schedule_ready [OF example_rq_inv(1) example_rq_run] by (simp add: busy_example_def)
  have "ready (sc_rq busy_example) \<noteq> []"
    by code_simp
  from busy_iteration_submits_nothing [OF inv s' this] show ?thesis
    using s'(1) by (simp add: busy_example_def example_scheduler_def)
qed

text \<open>The wait of an idle scheduler is the answer of \<open>next_timeout\<close>: for ever without timers,
  not at all when it is 0, and otherwise a time specification of exactly that many milliseconds.\<close>

lemma idle_wait_duration:
  "(case wait_for ms of
      WaitForever \<Rightarrow> ms = -1
    | Peek \<Rightarrow> ms = 0
    | WaitAtMost sec nsec \<Rightarrow> unat sec * 1000 + unat nsec div 1000000 = unat ms
        \<and> unat nsec mod 1000000 = 0 \<and> unat nsec < 1000000000)"
proof -
  have m: "unat (ms mod 1000) = unat ms mod 1000" and d: "unat (ms div 1000) = unat ms div 1000"
    by (simp_all add: unat_mod_distrib unat_div_distrib)
  have "unat (ms mod 1000) * 1000000 < 2 ^ 64"
    unfolding m by (rule le_less_trans [of _ "999 * 1000000"]) simp_all
  then have n: "unat (ms mod 1000 * 1000000) = unat ms mod 1000 * 1000000"
    by (simp add: unat_word_ariths m)
  show ?thesis
    using n d by (simp add: wait_for_def)
qed

end
