(* ===== verification/Runtime.thy ===== *)
theory Runtime
  imports Scheduler_Props
begin

text \<open>
  \<open>Runtime\<close> of \<open>include/novaio/runtime.hpp\<close> and \<open>src/runtime.cpp\<close>: the schedulers, the threads that run
  them, the dispatch of tasks to a core and the notification of its ring. A thread that is not a
  worker notifies through a ring of its own, whose liburing calls are parameters.
\<close>

section \<open>State\<close>

record ('c, 'e, 'r) runtime =
  rt_running :: bool
  rt_schedulers :: "('c, 'e) scheduler list"
  rt_workers :: "nat list"     \<comment> \<open>the index of the scheduler each worker thread runs\<close>
  rt_ext :: 'r                 \<comment> \<open>the calling thread's \<open>tl_ext_ring\<close>\<close>

text \<open>The ring of an external thread: claiming, filling and submitting an entry, whether a completion
  is there and its removal; and, to say what they do, the filled entries, those handed to the kernel
  and the number of completions.\<close>

record 'r ext_uring =
  xu_get :: "'r \<Rightarrow> 'r option"
  xu_put :: "sqe \<Rightarrow> 'r \<Rightarrow> 'r"
  xu_submit :: "'r \<Rightarrow> 'r"
  xu_advance :: "'r \<Rightarrow> 'r"
  xu_pending :: "'r \<Rightarrow> sqe list"
  xu_sent :: "'r \<Rightarrow> sqe list"
  xu_ready :: "'r \<Rightarrow> nat"

definition ext_law :: "'r ext_uring \<Rightarrow> bool" where
  "ext_law x \<longleftrightarrow>
     (\<forall>r r1. xu_get x r = Some r1 \<longrightarrow> xu_pending x r1 = xu_pending x r \<and> xu_sent x r1 = xu_sent x r)
     \<and> (\<forall>e r. xu_pending x (xu_put x e r) = xu_pending x r @ [e] \<and> xu_sent x (xu_put x e r) = xu_sent x r)
     \<and> (\<forall>r. xu_pending x (xu_submit x r) = [] \<and> xu_sent x (xu_submit x r) = xu_sent x r @ xu_pending x r)
     \<and> (\<forall>r. xu_get x (xu_submit x r) \<noteq> None)
     \<and> (\<forall>r. xu_ready x r > 0 \<longrightarrow> xu_ready x (xu_advance x r) < xu_ready x r)
     \<and> (\<forall>r. xu_pending x (xu_advance x r) = xu_pending x r \<and> xu_sent x (xu_advance x r) = xu_sent x r)"

section \<open>Starting\<close>

fun start_schedulers ::
    "(nat \<Rightarrow> timer_ptr \<Rightarrow> timer_node) \<Rightarrow> 'e \<Rightarrow> nat list \<Rightarrow> queue_error + ('c, 'e) scheduler list" where
  "start_schedulers ns e [] = Inr []"
| "start_schedulers ns e (i # is) =
     (case scheduler_new i (- 1) (ns i) e 65536 65536 of Inl err \<Rightarrow> Inl err | Inr s \<Rightarrow>
      case start_schedulers ns e is of Inl err \<Rightarrow> Inl err | Inr ss \<Rightarrow> Inr (s # ss))"

definition start :: "(nat \<Rightarrow> timer_ptr \<Rightarrow> timer_node) \<Rightarrow> 'e \<Rightarrow> nat
    \<Rightarrow> ('c, 'e, 'r) runtime \<Rightarrow> queue_error + ('c, 'e, 'r) runtime" where
  "start ns e num_cores rt =
     (case start_schedulers ns e [0..<num_cores] of Inl err \<Rightarrow> Inl err | Inr ss \<Rightarrow>
      Inr (rt\<lparr> rt_running := True, rt_schedulers := rt_schedulers rt @ ss,
               rt_workers := rt_workers rt @ [0..<num_cores] \<rparr>))"

definition with_scheduler :: "nat \<Rightarrow> (('c, 'e) scheduler \<Rightarrow> ('c, 'e) scheduler) \<Rightarrow> ('c, 'e, 'r) runtime \<Rightarrow> ('c, 'e, 'r) runtime" where
  "with_scheduler i f rt = rt\<lparr> rt_schedulers := (rt_schedulers rt)[i := f (rt_schedulers rt ! i)] \<rparr>"

text \<open>The worker's \<open>io_engine_.init()\<close> has opened a ring with this descriptor.\<close>

definition worker_init :: "nat \<Rightarrow> int \<Rightarrow> ('c, 'e, 'r) runtime \<Rightarrow> ('c, 'e, 'r) runtime" where
  "worker_init i fd = with_scheduler i (\<lambda>s. s\<lparr> sc_fd := fd \<rparr>)"

section \<open>Notifying and dispatching\<close>

partial_function (option) drain_completions :: "'r ext_uring \<Rightarrow> 'r \<Rightarrow> 'r option" where
  "drain_completions x r = (if xu_ready x r > 0 then drain_completions x (xu_advance x r) else Some r)"

declare drain_completions.simps [code]

definition ext_notify :: "'r ext_uring \<Rightarrow> int \<Rightarrow> u64 \<Rightarrow> 'r \<Rightarrow> 'r option" where
  "ext_notify x fd data r =
     (let (got, r1) = (case xu_get x r of
            Some r1 \<Rightarrow> (True, r1)
          | None \<Rightarrow> (case xu_get x (xu_submit x r) of
                Some r2 \<Rightarrow> (True, r2) | None \<Rightarrow> (False, xu_submit x r)));
          r3 = (if got then xu_submit x (xu_put x (sqe_new (MsgRing fd data)) r1) else r1)
      in drain_completions x r3)"

text \<open>\<open>cur\<close> is the index of the scheduler of the calling thread, if it is a worker.\<close>

definition notify_target_ring ::
    "'r ext_uring \<Rightarrow> nat option \<Rightarrow> int \<Rightarrow> u64 \<Rightarrow> ('c, 'e, 'r) runtime \<Rightarrow> ('c, 'e, 'r) runtime option" where
  "notify_target_ring x cur fd data rt =
     (case cur of
        Some i \<Rightarrow> Some (with_scheduler i (\<lambda>s. s\<lparr> sc_queued := sc_queued s @ [sqe_new (MsgRing fd data)] \<rparr>) rt)
      | None \<Rightarrow> map_option (\<lambda>r. rt\<lparr> rt_ext := r \<rparr>) (ext_notify x fd data (rt_ext rt)))"

definition dispatch_on ::
    "'r ext_uring \<Rightarrow> nat option \<Rightarrow> nat \<Rightarrow> 'c option \<Rightarrow> ('c, 'e, 'r) runtime \<Rightarrow> ('c, 'e, 'r) runtime option" where
  "dispatch_on x cur core task rt =
     (if core < length (rt_schedulers rt)
      then (let (pushed, s) = push_inbox task (rt_schedulers rt ! core);
                rt1 = with_scheduler core (\<lambda>_. s) rt
            in if pushed \<and> sc_fd s \<ge> 0 then notify_target_ring x cur (sc_fd s) TAG_INBOX rt1 else Some rt1)
      else Some rt)"

fun dispatch_all ::
    "'r ext_uring \<Rightarrow> nat option \<Rightarrow> (nat \<times> 'c option) list \<Rightarrow> ('c, 'e, 'r) runtime \<Rightarrow> ('c, 'e, 'r) runtime option" where
  "dispatch_all x cur [] rt = Some rt"
| "dispatch_all x cur ((core, t) # ds) rt =
     (case dispatch_on x cur core t rt of None \<Rightarrow> None | Some rt1 \<Rightarrow> dispatch_all x cur ds rt1)"

section \<open>Running and stopping\<close>

text \<open>What the code of worker \<open>i\<close> dispatched to other cores goes out through the runtime: the tasks into their inboxes,
  the notifications into the worker's own submission queue.\<close>

definition dispatch_out :: "'r ext_uring \<Rightarrow> nat \<Rightarrow> ('c, 'e, 'r) runtime \<Rightarrow> ('c, 'e, 'r) runtime option" where
  "dispatch_out x i rt =
     dispatch_all x (Some i) (sc_outbox (rt_schedulers rt ! i)) (with_scheduler i (\<lambda>s. s\<lparr> sc_outbox := [] \<rparr>) rt)"

text \<open>The round up to the point where an idle worker may block (\<open>True\<close>), and the rest of it.\<close>

definition worker_serve ::
    "'r ext_uring \<Rightarrow> ('c, 'e) program \<Rightarrow> kernel_input \<Rightarrow> nat \<Rightarrow> ('c, 'e, 'r) runtime \<Rightarrow> (bool \<times> ('c, 'e, 'r) runtime) option" where
  "worker_serve x pg ki i rt =
     (case gather pg ki (rt_schedulers rt ! i) of None \<Rightarrow> None | Some s1 \<Rightarrow>
      case dispatch_out x i (with_scheduler i (\<lambda>_. s1) rt) of None \<Rightarrow> None | Some rt1 \<Rightarrow>
      case serve pg ki (rt_schedulers rt1 ! i) of None \<Rightarrow> None
      | Some (Inl s2) \<Rightarrow> Some (True, with_scheduler i (\<lambda>_. s2) rt1)
      | Some (Inr s2) \<Rightarrow> map_option (Pair False) (dispatch_out x i (with_scheduler i (\<lambda>_. s2) rt1)))"

definition worker_wait ::
    "'r ext_uring \<Rightarrow> ('c, 'e) program \<Rightarrow> kernel_input \<Rightarrow> nat \<Rightarrow> ('c, 'e, 'r) runtime \<Rightarrow> ('c, 'e, 'r) runtime option" where
  "worker_wait x pg ki i rt =
     (case process_io_events pg ki (rt_schedulers rt ! i) of None \<Rightarrow> None | Some s \<Rightarrow>
      dispatch_out x i (with_scheduler i (\<lambda>_. s) rt))"

definition worker_round ::
    "'r ext_uring \<Rightarrow> ('c, 'e) program \<Rightarrow> kernel_input \<Rightarrow> nat \<Rightarrow> ('c, 'e, 'r) runtime \<Rightarrow> ('c, 'e, 'r) runtime option" where
  "worker_round x pg ki i rt =
     (if rt_running rt
      then (case worker_serve x pg ki i rt of None \<Rightarrow> None
            | Some (waits, rt1) \<Rightarrow> if waits then worker_wait x pg ki i rt1 else Some rt1)
      else Some rt)"

text \<open>\<open>stop\<close> up to the joins: an empty callable for each scheduler, to wake it.\<close>

definition stop :: "'r ext_uring \<Rightarrow> 'c \<Rightarrow> nat option \<Rightarrow> ('c, 'e, 'r) runtime \<Rightarrow> ('c, 'e, 'r) runtime option" where
  "stop x nop cur rt =
     dispatch_all x cur (map (\<lambda>i. (i, Some nop)) [0..<length (rt_schedulers rt)]) (rt\<lparr> rt_running := False \<rparr>)"

section \<open>External notifications\<close>

lemma ext_lawD:
  assumes "ext_law x"
  shows "xu_get x r = Some r1 \<Longrightarrow> xu_pending x r1 = xu_pending x r" "xu_get x r = Some r1 \<Longrightarrow> xu_sent x r1 = xu_sent x r"
    and "xu_pending x (xu_put x e r) = xu_pending x r @ [e]" "xu_sent x (xu_put x e r) = xu_sent x r"
    and "xu_pending x (xu_submit x r) = []" "xu_sent x (xu_submit x r) = xu_sent x r @ xu_pending x r"
    and "xu_get x (xu_submit x r) \<noteq> None"
    and "xu_ready x r > 0 \<Longrightarrow> xu_ready x (xu_advance x r) < xu_ready x r"
    and "xu_pending x (xu_advance x r) = xu_pending x r" "xu_sent x (xu_advance x r) = xu_sent x r"
  using assms unfolding ext_law_def by blast+

lemma drain_ends:
  assumes "ext_law x"
  shows "\<exists>r1. drain_completions x r = Some r1 \<and> xu_ready x r1 = 0 \<and> xu_pending x r1 = xu_pending x r
    \<and> xu_sent x r1 = xu_sent x r"
proof (induction "xu_ready x r" arbitrary: r rule: less_induct)
  case less
  show ?case
  proof (cases "xu_ready x r > 0")
    case True
    then show ?thesis
      using less [of "xu_advance x r"] ext_lawD(8) [OF assms True] ext_lawD(9,10) [OF assms]
      by (simp add: drain_completions.simps [of x r])
  qed (simp add: drain_completions.simps)
qed

lemma ext_notify_sends:
  assumes "ext_law x"
  shows "\<exists>r1. ext_notify x fd data r = Some r1 \<and> xu_ready x r1 = 0 \<and> xu_pending x r1 = []
    \<and> xu_sent x r1 = xu_sent x r @ xu_pending x r @ [sqe_new (MsgRing fd data)]"
proof -
  note L = ext_lawD [OF assms]
  let ?e = "sqe_new (MsgRing fd data)"
  have "\<exists>r1. ext_notify x fd data r = drain_completions x (xu_submit x (xu_put x ?e r1))
      \<and> xu_sent x r1 @ xu_pending x r1 = xu_sent x r @ xu_pending x r"
  proof (cases "xu_get x r")
    case None
    then obtain r2 where "xu_get x (xu_submit x r) = Some r2"
      using L(7) by blast
    then show ?thesis
      using None L(1,2) [of "xu_submit x r" r2] L(5,6) by (intro exI [of _ r2]) (simp add: ext_notify_def)
  next
    case (Some r1)
    then show ?thesis
      using L(1,2) [of r r1] by (auto simp: ext_notify_def)
  qed
  then show ?thesis
    using drain_ends [OF assms] L(3-6) by (metis append.assoc)
qed

section \<open>Dispatching from outside\<close>

lemma push_accepted:
  assumes "sq_inv q" and "0 < sq_room q"
  shows "fst (spsc_push t q) = True"
proof -
  obtain k where k: "sq_shape k q" "sq_live q"
    using assms(1) by (auto elim: sq_invE)
  then have "sq_size q < 2 ^ k"
    using assms(2) by (simp add: sq_room_def sq_shapeD)
  from spsc_push_room(1) [OF k(1) this k(2)] show ?thesis
    by simp
qed

definition dispatched :: "nat \<Rightarrow> 'c option \<Rightarrow> ('c, 'e) scheduler list \<Rightarrow> ('c, 'e) scheduler list" where
  "dispatched core t ss = (if core < length ss then ss[core := snd (push_inbox t (ss ! core))] else ss)"

definition tasks_for :: "nat \<Rightarrow> (nat \<times> 'c option) list \<Rightarrow> 'c option list" where
  "tasks_for core ds = map snd (filter (\<lambda>d. fst d = core) ds)"

lemma dispatch_external:
  assumes "ext_law x"
  shows "\<exists>r. dispatch_on x None core t rt = Some (rt\<lparr> rt_schedulers := dispatched core t (rt_schedulers rt), rt_ext := r \<rparr>)"
proof -
  obtain r where "ext_notify x (sc_fd (snd (push_inbox t (rt_schedulers rt ! core)))) TAG_INBOX (rt_ext rt) = Some r"
    using ext_notify_sends [OF assms] by blast
  then show ?thesis
    by (cases rt) (auto simp: dispatch_on_def dispatched_def with_scheduler_def notify_target_ring_def split_beta Let_def)
qed

lemma dispatch_all_external:
  assumes "ext_law x"
  shows "\<exists>r. dispatch_all x None ds rt
     = Some (rt\<lparr> rt_schedulers := fold (\<lambda>d. dispatched (fst d) (snd d)) ds (rt_schedulers rt), rt_ext := r \<rparr>)"
proof (induction ds arbitrary: rt)
  case Nil
  then show ?case
    by (intro exI [of _ "rt_ext rt"]) simp
next
  case (Cons d ds)
  obtain core t where d: "d = (core, t)"
    by (cases d)
  obtain r where r: "dispatch_on x None core t rt
      = Some (rt\<lparr> rt_schedulers := dispatched core t (rt_schedulers rt), rt_ext := r \<rparr>)"
    using dispatch_external [OF assms] by blast
  show ?case
    using Cons.IH [of "rt\<lparr> rt_schedulers := dispatched core t (rt_schedulers rt), rt_ext := r \<rparr>"] d r by simp
qed

text \<open>Each scheduler only sees the tasks for its core, in their order.\<close>

lemma dispatched_nth:
  assumes "core < length ss"
  shows "length (fold (\<lambda>d. dispatched (fst d) (snd d)) ds ss) = length ss \<and>
    fold (\<lambda>d. dispatched (fst d) (snd d)) ds ss ! core
      = fold (\<lambda>t s. snd (push_inbox t s)) (tasks_for core ds) (ss ! core)"
  using assms
  by (induction ds arbitrary: ss) (auto simp: tasks_for_def dispatched_def nth_list_update)

section \<open>The schedulers of a fresh runtime\<close>

lemma start_schedulers_ok:
  "\<exists>ss :: ('c, 'e) scheduler list. start_schedulers ns e is = Inr ss \<and> length ss = length is
     \<and> (\<forall>k<length is. scheduler_new (is ! k) (- 1) (ns (is ! k)) e (2 ^ 16) (2 ^ 16) = Inr (ss ! k))"
proof (induction "is")
  case (Cons i "is")
  obtain l where l: "local_queue_new (2 ^ 16) = Inr l"
    using local_queue_new_pow2 [of 16] by auto
  obtain q :: "'c option spsc_queue" where q: "spsc_new (2 ^ 16) = Inr q"
    using spsc_new_pow2 [of 16] by auto
  obtain s :: "('c, 'e) scheduler" where s: "scheduler_new i (- 1) (ns i) e (2 ^ 16) (2 ^ 16) = Inr s"
    using l q by (simp add: scheduler_new_def)
  obtain ss :: "('c, 'e) scheduler list" where ss: "start_schedulers ns e is = Inr ss" "length ss = length is"
    "\<forall>k<length is. scheduler_new (is ! k) (- 1) (ns (is ! k)) e (2 ^ 16) (2 ^ 16) = Inr (ss ! k)"
    using Cons by blast
  show ?case
    using s ss by (intro exI [of _ "s # ss"]) (auto simp: less_Suc_eq_0_disj)
qed simp

lemma start_ok:
  fixes rt :: "('c, 'e, 'r) runtime"
  shows "\<exists>ss. start ns e n rt = Inr (rt\<lparr> rt_running := True, rt_schedulers := rt_schedulers rt @ ss,
         rt_workers := rt_workers rt @ [0..<n] \<rparr>)
     \<and> length ss = n \<and> (\<forall>k<n. scheduler_new k (- 1) (ns k) e (2 ^ 16) (2 ^ 16) = Inr (ss ! k))"
proof -
  obtain ss :: "('c, 'e) scheduler list" where "start_schedulers ns e [0..<n] = Inr ss" "length ss = n"
    "\<forall>k<n. scheduler_new k (- 1) (ns k) e (2 ^ 16) (2 ^ 16) = Inr (ss ! k)"
    using start_schedulers_ok [of ns e "[0..<n]"] by auto
  then show ?thesis
    by (intro exI [of _ ss]) (simp add: start_def)
qed

lemma new_id: "scheduler_new core fd ns e (2 ^ 16) (2 ^ 16) = Inr s \<Longrightarrow> sc_id s = core"
  using scheduler_new_inv(8) [of core fd ns e 16 16 s] by simp

section \<open>Properties\<close>

text \<open>
  C15: Tasks dispatched one after the other from a thread that is no worker, to any mix of cores, reach
  their schedulers: each worker that then drains its inbox runs exactly the tasks for its core, once
  each and in the order of the calls. Every dispatch returns.
\<close>

theorem runtime_delivers:
  fixes rt :: "('c, 'e, 'r) runtime"
  assumes "ext_law x" and "rt_schedulers rt0 = []" and "start ns e n rt0 = Inr rt" and "core < n"
    and "length (tasks_for core ds) \<le> 65536" and "\<forall>c e. never_dispatches core (fst (pg_task pg c e))"
  shows "\<exists>rt1 s. dispatch_all x None ds (worker_init core fd rt) = Some rt1
    \<and> process_inbox pg (rt_schedulers rt1 ! core) = Some s
    \<and> sc_env s = after_tasks pg (tasks_for core ds) e \<and> sq_contents (sc_inbox s) = []"
proof -
  obtain ss :: "('c, 'e) scheduler list" where rt: "rt_schedulers rt = ss" "length ss = n"
    and new: "scheduler_new core (- 1) (ns core) e (2 ^ 16) (2 ^ 16) = Inr (ss ! core)"
    using start_ok [of ns e n rt0] assms(2,3,4) by auto
  let ?rt = "worker_init core fd rt" and ?s0 = "(ss ! core)\<lparr> sc_fd := fd \<rparr>"
  have ss: "rt_schedulers ?rt = ss[core := ?s0]"
    using rt by (simp add: worker_init_def with_scheduler_def)
  obtain r where all: "dispatch_all x None ds ?rt
      = Some (?rt\<lparr> rt_schedulers := fold (\<lambda>d. dispatched (fst d) (snd d)) ds (rt_schedulers ?rt), rt_ext := r \<rparr>)"
    using dispatch_all_external [OF assms(1)] by blast
  let ?ts = "tasks_for core ds"
  have nth: "fold (\<lambda>d. dispatched (fst d) (snd d)) ds (rt_schedulers ?rt) ! core = fold (\<lambda>t s. snd (push_inbox t s)) ?ts ?s0"
    using dispatched_nth [of core "rt_schedulers ?rt" ds] ss rt(2) assms(4) by simp
  have push: "fold (\<lambda>t s. snd (push_inbox t s)) ts s = s\<lparr> sc_inbox := fold spsc_enq ts (sc_inbox s) \<rparr>"
    for ts and s :: "('c, 'e) scheduler"
    by (induction ts arbitrary: s) (simp_all add: push_inbox_def spsc_enq_def split_beta)
  note inv = scheduler_new_inv [OF new]
  have "sq_inv (fold spsc_enq ?ts (sc_inbox (ss ! core))) \<and> sq_contents (fold spsc_enq ?ts (sc_inbox (ss ! core))) = ?ts"
    using sq.enq_list [OF inv(3), of ?ts] inv(4,7) assms(5) by simp
  then show ?thesis
    using process_inbox_drains [of "?s0\<lparr> sc_inbox := fold spsc_enq ?ts (sc_inbox ?s0) \<rparr>" pg] assms(6) inv(6,8) all nth
    by (auto simp: push)
qed

text \<open>
  A dispatch from outside to a core whose worker has its ring open and whose inbox has room sends
  that ring one message, after whatever was still waiting in the caller's own ring; the completion
  it causes makes the worker drain its inbox.
\<close>

lemma dispatch_notifies:
  assumes "ext_law x" and "core < length (rt_schedulers rt)" and "s = rt_schedulers rt ! core"
    and "sq_inv (sc_inbox s)" and "0 < sq_room (sc_inbox s)" and "0 \<le> sc_fd s" and "cqe_user_data c = TAG_INBOX"
  shows "\<exists>rt1. dispatch_on x None core t rt = Some rt1 \<and> xu_pending x (rt_ext rt1) = []
    \<and> xu_sent x (rt_ext rt1) = xu_sent x (rt_ext rt) @ xu_pending x (rt_ext rt) @ [sqe_new (MsgRing (sc_fd s) TAG_INBOX)]
    \<and> poll_dispatch c = DrainInbox"
proof -
  obtain q where "spsc_push t (sc_inbox s) = (True, q)"
    using push_accepted [OF assms(4,5)] by (metis prod.collapse)
  then have push: "push_inbox t s = (True, s\<lparr> sc_inbox := q \<rparr>)"
    by (simp add: push_inbox_def)
  obtain r where r: "ext_notify x (sc_fd s) TAG_INBOX (rt_ext rt) = Some r" "xu_pending x r = []"
    "xu_sent x r = xu_sent x (rt_ext rt) @ xu_pending x (rt_ext rt) @ [sqe_new (MsgRing (sc_fd s) TAG_INBOX)]"
    using ext_notify_sends [OF assms(1)] by blast
  have "poll_dispatch c = DrainInbox"
    using assms(7) by (simp add: poll_dispatch_def cqe_tag_def cqe_payload_def TAG_INBOX_def TAG_MASK_def TAG_IO_def
        TAG_MULTI_def TAG_CORO_def)
  then show ?thesis
    using assms(2,3,6) push r
    by (auto simp: dispatch_on_def notify_target_ring_def with_scheduler_def)
qed

text \<open>
  A dispatch to a core that does not exist, or whose inbox is full, changes nothing and tells the
  caller nothing: the task is gone.
\<close>

lemma dispatch_drops:
  assumes "length (rt_schedulers rt) \<le> core \<or>
    sq_inv (sc_inbox (rt_schedulers rt ! core)) \<and> sq_room (sc_inbox (rt_schedulers rt ! core)) = 0"
  shows "dispatch_on x cur core t rt = Some rt"
proof (cases "core < length (rt_schedulers rt)")
  case True
  then have "push_inbox t (rt_schedulers rt ! core) = (False, rt_schedulers rt ! core)"
    using assms by (simp add: push_inbox_def spsc_push_full)
  then show ?thesis
    using True by (simp add: dispatch_on_def with_scheduler_def)
qed (simp add: dispatch_on_def)

text \<open>
  Starting a fresh runtime gives scheduler \<open>i\<close> the identity \<open>i\<close> and one worker each; starting it
  again numbers the new schedulers and their workers from 0 again: the first scheduler is run by two
  threads, the new ones by none, and a dispatch to the identity of a new scheduler goes to an old one.
\<close>

lemma start_twice:
  assumes "rt_schedulers rt0 = []" and "rt_workers rt0 = []" and "0 < n"
  shows "\<exists>rt1 rt2. start ns e n rt0 = Inr rt1 \<and> map sc_id (rt_schedulers rt1) = [0..<n] \<and> rt_workers rt1 = [0..<n]
    \<and> start ns e n rt1 = Inr rt2 \<and> map sc_id (rt_schedulers rt2) = [0..<n] @ [0..<n]
    \<and> count_list (rt_workers rt2) 0 = 2 \<and> n \<notin> set (rt_workers rt2)"
proof -
  obtain ss where ss: "start ns e n rt0 = Inr (rt0\<lparr> rt_running := True, rt_schedulers := ss, rt_workers := [0..<n] \<rparr>)"
    "length ss = n" "\<forall>k<n. sc_id (ss ! k) = k"
    using start_ok [of ns e n rt0] assms(1,2) new_id by (metis append_Nil)
  let ?rt1 = "rt0\<lparr> rt_running := True, rt_schedulers := ss, rt_workers := [0..<n] \<rparr>"
  obtain ss2 where ss2: "start ns e n ?rt1
      = Inr (?rt1\<lparr> rt_running := True, rt_schedulers := ss @ ss2, rt_workers := [0..<n] @ [0..<n] \<rparr>)"
    "length ss2 = n" "\<forall>k<n. sc_id (ss2 ! k) = k"
    using start_ok [of ns e n ?rt1] new_id by fastforce
  have ids: "map sc_id ss = [0..<n]" "map sc_id ss2 = [0..<n]"
    using ss(2,3) ss2(2,3) by (simp_all add: list_eq_iff_nth_eq)
  have "[0..<n] = 0 # [1..<n]"
    using assms(3) by (simp add: upt_conv_Cons)
  then have "count_list [0..<n] 0 = 1"
    by (simp add: count_list_0_iff)
  then show ?thesis
    using ss(1) ss2(1) ids by simp
qed

section \<open>Concrete instances\<close>

text \<open>A ring of 16 entries as in \<open>ExtRingGuard\<close>: filled entries, entries sent, completions.\<close>

definition example_ext :: "(sqe list \<times> sqe list \<times> nat) ext_uring" where
  "example_ext = \<lparr> xu_get = (\<lambda>r. if length (fst r) < 16 then Some r else None),
     xu_put = (\<lambda>e (p, s, n). (p @ [e], s, n)), xu_submit = (\<lambda>(p, s, n). ([], s @ p, n + length p)),
     xu_advance = (\<lambda>(p, s, n). (p, s, n - 1)), xu_pending = fst, xu_sent = (\<lambda>r. fst (snd r)),
     xu_ready = (\<lambda>r. snd (snd r)) \<rparr>"

lemma example_ext_law: "ext_law example_ext"
  by (simp add: ext_law_def example_ext_def split_beta split: if_splits)

definition example_runtime :: "(nat, handle list, sqe list \<times> sqe list \<times> nat) runtime" where
  "example_runtime = \<lparr> rt_running = True, rt_schedulers = [], rt_workers = [], rt_ext = ([], [], 0) \<rparr>"

theorem runtime_delivers_witness:
  "\<exists>rt rt1 s. start (\<lambda>_. sample_nodes) [] 2 example_runtime = Inr rt
    \<and> dispatch_all example_ext None [(0, Some 4), (1, Some 7), (5, None), (1, None)] (worker_init 1 3 rt) = Some rt1
    \<and> process_inbox example_program (rt_schedulers rt1 ! 1) = Some s
    \<and> sc_env s = [] \<and> sq_contents (sc_inbox s) = []"
proof -
  obtain rt where rt: "start (\<lambda>_. sample_nodes) [] 2 example_runtime = Inr rt"
    using start_ok [of "\<lambda>_. sample_nodes" "[]" 2 example_runtime] by (elim exE conjE)
  have calm: "\<forall>c e. never_dispatches 1 (fst (pg_task example_program c e))"
    by (simp add: never_dispatches_def example_program_def)
  let ?ds = "[(0, Some 4), (1, Some 7), (5, None), (1, None)] :: (nat \<times> nat option) list"
  have ts: "tasks_for 1 ?ds = [Some 7, None]"
    by (simp add: tasks_for_def)
  have empty: "rt_schedulers example_runtime = []"
    by (simp add: example_runtime_def)
  have n: "(1::nat) < 2" "length (tasks_for 1 ?ds) \<le> 65536"
    by (simp_all add: tasks_for_def)
  have env: "after_tasks example_program [Some 7, None] [] = []"
    by (simp add: example_program_def)
  obtain rt1 s where "dispatch_all example_ext None ?ds (worker_init 1 3 rt) = Some rt1"
    and "process_inbox example_program (rt_schedulers rt1 ! 1) = Some s"
    and "sc_env s = after_tasks example_program (tasks_for 1 ?ds) []" and "sq_contents (sc_inbox s) = []"
    using runtime_delivers [OF example_ext_law empty rt n calm, of 3] by (elim exE conjE)
  then show ?thesis
    using rt unfolding ts env by (intro exI conjI)
qed

definition one_scheduler :: "(nat, handle list, sqe list \<times> sqe list \<times> nat) runtime" where
  "one_scheduler = example_runtime\<lparr> rt_schedulers := [example_scheduler] \<rparr>"

lemma dispatch_notifies_instance:
  "\<exists>rt1. dispatch_on example_ext None 0 (Some 4) one_scheduler = Some rt1
    \<and> xu_sent example_ext (rt_ext rt1) = [sqe_new (MsgRing 3 TAG_INBOX)]"
proof -
  have s: "rt_schedulers one_scheduler ! 0 = example_scheduler" "0 < length (rt_schedulers one_scheduler)"
    by (simp_all add: one_scheduler_def)
  have inv: "sq_inv (sc_inbox example_scheduler)" "0 < sq_room (sc_inbox example_scheduler)"
    using scheduler_new_inv [OF example_scheduler_new] by simp_all
  have fd: "sc_fd example_scheduler = 3"
    by (simp add: example_scheduler_def)
  have "cqe_user_data \<lparr> cqe_user_data = TAG_INBOX, cqe_res = 0, cqe_flags = 0 \<rparr> = TAG_INBOX"
    by simp
  from dispatch_notifies [OF example_ext_law s(2) s(1) [symmetric] inv _ this, of "Some 4"] fd show ?thesis
    by (auto simp: example_ext_def one_scheduler_def example_runtime_def)
qed

lemma dispatch_drops_instance:
  "dispatch_on example_ext (Some 0) 7 (Some 4) one_scheduler = Some one_scheduler"
  by (rule dispatch_drops) (simp add: one_scheduler_def)

lemma start_twice_instance:
  "\<exists>rt1 rt2. start (\<lambda>_. sample_nodes) [] 2 example_runtime = Inr rt1
    \<and> start (\<lambda>_. sample_nodes) [] 2 rt1 = Inr rt2 \<and> count_list (rt_workers rt2) 0 = 2"
  using start_twice [of example_runtime 2 "\<lambda>_. sample_nodes" "[]"] by (auto simp: example_runtime_def)

end
