(* ===== verification/Numa.thy ===== *)
theory Numa
  imports Novaio_Prelude "HOL-Library.Sublist"
begin

text \<open>
  How a worker places itself, \<open>detect_numa_node_for_cpu\<close> and \<open>setup_numa_and_affinity\<close> of
  \<open>src/scheduler.cpp\<close>: the node of a CPU is the number after \<open>node\<close> in the name of an entry of the
  CPU's directory in sysfs. The names come in the order in which the directory lists them; none when
  the directory cannot be read.
\<close>

section \<open>\<open>std::from_chars\<close> for \<open>int\<close>\<close>

datatype chars_error = InvalidArgument | OutOfRange

definition is_digit :: "char \<Rightarrow> bool" where
  "is_digit c \<longleftrightarrow> of_char CHR ''0'' \<le> (of_char c :: nat) \<and> (of_char c :: nat) \<le> of_char CHR ''9''"

definition digit_value :: "char \<Rightarrow> nat" where
  "digit_value c = of_char c - of_char CHR ''0''"

fun digits_value :: "nat \<Rightarrow> string \<Rightarrow> nat" where
  "digits_value acc [] = acc"
| "digits_value acc (c # cs) = digits_value (10 * acc + digit_value c) cs"

text \<open>The unparsed rest, the error, and the value, which stays \<open>v0\<close> after an error.\<close>

definition from_chars :: "string \<Rightarrow> int \<Rightarrow> string \<times> chars_error option \<times> int" where
  "from_chars s v0 =
     (let neg = (case s of c # _ \<Rightarrow> c = CHR ''-'' | [] \<Rightarrow> False);
          body = (if neg then tl s else s);
          ds = takeWhile is_digit body; rest = dropWhile is_digit body;
          v = (if neg then - int (digits_value 0 ds) else int (digits_value 0 ds))
      in if ds = [] then (s, Some InvalidArgument, v0)
         else if v < - (2 ^ 31) \<or> 2 ^ 31 \<le> v then (rest, Some OutOfRange, v0)
         else (rest, None, v))"

section \<open>The node of a CPU\<close>

fun detect_numa_node :: "string list \<Rightarrow> int" where
  "detect_numa_node [] = - 1"
| "detect_numa_node (name # names) =
     (if \<not> prefix ''node'' name then detect_numa_node names
      else (let (rest, ec, node) = from_chars (drop 4 name) (- 1) in
            if ec = None \<and> rest = [] then node else detect_numa_node names))"

datatype placement = PinTo nat | HeapNew | HeapNuma int | UseHeap

definition setup_numa_and_affinity :: "nat \<Rightarrow> string list \<Rightarrow> placement list" where
  "setup_numa_and_affinity core names =
     (let node = detect_numa_node names
      in [PinTo core, HeapNew] @ (if node \<ge> 0 then [HeapNuma node] else []) @ [UseHeap])"

section \<open>Decimal numbers\<close>

fun decimal :: "nat \<Rightarrow> string" where
  "decimal n = (if n < 10 then [char_of (n + 48)] else decimal (n div 10) @ [char_of (n mod 10 + 48)])"

declare decimal.simps [simp del]

lemma digit_char:
  assumes "n < 10"
  shows "is_digit (char_of (n + 48 :: nat))" and "digit_value (char_of (n + 48 :: nat)) = n" and "char_of (n + 48 :: nat) \<noteq> CHR ''-''"
proof -
  have c: "(of_char (char_of (n + 48 :: nat)) :: nat) = n + 48"
    using assms by simp
  show "is_digit (char_of (n + 48 :: nat))" "digit_value (char_of (n + 48 :: nat)) = n"
    using assms unfolding is_digit_def digit_value_def c by simp_all
  show "char_of (n + 48 :: nat) \<noteq> CHR ''-''"
    using c by force
qed

lemma decimal_digits: "list_all is_digit (decimal n) \<and> decimal n \<noteq> [] \<and> hd (decimal n) \<noteq> CHR ''-''"
proof (induction n rule: decimal.induct)
  case (1 n)
  show ?case
    using digit_char [of n] digit_char [of "n mod 10"] 1
    by (subst (1 2 3) decimal.simps) (auto simp: hd_append)
qed

lemma digits_value_append: "digits_value acc (xs @ [c]) = 10 * digits_value acc xs + digit_value c"
  by (induction xs arbitrary: acc) simp_all

lemma digits_value_decimal: "digits_value 0 (decimal n) = n"
proof (induction n rule: decimal.induct)
  case (1 n)
  show ?case
    using digit_char(2) [of n] digit_char(2) [of "n mod 10"] 1
    by (subst decimal.simps) (simp add: digits_value_append)
qed

lemma from_chars_decimal:
  assumes "n < 2 ^ 31"
  shows "from_chars (decimal n) v0 = ([], None, int n)"
proof -
  note D = decimal_digits [of n]
  obtain c cs where cs: "decimal n = c # cs" "c \<noteq> CHR ''-''"
    using D by (cases "decimal n") auto
  have all: "list_all is_digit (c # cs)"
    using D cs by simp
  then have "takeWhile is_digit (c # cs) = c # cs" "dropWhile is_digit (c # cs) = []"
    by (simp_all only: takeWhile_eq_all_conv dropWhile_eq_Nil_conv list_all_iff)
  then show ?thesis
    using assms digits_value_decimal [of n] cs unfolding from_chars_def cs(1) by (simp add: Let_def)
qed

text \<open>
  The node is the number of the first directory entry named \<open>node\<close> and a decimal number that fits
  an \<open>int\<close>: entries with other names before it, and everything after it, do not matter; the heap is
  then bound to that node.
\<close>

lemma numa_node_found:
  assumes "\<forall>name\<in>set before. \<not> prefix ''node'' name" and "n < 2 ^ 31"
  shows "detect_numa_node (before @ (''node'' @ decimal n) # after) = int n \<and>
    setup_numa_and_affinity core (before @ (''node'' @ decimal n) # after) = [PinTo core, HeapNew, HeapNuma (int n), UseHeap]"
proof -
  have "detect_numa_node (before @ (''node'' @ decimal n) # after) = int n"
    using assms(1) from_chars_decimal [OF assms(2), of "- 1"] by (induction before) simp_all
  then show ?thesis
    by (simp add: setup_numa_and_affinity_def)
qed

lemma numa_node_found_instance:
  "detect_numa_node [''cache'', ''node1'', ''power''] = 1"
proof -
  have "decimal 1 = ''1''"
    by code_simp
  moreover have "\<forall>name\<in>set [''cache'']. \<not> prefix ''node'' name"
    by simp
  ultimately show ?thesis
    using numa_node_found [of "[''cache'']" 1 "[''power'']"] by simp
qed

end
