(* ===== verification/Http_Server.thy ===== *)
theory Http_Server
  imports Runtime Numa Task_Direct
begin

text \<open>
  The two HTTP servers among the examples, \<open>examples/http_server.cpp\<close> (one coroutine per connection)
  and \<open>examples/http_server_multirecv.cpp\<close> (multishot receive with a callback). The answers of the
  requests and of the socket calls are inputs. The coroutines are bodies of \<open>Task\<close>, whose machine logs
  what they do; the callbacks give a list of actions.
\<close>

section \<open>Configuration from the environment\<close>

definition is_space :: "char \<Rightarrow> bool" where
  "is_space c \<longleftrightarrow> c = CHR '' '' \<or> (9 \<le> (of_char c :: nat) \<and> (of_char c :: nat) \<le> 13)"

text \<open>\<open>strtoul\<close> in base 10 of the C library: the number of characters parsed and the value.\<close>

definition strtoul :: "string \<Rightarrow> nat \<times> nat" where
  "strtoul s =
     (let ws = takeWhile is_space s; t = dropWhile is_space s;
          neg = (case t of c # _ \<Rightarrow> c = CHR ''-'' | [] \<Rightarrow> False);
          sgn = (case t of c # _ \<Rightarrow> c = CHR ''-'' \<or> c = CHR ''+'' | [] \<Rightarrow> False);
          ds = takeWhile is_digit (if sgn then tl t else t);
          v = digits_value 0 ds
      in if ds = [] then (0, 0)
         else (length ws + (if sgn then 1 else 0) + length ds,
               if 2 ^ 64 \<le> v then 2 ^ 64 - 1 else if neg then (2 ^ 64 - v) mod 2 ^ 64 else v))"

definition env_size_or :: "string option \<Rightarrow> nat \<Rightarrow> nat" where
  "env_size_or env fallback =
     (case env of None \<Rightarrow> fallback | Some value \<Rightarrow>
      let (parsed_chars, parsed) = strtoul value in
      if parsed_chars \<noteq> 0 \<and> parsed > 0 then parsed else fallback)"

definition server_cores :: "nat \<Rightarrow> string option \<Rightarrow> nat" where
  "server_cores hardware_concurrency cores_env = env_size_or cores_env (max 1 hardware_concurrency)"

definition server_listeners :: "nat \<Rightarrow> string option \<Rightarrow> string option \<Rightarrow> nat" where
  "server_listeners hardware_concurrency cores_env listeners_env =
     (let cores = server_cores hardware_concurrency cores_env
      in min (env_size_or listeners_env cores) cores)"

text \<open>The tasks the main thread dispatches, one listener per scheduler.\<close>

definition server_dispatches :: "nat \<Rightarrow> 'c \<Rightarrow> (nat \<times> 'c option) list" where
  "server_dispatches listeners listener = map (\<lambda>i. (i, Some listener)) [0..<listeners]"

text \<open>The multishot server dispatches eight listeners, whatever the number of its cores is.\<close>

definition multirecv_dispatches :: "'c \<Rightarrow> (nat \<times> 'c option) list" where
  "multirecv_dispatches listener = map (\<lambda>i. (i, Some listener)) [0..<8]"

text \<open>\<open>main\<close> up to its endless sleep: the runtime is started, then the listeners are dispatched from the main
  thread, which is no worker. \<open>None\<close> is a dispatch that does not return.\<close>

definition server_main :: "'r ext_uring \<Rightarrow> (nat \<Rightarrow> timer_ptr \<Rightarrow> timer_node) \<Rightarrow> 'e \<Rightarrow> nat \<Rightarrow> string option \<Rightarrow> string option
    \<Rightarrow> 'c \<Rightarrow> ('c, 'e, 'r) runtime \<Rightarrow> (queue_error + ('c, 'e, 'r) runtime) option" where
  "server_main x ns e hardware_concurrency cores_env listeners_env listener rt =
     (let cores = server_cores hardware_concurrency cores_env;
          listeners = server_listeners hardware_concurrency cores_env listeners_env
      in case start ns e cores rt of Inl err \<Rightarrow> Some (Inl err) | Inr rt1 \<Rightarrow>
         map_option Inr (dispatch_all x None (server_dispatches listeners listener) rt1))"

definition multirecv_main :: "'r ext_uring \<Rightarrow> (nat \<Rightarrow> timer_ptr \<Rightarrow> timer_node) \<Rightarrow> 'e \<Rightarrow> nat
    \<Rightarrow> 'c \<Rightarrow> ('c, 'e, 'r) runtime \<Rightarrow> (queue_error + ('c, 'e, 'r) runtime) option" where
  "multirecv_main x ns e hardware_concurrency listener rt =
     (case start ns e hardware_concurrency rt of Inl err \<Rightarrow> Some (Inl err) | Inr rt1 \<Rightarrow>
      map_option Inr (dispatch_all x None (multirecv_dispatches listener) rt1))"

section \<open>Listening sockets\<close>

text \<open>The calls that open a listening socket, with the descriptor and the port as it goes to the network,
  and the request of the engine. The answers of \<open>socket\<close> and \<open>bind\<close> are given.\<close>

datatype server_call =
    OpenSocket | ReuseAddr int | ReusePort int | DeferAccept int
  | Bind int u16 | Perror | Listen int nat | AcceptOn int

record socket_answers =
  sk_socket :: int
  sk_bind :: "int \<Rightarrow> u16 \<Rightarrow> int"

definition htons :: "u16 \<Rightarrow> u16" where
  "htons p = push_bit 8 p OR drop_bit 8 p"

definition start_multishot_server :: "socket_answers \<Rightarrow> int \<Rightarrow> server_call list" where
  "start_multishot_server sk port =
     (let server_fd = sk_socket sk; sin_port = htons (word_of_int port)
      in [OpenSocket, ReuseAddr server_fd, ReusePort server_fd, DeferAccept server_fd, Bind server_fd sin_port]
         @ (if sk_bind sk server_fd sin_port < 0 then [Perror]
            else [Listen server_fd 32768, AcceptOn server_fd]))"

definition start_server :: "socket_answers \<Rightarrow> int \<Rightarrow> server_call list" where
  "start_server sk port =
     (let server_fd = sk_socket sk; sin_port = htons (word_of_int port)
      in [OpenSocket, ReuseAddr server_fd, ReusePort server_fd, DeferAccept server_fd, Bind server_fd sin_port]
         @ (if sk_bind sk server_fd sin_port < 0 then [Perror]
            else [Listen server_fd 65535, AcceptOn server_fd]))"

section \<open>One coroutine per connection\<close>

definition CQE_F_BUFFER :: u32 where
  "CQE_F_BUFFER = 1"

definition buffer_of :: "u32 \<Rightarrow> u16 option" where
  "buffer_of flags = (if flags AND CQE_F_BUFFER \<noteq> 0 then Some (ucast (drop_bit 16 flags)) else None)"

datatype http_event =
    RecvReq int | RecvRes io_result
  | SendReq int | SendRes io_result
  | CloseReq int | CloseRes io_result
  | GiveBack u16

datatype session = AtRecv | AtSend | AtClose | Ended

definition give_back :: "u32 \<Rightarrow> http_event list" where
  "give_back flags = (case buffer_of flags of None \<Rightarrow> [] | Some b \<Rightarrow> [GiveBack b])"

type_synonym http_coro = "(unit, http_event, io_result, unit) coro"

text \<open>The places of \<open>handle_client\<close> between its actions: at the head of the loop, with the answer to the
  receive, after the buffer has been given back, with the answer to the send, and after the last request.\<close>

datatype client_point =
    At_Head
  | Received (answer: io_result)
  | Gave_Back (answer: io_result)
  | Sent (answer: io_result)
  | Closed

primcorec client :: "int \<Rightarrow> client_point \<Rightarrow> http_coro" where
  "client direct_fd p =
     (case p of
        At_Head \<Rightarrow> Co_Suspend (RecvReq direct_fd) (\<lambda>result. client direct_fd (Received result))
      | Received result \<Rightarrow>
          (if ior_flags result AND CQE_F_BUFFER \<noteq> 0
           then Co_Do (GiveBack (ucast (drop_bit 16 (ior_flags result)))) (client direct_fd (Gave_Back result))
           else if ior_res result \<le> 0 then Co_Suspend (CloseReq direct_fd) (\<lambda>_. client direct_fd Closed)
           else Co_Suspend (SendReq direct_fd) (\<lambda>send_result. client direct_fd (Sent send_result)))
      | Gave_Back result \<Rightarrow>
          (if ior_res result \<le> 0 then Co_Suspend (CloseReq direct_fd) (\<lambda>_. client direct_fd Closed)
           else Co_Suspend (SendReq direct_fd) (\<lambda>send_result. client direct_fd (Sent send_result)))
      | Sent send_result \<Rightarrow>
          (if ior_res send_result < 0 then Co_Suspend (CloseReq direct_fd) (\<lambda>_. client direct_fd Closed)
           else Co_Suspend (RecvReq direct_fd) (\<lambda>result. client direct_fd (Received result)))
      | Closed \<Rightarrow> Co_Return_Void)"

definition handle_client :: "bool \<Rightarrow> int \<Rightarrow> http_coro" where
  "handle_client on_scheduler direct_fd = (if on_scheduler then client direct_fd At_Head else Co_Return_Void)"

text \<open>The session as one reads it off the loop, with the answers in the trace.\<close>

fun client_close :: "int \<Rightarrow> io_result list \<Rightarrow> http_event list \<times> session" where
  "client_close fd [] = ([CloseReq fd], AtClose)"
| "client_close fd (r # rs) = ([CloseReq fd, CloseRes r], Ended)"

fun client_loop :: "int \<Rightarrow> io_result list \<Rightarrow> http_event list \<times> session"
  and client_send :: "int \<Rightarrow> io_result list \<Rightarrow> http_event list \<times> session" where
  "client_loop fd [] = ([RecvReq fd], AtRecv)"
| "client_loop fd (r # rs) =
     (let (log, st) = (if ior_res r \<le> 0 then client_close fd rs else client_send fd rs)
      in (RecvReq fd # RecvRes r # give_back (ior_flags r) @ log, st))"
| "client_send fd [] = ([SendReq fd], AtSend)"
| "client_send fd (r # rs) =
     (let (log, st) = (if ior_res r < 0 then client_close fd rs else client_loop fd rs)
      in (SendReq fd # SendRes r # log, st))"

text \<open>\<open>on_accept_callback\<close>: the descriptors for which a client coroutine is scheduled.\<close>

definition on_accept_callback :: "int \<Rightarrow> int list" where
  "on_accept_callback res = (if res \<ge> 0 then [res] else [])"

section \<open>Multishot receive\<close>

record connection =
  cn_fd :: int
  cn_counter :: int

datatype multi_act =
    ReturnBuffer u16
  | ScheduleClose int
  | ScheduleBusiness int int
  | RecvMultishot int nat     \<comment> \<open>descriptor and index of the connection\<close>

definition IORING_CQE_F_MORE :: u32 where
  "IORING_CQE_F_MORE = 2"

definition on_client_accept :: "int \<Rightarrow> (nat \<Rightarrow> connection) \<Rightarrow> multi_act list \<times> (nat \<Rightarrow> connection)" where
  "on_client_accept res cs =
     (if res \<ge> 0
      then ([RecvMultishot res (nat res)], cs(nat res := \<lparr> cn_fd = res, cn_counter = 0 \<rparr>))
      else ([], cs))"

definition on_client_recv :: "nat \<Rightarrow> int \<Rightarrow> u32 \<Rightarrow> (nat \<Rightarrow> connection) \<Rightarrow> multi_act list \<times> (nat \<Rightarrow> connection)" where
  "on_client_recv i res flags cs =
     (let back = (case buffer_of flags of None \<Rightarrow> [] | Some b \<Rightarrow> [ReturnBuffer b]); conn = cs i in
      if res \<le> 0 then (back @ [ScheduleClose (cn_fd conn)], cs)
      else (let conn1 = conn\<lparr> cn_counter := cn_counter conn + 1 \<rparr> in
            (back @ [ScheduleBusiness (cn_fd conn1) (cn_counter conn1)]
               @ (if flags AND IORING_CQE_F_MORE = 0 then [RecvMultishot (cn_fd conn1) i] else []),
             cs(i := conn1))))"

text \<open>The loop of \<open>handle_business_logic\<close> with \<open>n\<close> responses to send, and the coroutine that closes.\<close>

primrec send_responses :: "int \<Rightarrow> nat \<Rightarrow> http_coro" where
  "send_responses direct_fd 0 = Co_Return_Void"
| "send_responses direct_fd (Suc n) =
     Co_Suspend (SendReq direct_fd) (\<lambda>result. if ior_res result \<le> 0 then Co_Return_Void else send_responses direct_fd n)"

definition handle_business_logic :: "bool \<Rightarrow> int \<Rightarrow> int \<Rightarrow> http_coro" where
  "handle_business_logic on_scheduler direct_fd send_count =
     (if on_scheduler then send_responses direct_fd (nat send_count) else Co_Return_Void)"

definition close_connection :: "int \<Rightarrow> http_coro" where
  "close_connection fd = Co_Suspend (CloseReq fd) (\<lambda>_. Co_Return_Void)"

fun recv_all :: "nat \<Rightarrow> (int \<times> u32) list \<Rightarrow> (nat \<Rightarrow> connection) \<Rightarrow> multi_act list \<times> (nat \<Rightarrow> connection)" where
  "recv_all i [] cs = ([], cs)"
| "recv_all i ((res, flags) # ms) cs =
     (let (acts, cs1) = on_client_recv i res flags cs; (more, cs2) = recv_all i ms cs1 in (acts @ more, cs2))"

section \<open>What a session does\<close>

fun received_buffer :: "http_event \<Rightarrow> u16 list" where
  "received_buffer (RecvRes r) = (case buffer_of (ior_flags r) of None \<Rightarrow> [] | Some b \<Rightarrow> [b])"
| "received_buffer _ = []"

fun returned_buffer :: "http_event \<Rightarrow> u16 list" where
  "returned_buffer (GiveBack b) = [b]"
| "returned_buffer _ = []"

fun is_request :: "http_event \<Rightarrow> bool" where
  "is_request (RecvRes r) \<longleftrightarrow> ior_res r > 0"
| "is_request _ \<longleftrightarrow> False"

fun is_response :: "http_event \<Rightarrow> bool" where
  "is_response (SendReq _) \<longleftrightarrow> True"
| "is_response _ \<longleftrightarrow> False"

fun is_close :: "http_event \<Rightarrow> bool" where
  "is_close (CloseReq _) \<longleftrightarrow> True"
| "is_close _ \<longleftrightarrow> False"

definition closing :: "session \<Rightarrow> bool" where
  "closing st \<longleftrightarrow> st = AtClose \<or> st = Ended"

lemma give_back_log [simp]:
  "concat (map received_buffer (give_back f)) = []"
  "concat (map returned_buffer (give_back f)) = (case buffer_of f of None \<Rightarrow> [] | Some b \<Rightarrow> [b])"
  "filter is_request (give_back f) = []" "filter is_response (give_back f) = []" "filter is_close (give_back f) = []"
  by (cases "buffer_of f"; simp add: give_back_def)+

lemma close_log [simp]:
  "concat (map received_buffer (fst (client_close fd rs))) = []"
  "concat (map returned_buffer (fst (client_close fd rs))) = []"
  "filter is_request (fst (client_close fd rs)) = []" "filter is_response (fst (client_close fd rs)) = []"
  "length (filter is_close (fst (client_close fd rs))) = 1" "closing (snd (client_close fd rs))"
  by (cases rs; simp add: closing_def)+

lemma session_log:
  "concat (map returned_buffer (fst (client_loop fd rs))) = concat (map received_buffer (fst (client_loop fd rs)))
   \<and> length (filter is_response (fst (client_loop fd rs))) = length (filter is_request (fst (client_loop fd rs)))
   \<and> length (filter is_close (fst (client_loop fd rs))) = (if closing (snd (client_loop fd rs)) then 1 else 0)"
  "concat (map returned_buffer (fst (client_send fd rs))) = concat (map received_buffer (fst (client_send fd rs)))
   \<and> length (filter is_response (fst (client_send fd rs))) = Suc (length (filter is_request (fst (client_send fd rs))))
   \<and> length (filter is_close (fst (client_send fd rs))) = (if closing (snd (client_send fd rs)) then 1 else 0)"
proof (induction fd rs and fd rs rule: client_loop_client_send.induct)
  case (1 fd)
  then show ?case
    by (simp add: closing_def)
next
  case (2 fd r rs)
  then show ?case
    by (cases "ior_res r \<le> 0") (simp_all add: split_beta)
next
  case (3 fd)
  then show ?case
    by (simp add: closing_def)
next
  case (4 fd r rs)
  then show ?case
    by (cases "ior_res r < 0") (simp_all add: split_beta)
qed

section \<open>The coroutine of a session\<close>

fun is_answer :: "http_event \<Rightarrow> bool" where
  "is_answer (RecvRes _) \<longleftrightarrow> True"
| "is_answer (SendRes _) \<longleftrightarrow> True"
| "is_answer (CloseRes _) \<longleftrightarrow> True"
| "is_answer _ \<longleftrightarrow> False"

definition actions :: "http_event list \<Rightarrow> http_event list" where
  "actions log = filter (\<lambda>e. \<not> is_answer e) log"

text \<open>What a call of \<open>handle_client\<close> comes to, for a session with the given trace.\<close>

definition session_outcome :: "http_event list \<Rightarrow> io_result list \<Rightarrow> http_event list \<times> session
    \<Rightarrow> (unit, http_event, io_result, unit) outcome" where
  "session_outcome qs rs s =
     (if snd s = Ended then Done Nothing (qs @ actions (fst s)) (drop (length (filter is_answer (fst s))) rs)
      else Waiting (qs @ actions (fst s)))"

lemma client_closed: "client fd Closed = Co_Return_Void"
  by (subst client.code) simp

lemma client_head: "client fd At_Head = Co_Suspend (RecvReq fd) (\<lambda>r. client fd (Received r))"
  by (subst client.code) simp

lemma client_gave_back:
  "client fd (Gave_Back r) =
     (if ior_res r \<le> 0 then Co_Suspend (CloseReq fd) (\<lambda>_. Co_Return_Void)
      else Co_Suspend (SendReq fd) (\<lambda>r. client fd (Sent r)))"
  by (subst client.code) (simp add: client_closed)

lemma client_received:
  "client fd (Received r) =
     (case buffer_of (ior_flags r) of
        None \<Rightarrow> client fd (Gave_Back r) | Some b \<Rightarrow> Co_Do (GiveBack b) (client fd (Gave_Back r)))"
  by (subst client.code) (simp add: client_closed client_gave_back buffer_of_def)

lemma client_sent:
  "client fd (Sent r) = (if ior_res r < 0 then Co_Suspend (CloseReq fd) (\<lambda>_. Co_Return_Void) else client fd At_Head)"
  by (subst client.code) (simp add: client_closed client_head)

lemma client_shape:
  "client fd p = Co_Return_Void \<or> (\<exists>q p1. client fd p = Co_Do q (client fd p1)) \<or>
     (\<exists>q k. client fd p = Co_Suspend q k \<and> (\<forall>e. \<exists>p1. k e = client fd p1))"
  using client.code [of fd p] by (cases p) (auto split: if_splits)

lemma client_typed: "typed Detached (client fd p)"
proof (coinduction arbitrary: p)
  case typed
  show ?case
    using client_shape [of fd p] by simp blast
qed

lemma close_direct:
  "direct (Co_Suspend (CloseReq fd) (\<lambda>_. Co_Return_Void)) qs rs = Some (session_outcome qs rs (client_close fd rs))"
  by (cases rs) (simp_all add: session_outcome_def actions_def)

lemma session_outcome_extend:
  "session_outcome qs (r # rs) (log1 @ log, st) = session_outcome (qs @ actions log1) rs (log, st)"
  if "length (filter is_answer log1) = 1"
  using that by (simp add: session_outcome_def actions_def)

lemma client_direct:
  "direct (client fd At_Head) qs rs = Some (session_outcome qs rs (client_loop fd rs))"
  "direct (Co_Suspend (SendReq fd) (\<lambda>r. client fd (Sent r))) qs rs = Some (session_outcome qs rs (client_send fd rs))"
proof (induction fd rs and fd rs arbitrary: qs and qs rule: client_loop_client_send.induct)
  case (2 fd r rs)
  have "direct (client fd (Gave_Back r)) qs' rs =
      Some (session_outcome qs' rs (if ior_res r \<le> 0 then client_close fd rs else client_send fd rs))" for qs'
    using 2 by (simp add: client_gave_back close_direct)
  moreover have "is_answer (RecvRes r)" "filter is_answer (give_back f) = []" "actions (give_back f) = give_back f" for f
    by (simp_all add: give_back_def actions_def split: option.split)
  ultimately show ?case
    using session_outcome_extend [of "RecvReq fd # RecvRes r # give_back (ior_flags r)" qs r rs]
    by (simp add: client_head client_received split_beta actions_def give_back_def split: option.split)
next
  case (4 fd r rs)
  then show ?case
    using session_outcome_extend [of "[SendReq fd, SendRes r]" qs r rs]
    by (simp add: client_sent close_direct split_beta actions_def)
qed (simp_all add: client_head session_outcome_def actions_def)

lemma actions_logs [simp]:
  "concat (map returned_buffer (actions log)) = concat (map returned_buffer log)"
  "filter is_response (actions log) = filter is_response log" "filter is_close (actions log) = filter is_close log"
proof -
  have "concat (map returned_buffer (actions log)) = concat (map returned_buffer log) \<and>
      filter is_response (actions log) = filter is_response log \<and> filter is_close (actions log) = filter is_close log"
    unfolding actions_def
  proof (induction log)
    case (Cons e log)
    then show ?case
      by (cases e) simp_all
  qed simp
  then show "concat (map returned_buffer (actions log)) = concat (map returned_buffer log)"
    "filter is_response (actions log) = filter is_response log" "filter is_close (actions log) = filter is_close log"
    by blast+
qed

text \<open>The coroutine in the machine: it stops, having done what the trace says.\<close>

lemma session_runs:
  assumes "alloc_law alloc"
  shows "\<exists>n m es. (drive alloc v0 ^^ n) (launch v0 (handle_client True fd), rs) = (m, es) \<and> mc_control m = Yield \<and>
    mc_log m = actions (fst (client_loop fd rs)) \<and> (mc_parked m = None \<longleftrightarrow> snd (client_loop fd rs) = Ended) \<and>
    (mc_parked m = None \<longrightarrow> mc_frames m = (\<lambda>_. None))"
proof -
  have typed: "typed Detached (handle_client True fd)" and at: "handle_client True fd = client fd At_Head"
    by (simp_all add: handle_client_def client_typed)
  have ev: "direct (handle_client True fd) [] rs = Some (session_outcome [] rs (client_loop fd rs))"
    unfolding at by (rule client_direct)
  show ?thesis
  proof (cases "snd (client_loop fd rs) = Ended")
    case True
    then show ?thesis
      using launch_done [OF assms typed, where ?v0.0 = v0 and es = rs] ev by (fastforce simp: session_outcome_def)
  next
    case False
    then show ?thesis
      using launch_waits [OF assms typed, where ?v0.0 = v0 and es = rs] ev by (fastforce simp: session_outcome_def)
  qed
qed

text \<open>The coroutine that answers a message of the multishot server sends its responses.\<close>

lemma business_typed: "typed Detached (handle_business_logic on_scheduler fd n)"
proof -
  have "typed Detached (send_responses fd m)" for m
    by (induction m) simp_all
  then show ?thesis
    by (simp add: handle_business_logic_def)
qed

lemma business_direct:
  "\<forall>r\<in>set (take m rs). ior_res r > 0 \<Longrightarrow> m \<le> length rs \<Longrightarrow>
     direct (send_responses fd m) qs rs = Some (Done Nothing (qs @ replicate m (SendReq fd)) (drop m rs))"
proof (induction m arbitrary: qs rs)
  case (Suc m)
  then obtain r rs1 where rs: "rs = r # rs1"
    by (cases rs) auto
  then show ?case
    using Suc by auto
qed simp

lemma business_sends:
  assumes "alloc_law alloc" and "0 \<le> k" and "nat k \<le> length rs" and "\<forall>r\<in>set (take (nat k) rs). ior_res r > 0"
  shows "\<exists>n m. (drive alloc v0 ^^ n) (launch v0 (handle_business_logic True fd k), rs) = (m, drop (nat k) rs) \<and>
    mc_log m = replicate (nat k) (SendReq fd) \<and> mc_frames m = (\<lambda>_. None)"
proof -
  have "direct (handle_business_logic True fd k) [] rs = Some (Done Nothing (replicate (nat k) (SendReq fd)) (drop (nat k) rs))"
    using business_direct [OF assms(4,3), of fd "[]"] by (simp add: handle_business_logic_def)
  from launch_done [OF assms(1) business_typed this, of v0] show ?thesis
    by auto
qed

section \<open>Responses of the multishot server\<close>

lemma recv_all_counts:
  assumes "\<forall>m\<in>set ms. fst m > 0"
  shows "cn_fd (snd (recv_all i ms cs) i) = cn_fd (cs i)
    \<and> filter (\<lambda>a. \<exists>fd n. a = ScheduleBusiness fd n) (fst (recv_all i ms cs))
        = map (\<lambda>k. ScheduleBusiness (cn_fd (cs i)) (cn_counter (cs i) + int k)) [1..<Suc (length ms)]
    \<and> (\<forall>fd. ScheduleClose fd \<notin> set (fst (recv_all i ms cs)))"
  using assms
proof (induction ms arbitrary: cs)
  case (Cons m ms)
  obtain res flags where m: "m = (res, flags)"
    by (cases m)
  have res: "\<not> res \<le> 0"
    using Cons.prems m by simp
  let ?c = "(cs i)\<lparr> cn_counter := cn_counter (cs i) + 1 \<rparr>"
  have step: "snd (on_client_recv i res flags cs) = cs(i := ?c)"
    "filter (\<lambda>a. \<exists>fd n. a = ScheduleBusiness fd n) (fst (on_client_recv i res flags cs))
       = [ScheduleBusiness (cn_fd (cs i)) (cn_counter (cs i) + 1)]"
    "\<forall>fd. ScheduleClose fd \<notin> set (fst (on_client_recv i res flags cs))"
    using res by (simp_all add: on_client_recv_def Let_def split: option.splits)
  have "[2..<Suc (Suc n)] = map Suc [1..<Suc n]" for n
    by (simp only: map_Suc_upt) (simp add: numeral_2_eq_2)
  then have shift: "map (\<lambda>k. ScheduleBusiness fd (d + int k)) [2..<Suc (Suc n)]
      = map (\<lambda>k. ScheduleBusiness fd (d + 1 + int k)) [1..<Suc n]" for fd d n
    by (simp add: o_def algebra_simps del: upt_Suc)
  have "[1..<Suc (length (m # ms))] = 1 # [2..<Suc (length (m # ms))]"
    by (simp add: upt_conv_Cons numeral_2_eq_2 del: upt_Suc)
  then show ?case
    using Cons.IH [of "cs(i := ?c)"] Cons.prems step shift m by (simp add: split_beta fun_upd_same del: upt_Suc fun_upd_apply)
qed simp

section \<open>Listening\<close>

text \<open>\<open>htons\<close> swaps the two bytes, so what the network reads is the port.\<close>

lemma port_bound: "unat (p :: u16) < 65536"
proof -
  have "unat p < 2 ^ LENGTH(16)"
    by (rule unsigned_less)
  then show ?thesis
    by simp
qed

lemma htons_bytes: "unat (htons p) = unat p mod 256 * 256 + unat p div 256"
proof -
  have "push_bit 8 p AND drop_bit 8 p = 0"
    by (intro bit_word_eqI) (auto simp: bit_simps dest: bit_imp_le_length)
  then have "htons p = push_bit 8 p + drop_bit 8 p"
    by (metis htons_def word_plus_and_or add_0)
  moreover have "unat (push_bit 8 p) = unat p mod 256 * 256"
    using mod_mult_mult2 [of "unat p" 256 256] by (simp add: push_bit_eq_mult unat_word_ariths)
  moreover have "unat (drop_bit 8 p) = unat p div 256"
    by (simp add: drop_bit_eq_div unat_div)
  moreover have "unat p mod 256 * 256 + unat p div 256 < 2 ^ 16"
    using port_bound [of p] by simp
  ultimately show ?thesis
    by (simp add: unat_word_ariths)
qed

lemma htons_twice: "htons (htons p) = p"
proof (rule unsigned_word_eqI)
  have "unat p div 256 < 256"
    using port_bound [of p] by simp
  then show "unat (htons (htons p)) = unat p"
    by (simp add: htons_bytes)
qed

text \<open>The engine is asked to accept exactly when the socket is bound, and then only after \<open>listen\<close>.\<close>

lemma server_accepts_when_bound:
  assumes "open_server \<in> {start_multishot_server, start_server}"
  shows "AcceptOn fd \<in> set (open_server sk port) \<longleftrightarrow> fd = sk_socket sk \<and> 0 \<le> sk_bind sk fd (htons (word_of_int port))"
    and "AcceptOn fd \<in> set (open_server sk port) \<Longrightarrow> \<exists>n. open_server sk port = butlast (butlast (open_server sk port)) @ [Listen fd n, AcceptOn fd]"
  using assms by (auto simp: start_multishot_server_def start_server_def Let_def split: if_splits)

text \<open>The listeners for cores the machine does not have vanish.\<close>

lemma dispatch_all_drops:
  "\<forall>d \<in> set ds. length (rt_schedulers rt) \<le> fst d \<Longrightarrow> dispatch_all x cur ds rt = Some rt"
  by (induction ds) (auto simp: dispatch_drops)

lemma listeners_beyond_cores_dropped:
  assumes "length (rt_schedulers rt) = n"
  shows "dispatch_all x cur (drop n (multirecv_dispatches listener)) rt = Some rt"
  by (rule dispatch_all_drops) (simp add: multirecv_dispatches_def drop_map assms)

text \<open>\<open>main\<close> of each server leaves one listener in the inbox of each of the first schedulers and nothing in the
  others. With one core or more than none the first server always listens; the second one needs
  \<open>hardware_concurrency\<close> to say how many cores there are, and where it answers 0 there is nobody to listen.\<close>

lemma push_inbox_fold:
  "fold (\<lambda>t s. snd (push_inbox t s)) ts s = s\<lparr> sc_inbox := fold spsc_enq ts (sc_inbox s) \<rparr>"
  for s :: "('c, 'e) scheduler"
  by (induction ts arbitrary: s) (simp_all add: push_inbox_def spsc_enq_def split_beta)

lemma listener_tasks:
  "tasks_for core (map (\<lambda>i. (i, Some l)) [0..<m]) = (if core < m then [Some l] else [])"
  by (induction m) (auto simp: tasks_for_def)

lemma dispatched_length:
  "length (fold (\<lambda>d. dispatched (fst d) (snd d)) ds ss) = length ss"
  by (induction ds arbitrary: ss) (simp_all add: dispatched_def)

lemma main_dispatches:
  fixes rt :: "('c, 'e, 'r) runtime"
  assumes "ext_law x" and "rt_schedulers rt = []"
  shows "\<exists>rt1 rt2. start ns e n rt = Inr rt1 \<and> dispatch_all x None (map (\<lambda>i. (i, Some l)) [0..<m]) rt1 = Some rt2
    \<and> rt_running rt2 \<and> rt_workers rt2 = rt_workers rt @ [0..<n] \<and> length (rt_schedulers rt2) = n
    \<and> (\<forall>core<n. sq_contents (sc_inbox (rt_schedulers rt2 ! core)) = (if core < m then [Some l] else []))"
proof -
  let ?ds = "map (\<lambda>i. (i, Some l)) [0..<m]"
  obtain ss :: "('c, 'e) scheduler list" where start: "start ns e n rt = Inr (rt\<lparr> rt_running := True,
      rt_schedulers := ss, rt_workers := rt_workers rt @ [0..<n] \<rparr>)"
    and len: "length ss = n" and new: "\<forall>k<n. scheduler_new k (- 1) (ns k) e (2 ^ 16) (2 ^ 16) = Inr (ss ! k)"
    using start_ok [of ns e n rt] assms(2) by auto
  obtain rt2 where all: "dispatch_all x None ?ds (rt\<lparr> rt_running := True,
      rt_schedulers := ss, rt_workers := rt_workers rt @ [0..<n] \<rparr>) = Some rt2"
    and rt2: "rt_schedulers rt2 = fold (\<lambda>d. dispatched (fst d) (snd d)) ?ds ss" "rt_running rt2"
      "rt_workers rt2 = rt_workers rt @ [0..<n]"
    using dispatch_all_external [OF assms(1), of ?ds] by fastforce
  have each: "sq_contents (sc_inbox (rt_schedulers rt2 ! core)) = (if core < m then [Some l] else [])"
    if "core < n" for core
  proof -
    note inv = scheduler_new_inv [OF new [rule_format, OF that]]
    have "rt_schedulers rt2 ! core
        = (ss ! core)\<lparr> sc_inbox := fold spsc_enq (tasks_for core ?ds) (sc_inbox (ss ! core)) \<rparr>"
      using dispatched_nth [of core ss ?ds] that len rt2(1) push_inbox_fold by simp
    then show ?thesis
      using sq.enq_list [OF inv(3), of "tasks_for core ?ds"] inv(4,7) by (simp add: listener_tasks)
  qed
  have "length (rt_schedulers rt2) = n"
    using rt2(1) len by (simp add: dispatched_length)
  then show ?thesis
    using start all rt2(2,3) each by blast
qed

lemma servers_listen:
  fixes rt :: "('c, 'e, 'r) runtime"
  assumes "ext_law x" and "rt_schedulers rt = []"
  shows "\<exists>rt2. server_main x ns e hw ce le listener rt = Some (Inr rt2)
      \<and> length (rt_schedulers rt2) = server_cores hw ce
      \<and> (\<forall>core < server_cores hw ce. sq_contents (sc_inbox (rt_schedulers rt2 ! core))
           = (if core < server_listeners hw ce le then [Some listener] else []))"
    and "\<exists>rt2. multirecv_main x ns e hw listener rt = Some (Inr rt2) \<and> length (rt_schedulers rt2) = hw
      \<and> (\<forall>core<hw. sq_contents (sc_inbox (rt_schedulers rt2 ! core)) = (if core < 8 then [Some listener] else []))"
  using main_dispatches [OF assms, of ns e "server_cores hw ce" listener "server_listeners hw ce le"]
    main_dispatches [OF assms, of ns e hw listener 8]
  by (auto simp: server_main_def multirecv_main_def server_dispatches_def multirecv_dispatches_def Let_def)

section \<open>Configuration\<close>

lemma digits_no_space: "is_digit c \<Longrightarrow> \<not> is_space c \<and> c \<noteq> CHR ''-'' \<and> c \<noteq> CHR ''+''"
  by (auto simp: is_digit_def is_space_def)

lemma strtoul_decimal:
  assumes "n < 2 ^ 64"
  shows "strtoul (decimal n) = (length (decimal n), n)"
proof -
  note D = decimal_digits [of n]
  obtain c cs where cs: "decimal n = c # cs"
    using D by (cases "decimal n") auto
  have all: "list_all is_digit (c # cs)"
    using D cs by simp
  have c: "\<not> is_space c" "c \<noteq> CHR ''-''" "c \<noteq> CHR ''+''"
    using all digits_no_space by auto
  have "takeWhile is_digit (c # cs) = c # cs"
    using all by (simp only: takeWhile_eq_all_conv list_all_iff)
  then show ?thesis
    using assms digits_value_decimal [of n] cs c unfolding strtoul_def cs by (simp add: Let_def)
qed

lemma env_size_or_pos: "0 < fallback \<Longrightarrow> 0 < env_size_or env fallback"
  by (auto simp: env_size_or_def split_beta Let_def split: option.splits)

section \<open>Properties\<close>

text \<open>
  C32: The coroutine of a connection, launched on a scheduler with whatever answers its requests get, comes to
  a stop: suspended on the request that has no answer yet, or at its end with its frame destroyed. By
  then each buffer the kernel picked for a receive has been given back exactly once and in the order of
  the receives, exactly one response has been sent per received message, and the descriptor has been
  closed once when the session ends and not before.
\<close>

theorem http_session:
  assumes "alloc_law alloc" and "client_loop fd rs = (log, st)"
  shows "\<exists>n m es. (drive alloc v0 ^^ n) (launch v0 (handle_client True fd), rs) = (m, es) \<and>
    mc_control m = Yield \<and> (mc_parked m = None \<longleftrightarrow> st = Ended) \<and> mc_log m = actions log \<and>
    concat (map returned_buffer (mc_log m)) = concat (map received_buffer log) \<and>
    length (filter is_response (mc_log m)) = length (filter is_request log) \<and>
    length (filter is_close (mc_log m)) = (if closing st then 1 else 0)"
  using session_runs [OF assms(1), of v0 fd rs] session_log(1) [of fd rs] assms(2) by fastforce

definition sample_answers :: "io_result list" where
  "sample_answers = [\<lparr> ior_res = 80, ior_flags = 65536 * 7 + 1 \<rparr>, \<lparr> ior_res = 110, ior_flags = 0 \<rparr>,
     \<lparr> ior_res = 0, ior_flags = 0 \<rparr>, \<lparr> ior_res = 0, ior_flags = 0 \<rparr>]"

theorem http_session_witness:
  "\<exists>n m es. (drive fresh_frame () ^^ n) (launch () (handle_client True 5), sample_answers) = (m, es) \<and>
     mc_log m = [RecvReq 5, GiveBack 7, SendReq 5, RecvReq 5, CloseReq 5] \<and> mc_parked m = None"
proof -
  have "actions (fst (client_loop 5 sample_answers)) = [RecvReq 5, GiveBack 7, SendReq 5, RecvReq 5, CloseReq 5]"
    "snd (client_loop 5 sample_answers) = Ended"
    by code_simp+
  then show ?thesis
    using http_session [OF fresh_frame_law prod.collapse [symmetric], of "()" 5 sample_answers] by fastforce
qed

text \<open>
  On a connection that has just been accepted, the multishot server answers its \<open>k\<close>-th message with
  \<open>k\<close> responses, so \<open>m\<close> messages cause \<open>m (m + 1) / 2\<close> responses.
\<close>

lemma multirecv_responses:
  assumes "0 \<le> res" and "\<forall>m\<in>set ms. fst m > 0"
  shows "filter (\<lambda>a. \<exists>fd n. a = ScheduleBusiness fd n) (fst (recv_all (nat res) ms (snd (on_client_accept res cs))))
    = map (\<lambda>k. ScheduleBusiness res (int k)) [1..<Suc (length ms)]
    \<and> 2 * sum_list [1..<Suc (length ms)] = length ms * (length ms + 1)"
proof -
  have acc: "snd (on_client_accept res cs) (nat res) = \<lparr> cn_fd = res, cn_counter = 0 \<rparr>"
    using assms(1) by (simp add: on_client_accept_def)
  have sums: "2 * sum_list [1..<Suc m] = m * (m + 1)" for m :: nat
    by (induction m) (simp_all add: algebra_simps)
  show ?thesis
    using recv_all_counts [OF assms(2), of "nat res" "snd (on_client_accept res cs)"] acc
    by (simp only: sums connection.simps) simp
qed

lemma multirecv_responses_instance:
  "filter (\<lambda>a. \<exists>fd n. a = ScheduleBusiness fd n)
     (fst (recv_all 6 [(80, 2), (80, 2)] (snd (on_client_accept 6 (\<lambda>_. \<lparr> cn_fd = - 1, cn_counter = 0 \<rparr>)))))
   = [ScheduleBusiness 6 1, ScheduleBusiness 6 2]"
  using multirecv_responses [of 6 "[(80, 2), (80, 2)]" "\<lambda>_. \<lparr> cn_fd = - 1, cn_counter = 0 \<rparr>"]
  by (simp add: upt_rec)

text \<open>
  Direct descriptors are indices into the file table of one ring, but \<open>g_connections\<close> is shared by all
  workers: when a second worker accepts a connection under an index that is in use on the first,
  it takes over its counter, and the next message of the first connection counts as message 1.
\<close>

lemma connections_collide:
  assumes "0 \<le> res" and "\<forall>m\<in>set ms. fst m > 0" and "0 < r"
  shows "ScheduleBusiness res 1 \<in> set (fst (on_client_recv (nat res) r flags
      (snd (on_client_accept res (snd (recv_all (nat res) ms (snd (on_client_accept res cs))))))))"
  using assms by (auto simp: on_client_accept_def on_client_recv_def Let_def)

lemma connections_collide_instance:
  "ScheduleBusiness 6 1 \<in> set (fst (on_client_recv 6 80 2
      (snd (on_client_accept 6 (snd (recv_all 6 [(80, 2), (80, 2)] (snd (on_client_accept 6 cs))))))))"
  using connections_collide [of 6 "[(80, 2), (80, 2)]" 80 2 cs] by simp

text \<open>
  C36: Whatever the environment says, set or not, well formed or not, and whatever the hardware reports, the server
  has at least one core and between one listener and one per core, and it dispatches exactly one listener to
  each of the first cores, none to a core that does not exist. A decimal core count is used as it is, and
  without one it is the number of hardware threads, or 1 when that is not known.
\<close>

theorem server_listeners_in_range:
  "0 < server_cores hw cores_env \<and> 0 < server_listeners hw cores_env listeners_env
    \<and> server_listeners hw cores_env listeners_env \<le> server_cores hw cores_env
    \<and> map fst (server_dispatches (server_listeners hw cores_env listeners_env) t) = [0..<server_listeners hw cores_env listeners_env]
    \<and> (\<forall>d. d \<in> set (server_dispatches (server_listeners hw cores_env listeners_env) t) \<longrightarrow> fst d < server_cores hw cores_env)
    \<and> server_cores hw None = max 1 hw \<and> (0 < n \<and> n < 2 ^ 64 \<longrightarrow> server_cores hw (Some (decimal n)) = n)"
proof -
  have "0 < server_cores hw cores_env"
    by (simp add: server_cores_def env_size_or_pos)
  moreover from this have "0 < server_listeners hw cores_env listeners_env"
    by (simp add: server_listeners_def Let_def env_size_or_pos)
  moreover have "server_cores hw (Some (decimal n)) = n" if "0 < n" "n < 2 ^ 64"
    using that decimal_digits [of n] by (simp add: server_cores_def env_size_or_def strtoul_decimal)
  moreover have "server_cores hw None = max 1 hw"
    by (simp add: server_cores_def env_size_or_def)
  moreover have "server_listeners hw cores_env listeners_env \<le> server_cores hw cores_env"
    by (simp add: server_listeners_def Let_def)
  ultimately show ?thesis
    by (auto simp: server_dispatches_def o_def)
qed

theorem server_listeners_in_range_witness:
  "server_cores 4 (Some (decimal 8)) = 8 \<and> 0 < server_listeners 4 (Some (decimal 8)) (Some ''100'')
    \<and> map fst (server_dispatches (server_listeners 4 None (Some ''0'')) ()) = [0..<server_listeners 4 None (Some ''0'')]"
  using server_listeners_in_range [of 4 "Some (decimal 8)" "Some ''100''" "()" 8]
    server_listeners_in_range [of 4 None "Some ''0''" "()" 8] by simp

end
