(* ===== verification/Workers.thy ===== *)
theory Workers
  imports Runtime "HOL-Library.Sublist"
begin

text \<open>
  Several workers and threads from outside at once: rounds of the workers and dispatches in any order.
  What a core runs is followed by a program that keeps a list of the closures it has called.
\<close>

section \<open>Runs of a runtime\<close>

text \<open>One worker's round, or a dispatch by a thread that is no worker.\<close>

datatype 'c runtime_event = Round nat kernel_input | Outside nat "'c option"

fun run_events :: "'r ext_uring \<Rightarrow> ('c, 'e) program \<Rightarrow> 'c runtime_event list \<Rightarrow> ('c, 'e, 'r) runtime \<Rightarrow> ('c, 'e, 'r) runtime option" where
  "run_events x pg [] rt = Some rt"
| "run_events x pg (Round i ki # evs) rt =
     (case worker_round x pg ki i rt of None \<Rightarrow> None | Some rt1 \<Rightarrow> run_events x pg evs rt1)"
| "run_events x pg (Outside core t # evs) rt =
     (case dispatch_on x None core t rt of None \<Rightarrow> None | Some rt1 \<Rightarrow> run_events x pg evs rt1)"

definition logging :: "('c, 'e) program \<Rightarrow> ('c, 'c list \<times> 'e) program" where
  "logging pg = \<lparr> pg_resume = (\<lambda>h (l, e). let (acts, e1) = pg_resume pg h e in (acts, (l, e1))),
     pg_done = (\<lambda>h (l, e). pg_done pg h e),
     pg_task = (\<lambda>c (l, e). let (acts, e1) = pg_task pg c e in (acts, (l @ [c], e1))),
     pg_multi = (\<lambda>op r f (l, e). let (acts, e1) = pg_multi pg op r f e in (acts, (l, e1))) \<rparr>"

lemma logging_env [simp]:
  "fst (snd (pg_resume (logging pg) h le)) = fst le" "fst (snd (pg_multi (logging pg) op r f le)) = fst le"
  "fst (snd (pg_task (logging pg) c le)) = fst le @ [c]"
  by (simp_all add: logging_def split_beta Let_def)

text \<open>The closures a core has called, and those followed by the ones that wait in its inbox; an empty
  callable in the inbox is skipped.\<close>

definition executed :: "('c, 'c list \<times> 'e) scheduler \<Rightarrow> 'c list" where
  "executed s = fst (sc_env s)"

definition history :: "('c, 'c list \<times> 'e) scheduler \<Rightarrow> 'c list" where
  "history s = executed s @ List.map_filter (\<lambda>t. t) (sq_contents (sc_inbox s))"

section \<open>No round loses or reorders what was accepted\<close>

definition keeps :: "('c, 'c list \<times> 'e) scheduler \<Rightarrow> ('c, 'c list \<times> 'e) scheduler \<Rightarrow> bool" where
  "keeps s s' \<longleftrightarrow> (sq_inv (sc_inbox s) \<longrightarrow> sq_inv (sc_inbox s') \<and> prefix (history s) (history s'))"

lemma keeps_same: "sc_inbox s' = sc_inbox s \<Longrightarrow> fst (sc_env s') = fst (sc_env s) \<Longrightarrow> keeps s s'"
  by (simp add: keeps_def history_def executed_def)

lemma keeps_trans: "keeps s s1 \<Longrightarrow> keeps s1 s2 \<Longrightarrow> keeps s s2"
  by (auto simp: keeps_def intro: prefix_order.trans)

lemma push_inbox_history:
  assumes "sq_inv (sc_inbox s)"
  shows "history (snd (push_inbox t s))
    = history s @ (if 0 < sq_room (sc_inbox s) then List.map_filter (\<lambda>t. t) [t] else [])"
  using push_inbox_accepts [OF assms, of t] by (simp add: history_def executed_def map_filter_def)

lemma keeps_push: "keeps s (snd (push_inbox t s))"
  unfolding keeps_def using push_inbox_accepts(1) push_inbox_history by fastforce

interpretation kept: round_relation "logging pg" keeps for pg :: "('c, 'e) program"
proof unfold_locales
  fix s s1 s2 :: "('c, 'c list \<times> 'e) scheduler" and act :: "'c action" and t q
  show "keeps s s1 \<Longrightarrow> keeps s1 s2 \<Longrightarrow> keeps s s2"
    by (rule keeps_trans)
  show "keeps s (do_action act s)"
  proof (cases act)
    case (Dispatch core u)
    have "keeps (snd (push_inbox u s)) (do_action act s)" if "core = sc_id s"
      by (rule keeps_same) (simp_all add: Dispatch that do_action_def split_beta Let_def)
    moreover have "keeps s (do_action act s)" if "core \<noteq> sc_id s"
      by (rule keeps_same) (simp_all add: Dispatch that do_action_def)
    ultimately show ?thesis
      using keeps_trans [OF keeps_push] by blast
  qed (auto intro!: keeps_same simp: do_action_def schedule_def)
  show "keeps s (s\<lparr> sc_inbox := q \<rparr>)" if pop: "spsc_pop (sc_inbox s) = ((False, t), q)"
    using pop spsc_pop_head [of "sc_inbox s"] spsc_pop_empty_case [of "sc_inbox s"]
    by (cases "sq_contents (sc_inbox s) = []") (fastforce simp: keeps_def)+
  show "keeps s (s\<lparr> sc_inbox := q,
      sc_env := case the t of None \<Rightarrow> sc_env s | Some c \<Rightarrow> snd (pg_task (logging pg) c (sc_env s)) \<rparr>)"
    if pop: "spsc_pop (sc_inbox s) = ((True, t), q)"
  proof (unfold keeps_def, intro impI)
    assume inv: "sq_inv (sc_inbox s)"
    then have ne: "sq_contents (sc_inbox s) \<noteq> []"
      using pop spsc_pop_empty_case by force
    from spsc_pop_head [OF inv ne] pop have q: "t = Some (hd (sq_contents (sc_inbox s)))" "sq_inv q"
      "sq_contents q = tl (sq_contents (sc_inbox s))"
      by auto
    obtain u us where "sq_contents (sc_inbox s) = u # us"
      using ne by (cases "sq_contents (sc_inbox s)") auto
    then show "sq_inv (sc_inbox (s\<lparr> sc_inbox := q,
        sc_env := case the t of None \<Rightarrow> sc_env s | Some c \<Rightarrow> snd (pg_task (logging pg) c (sc_env s)) \<rparr>))
      \<and> prefix (history s) (history (s\<lparr> sc_inbox := q,
        sc_env := case the t of None \<Rightarrow> sc_env s | Some c \<Rightarrow> snd (pg_task (logging pg) c (sc_env s)) \<rparr>))"
      using q by (cases u) (simp_all add: history_def executed_def map_filter_simps)
  qed
qed (auto intro!: keeps_same simp: schedule_def submit_queued_def)

section \<open>The runtime\<close>

definition rt_ok :: "('c, 'e, 'r) runtime \<Rightarrow> bool" where
  "rt_ok rt \<longleftrightarrow> (\<forall>s \<in> set (rt_schedulers rt). sq_inv (sc_inbox s))"

definition rt_keeps :: "('c, 'c list \<times> 'e, 'r) runtime \<Rightarrow> ('c, 'c list \<times> 'e, 'r) runtime \<Rightarrow> bool" where
  "rt_keeps rt rt' \<longleftrightarrow> list_all2 keeps (rt_schedulers rt) (rt_schedulers rt')"

lemma rt_keeps_refl: "rt_keeps rt rt"
  unfolding rt_keeps_def by (rule list_all2_refl) (rule kept.same)

lemma rt_keeps_trans: "rt_keeps rt rt1 \<Longrightarrow> rt_keeps rt1 rt2 \<Longrightarrow> rt_keeps rt rt2"
  unfolding rt_keeps_def by (rule list_all2_trans [OF keeps_trans])

lemma rt_keeps_update:
  assumes "keeps (rt_schedulers rt ! i) (f (rt_schedulers rt ! i))"
  shows "rt_keeps rt (with_scheduler i f rt)"
proof -
  have "keeps (rt_schedulers rt ! k) ((rt_schedulers rt)[i := f (rt_schedulers rt ! i)] ! k)" for k
    using assms kept.same [of "rt_schedulers rt ! k"] list_update_beyond [of "rt_schedulers rt" i]
    by (cases "k = i"; cases "i < length (rt_schedulers rt)") simp_all
  then show ?thesis
    by (simp add: rt_keeps_def with_scheduler_def list_all2_conv_all_nth)
qed

lemma rt_keeps_dispatch:
  assumes "dispatch_on x cur core t rt = Some rt'"
  shows "rt_keeps rt rt'"
proof (cases "core < length (rt_schedulers rt)")
  case True
  let ?s = "snd (push_inbox t (rt_schedulers rt ! core))"
  let ?rt = "with_scheduler core (\<lambda>_. ?s) rt"
  have push: "rt_keeps rt ?rt"
    by (rule rt_keeps_update) (rule keeps_push)
  have "rt_keeps ?rt rt'"
  proof (cases cur)
    case None
    have "rt_schedulers rt' = rt_schedulers ?rt"
      using assms True None by (auto simp: dispatch_on_def notify_target_ring_def split_beta Let_def split: if_splits)
    then show ?thesis
      using rt_keeps_refl [of ?rt] by (simp add: rt_keeps_def)
  next
    case (Some i)
    have "rt_keeps ?rt (with_scheduler i (\<lambda>s. s\<lparr> sc_queued := sc_queued s @ [e] \<rparr>) ?rt)" for e
      by (rule rt_keeps_update) (rule keeps_same; simp)
    then show ?thesis
      using assms True Some rt_keeps_refl [of ?rt]
      by (auto simp: dispatch_on_def notify_target_ring_def split_beta Let_def split: if_splits)
  qed
  then show ?thesis
    by (rule rt_keeps_trans [OF push])
next
  case False
  then show ?thesis
    using assms rt_keeps_refl by (simp add: dispatch_on_def)
qed

lemma rt_keeps_dispatch_all: "dispatch_all x cur ds rt = Some rt' \<Longrightarrow> rt_keeps rt rt'"
proof (induction ds arbitrary: rt)
  case (Cons d ds)
  obtain core t where d: "d = (core, t)"
    by (cases d)
  obtain rt1 where "dispatch_on x cur core t rt = Some rt1" "dispatch_all x cur ds rt1 = Some rt'"
    using Cons.prems d by (auto split: option.splits)
  then show ?case
    using rt_keeps_trans [OF rt_keeps_dispatch Cons.IH] by blast
qed (simp add: rt_keeps_refl)

lemma rt_keeps_dispatch_out: "dispatch_out x i rt = Some rt' \<Longrightarrow> rt_keeps rt rt'"
  unfolding dispatch_out_def
  by (rule rt_keeps_trans [OF rt_keeps_update rt_keeps_dispatch_all]) (auto intro: keeps_same)

lemma rt_keeps_out:
  assumes "keeps (rt_schedulers rt ! i) s" and "dispatch_out x i (with_scheduler i (\<lambda>_. s) rt) = Some rt'"
  shows "rt_keeps rt rt'"
  by (rule rt_keeps_trans [OF rt_keeps_update rt_keeps_dispatch_out [OF assms(2)]]) (rule assms(1))

lemma rt_keeps_serve:
  assumes "worker_serve x (logging pg) ki i rt = Some (waits, rt')"
  shows "rt_keeps rt rt'"
proof -
  obtain s1 rt1 where s1: "gather (logging pg) ki (rt_schedulers rt ! i) = Some s1"
    and rt1: "dispatch_out x i (with_scheduler i (\<lambda>_. s1) rt) = Some rt1"
    using assms by (auto simp: worker_serve_def split: option.splits)
  have k1: "rt_keeps rt rt1"
    by (rule rt_keeps_out [OF kept.gather [OF s1] rt1])
  obtain r where r: "serve (logging pg) ki (rt_schedulers rt1 ! i) = Some r"
    using assms s1 rt1 by (auto simp: worker_serve_def split: option.splits)
  note k2 = kept.serve [OF r]
  have "rt_keeps rt1 rt'"
  proof (cases r)
    case (Inl s2)
    then have "rt' = with_scheduler i (\<lambda>_. s2) rt1"
      using assms s1 rt1 r by (simp add: worker_serve_def)
    then show ?thesis
      using k2 Inl rt_keeps_update [of rt1 i "\<lambda>_. s2"] by simp
  next
    case (Inr s2)
    then have "dispatch_out x i (with_scheduler i (\<lambda>_. s2) rt1) = Some rt'"
      using assms s1 rt1 r by (auto simp: worker_serve_def)
    then show ?thesis
      using k2 Inr by (intro rt_keeps_out) simp_all
  qed
  then show ?thesis
    by (rule rt_keeps_trans [OF k1])
qed

lemma rt_keeps_wait: "worker_wait x (logging pg) ki i rt = Some rt' \<Longrightarrow> rt_keeps rt rt'"
  by (auto simp: worker_wait_def split: option.splits intro: rt_keeps_out [OF kept.io_events])

lemma rt_keeps_round: "worker_round x (logging pg) ki i rt = Some rt' \<Longrightarrow> rt_keeps rt rt'"
  using rt_keeps_refl
  by (auto simp: worker_round_def split: if_splits option.splits
      intro: rt_keeps_serve rt_keeps_trans [OF rt_keeps_serve rt_keeps_wait])

lemma rt_keeps_events: "run_events x (logging pg) evs rt = Some rt' \<Longrightarrow> rt_keeps rt rt'"
proof (induction evs arbitrary: rt)
  case (Cons ev evs)
  obtain rt1 where "rt_keeps rt rt1" "run_events x (logging pg) evs rt1 = Some rt'"
    using Cons.prems by (cases ev) (auto split: option.splits dest: rt_keeps_round rt_keeps_dispatch)
  then show ?case
    using rt_keeps_trans Cons.IH by blast
qed (simp add: rt_keeps_refl)

section \<open>Properties\<close>

text \<open>A dispatch with room adds its task behind all the others, whoever dispatches.\<close>

lemma dispatch_adds:
  fixes rt :: "('c, 'c list \<times> 'e, 'r) runtime"
  assumes "rt_ok rt" and "core < length (rt_schedulers rt)" and "0 < sq_room (sc_inbox (rt_schedulers rt ! core))"
    and "dispatch_on x cur core (Some c) rt = Some rt1"
  shows "length (rt_schedulers rt1) = length (rt_schedulers rt)" and "sq_inv (sc_inbox (rt_schedulers rt1 ! core))"
    and "history (rt_schedulers rt1 ! core) = history (rt_schedulers rt ! core) @ [c]"
proof -
  let ?s = "rt_schedulers rt ! core" and ?s1 = "rt_schedulers rt1 ! core"
  have inv: "sq_inv (sc_inbox ?s)"
    using assms(1,2) by (simp add: rt_ok_def)
  have push: "sq_inv (sc_inbox (snd (push_inbox (Some c) ?s)))" "history (snd (push_inbox (Some c) ?s)) = history ?s @ [c]"
    using push_inbox_accepts(1) [OF inv] push_inbox_history [OF inv, of "Some c"] assms(3) by (simp_all add: map_filter_simps)
  show "length (rt_schedulers rt1) = length (rt_schedulers rt)"
    using rt_keeps_dispatch [OF assms(4)] by (simp add: rt_keeps_def list_all2_lengthD)
  have "sc_inbox ?s1 = sc_inbox (snd (push_inbox (Some c) ?s))" "sc_env ?s1 = sc_env ?s"
    using assms(2,4) push_inbox_accepts(3) [OF inv, of "Some c"]
    by (auto simp: dispatch_on_def notify_target_ring_def with_scheduler_def split_beta Let_def nth_list_update
        split: if_splits option.splits)
  then show "sq_inv (sc_inbox ?s1)" "history ?s1 = history ?s @ [c]"
    using push push_inbox_accepts(3) [OF inv, of "Some c"] by (simp_all add: history_def executed_def)
qed

text \<open>
  C11: A task that is accepted for a core, by whichever thread, is run there exactly once and after the
  tasks accepted before it, however the rounds of all workers and dispatches from outside
  interleave afterwards: the tasks run on the core, followed by those still in its inbox, only ever
  grow at the end. Once the inbox is empty the task has been run.
\<close>

theorem accepted_task_runs_in_order:
  fixes rt :: "('c, 'c list \<times> 'e, 'r) runtime"
  assumes "rt_ok rt" and "core < length (rt_schedulers rt)" and "0 < sq_room (sc_inbox (rt_schedulers rt ! core))"
    and "dispatch_on x cur core (Some c) rt = Some rt1" and "run_events x (logging pg) evs rt1 = Some rt2"
  shows "prefix (history (rt_schedulers rt ! core) @ [c]) (history (rt_schedulers rt2 ! core))
    \<and> (sq_contents (sc_inbox (rt_schedulers rt2 ! core)) = []
         \<longrightarrow> prefix (history (rt_schedulers rt ! core) @ [c]) (executed (rt_schedulers rt2 ! core)))"
proof -
  let ?s = "rt_schedulers rt ! core" and ?s2 = "rt_schedulers rt2 ! core"
  note added = dispatch_adds [OF assms(1-4)]
  have "keeps (rt_schedulers rt1 ! core) ?s2"
    using rt_keeps_events [OF assms(5)] assms(2) added(1) by (simp add: rt_keeps_def list_all2_conv_all_nth)
  then have "prefix (history ?s @ [c]) (history ?s2)"
    using added(2,3) by (simp add: keeps_def)
  then show ?thesis
    by (auto simp: history_def map_filter_simps)
qed

text \<open>What a round leaves queued it extends at the end, and an idle round submits it.\<close>

interpretation queued: phase_relation pg "\<lambda>s s'. prefix (sc_queued s) (sc_queued s')" for pg
proof unfold_locales
  show "prefix (sc_queued s) (sc_queued (do_action act s))" for act and s :: "('a, 'b) scheduler"
    by (cases act) (auto simp: do_action_def schedule_def push_inbox_def split_beta Let_def)
qed (auto simp: schedule_def intro: prefix_order.trans)

lemma idle_round_submits:
  assumes run: "iteration pg ki s = Some s'" and inv: "rq_inv (sc_rq s)" and ok: "\<not> rq_fault (sc_rq s')"
    and idle: "rq_taken (sc_rq s') = rq_taken (sc_rq s)"
  shows "prefix (sc_submitted s @ sc_queued s) (sc_submitted s')"
  using run
proof (rule iteration_cases)
  fix s1 s2 batch q
  assume s1: "run_ticks (ki_now ki) s = Some s1" and s2: "process_inbox pg s1 = Some s2"
    and b: "try_dequeue_batch 16 (sc_rq s2) = (batch, q)"
    and final: "if batch = [] then process_io_events pg ki (submit_queued (s2\<lparr> sc_rq := q \<rparr>)) = Some s'
         else poll pg (ki_cqes ki) (fold (resume_one pg) batch (s2\<lparr> sc_rq := q \<rparr>)) = Some s'"
    and o1: "only_schedules s s2" and o2: "only_schedules (s2\<lparr> sc_rq := q \<rparr>) s'"
  obtain hs1 hs2 where hs: "sc_rq s2 = fold rq_schedule hs1 (sc_rq s)" "sc_rq s' = fold rq_schedule hs2 q"
    using o1 o2 by (auto simp: only_schedules_def)
  have okq: "\<not> rq_fault q"
    using ok hs(2) rq_fault_fold [of q hs2] by auto
  then have "\<not> rq_fault (fold rq_schedule hs1 (sc_rq s))"
    using b hs(1) by (auto simp: try_dequeue_batch_def split_beta Let_def)
  note f1 = fold_schedule_ready [OF inv this]
  have "(0::nat) < 16"
    by simp
  note d = batch_ready [OF conjunct1 [OF f1] this]
  have "rq_inv q" and taken: "rq_taken q = rq_taken (sc_rq s) @ batch"
    using d(1,3,4) f1 b hs(1) by (metis fst_conv snd_conv)+
  then have "rq_taken (sc_rq s') = rq_taken (sc_rq s) @ batch"
    using fold_schedule_ready [of q hs2] ok hs(2) by simp
  then have "batch = []"
    using idle by simp
  then have "process_io_events pg ki (submit_queued (s2\<lparr> sc_rq := q \<rparr>)) = Some s'"
    using final by simp
  then have "sc_submitted s' = sc_submitted (submit_queued (s2\<lparr> sc_rq := q \<rparr>))"
    using sub.poll by (auto simp: process_io_events_def Let_def split: if_splits)
  then have "sc_submitted s' = sc_submitted s @ sc_queued s2"
    using sub.run_ticks [OF s1] sub.process_inbox [OF s2] by (simp add: submit_queued_def)
  moreover have "prefix (sc_queued s) (sc_queued s2)"
    by (rule queued.trans [OF queued.run_ticks [OF s1] queued.process_inbox [OF s2]])
  ultimately show ?thesis
    by simp
qed

text \<open>
  The notification a worker sends for a task it dispatches waits in the worker's own submission queue:
  a round in which the worker resumes coroutines does not submit it, however long the target sleeps
  by then, and the first round that finds nothing ready does.
\<close>

lemma worker_message_waits:
  assumes "i < length (rt_schedulers rt)" and "core < length (rt_schedulers rt)"
    and "sq_inv (sc_inbox (rt_schedulers rt ! core))" and "0 < sq_room (sc_inbox (rt_schedulers rt ! core))"
    and "0 \<le> sc_fd (rt_schedulers rt ! core)" and "dispatch_on x (Some i) core t rt = Some rt1"
    and "rq_inv (sc_rq (rt_schedulers rt ! i))" and "iteration pg ki (rt_schedulers rt1 ! i) = Some s'"
    and "\<not> rq_fault (sc_rq s')" and "e = sqe_new (MsgRing (sc_fd (rt_schedulers rt ! core)) TAG_INBOX)"
  shows "sc_queued (rt_schedulers rt1 ! i) = sc_queued (rt_schedulers rt ! i) @ [e] \<and> rt_ext rt1 = rt_ext rt
    \<and> (ready (sc_rq (rt_schedulers rt ! i)) \<noteq> [] \<longrightarrow> sc_submitted s' = sc_submitted (rt_schedulers rt ! i))
    \<and> (rq_taken (sc_rq s') = rq_taken (sc_rq (rt_schedulers rt ! i)) \<longrightarrow> e \<in> set (sc_submitted s'))"
proof -
  let ?s = "rt_schedulers rt ! i" and ?s1 = "rt_schedulers rt1 ! i"
  obtain q where push: "push_inbox t (rt_schedulers rt ! core) = (True, (rt_schedulers rt ! core)\<lparr> sc_inbox := q \<rparr>)"
    using push_accepted [OF assms(3,4), of t] by (auto simp: push_inbox_def split_beta)
  have s1: "sc_queued ?s1 = sc_queued ?s @ [e]" "sc_rq ?s1 = sc_rq ?s" "sc_submitted ?s1 = sc_submitted ?s"
    and ext: "rt_ext rt1 = rt_ext rt"
    using assms(1,2,5,6,10) push
    by (auto simp: dispatch_on_def notify_target_ring_def with_scheduler_def nth_list_update)
  have busy: "sc_submitted s' = sc_submitted ?s" if "ready (sc_rq ?s) \<noteq> []"
    using busy_iteration_submitted [OF _ assms(8,9)] assms(7) that by (simp add: s1)
  have "prefix (sc_submitted ?s1 @ sc_queued ?s1) (sc_submitted s')" if "rq_taken (sc_rq s') = rq_taken (sc_rq ?s)"
    using idle_round_submits [OF assms(8) _ assms(9)] assms(7) that by (simp add: s1)
  then have "e \<in> set (sc_submitted s')" if "rq_taken (sc_rq s') = rq_taken (sc_rq ?s)"
    using that set_mono_prefix by (fastforce simp: s1)
  then show ?thesis
    using s1(1) ext busy by blast
qed

section \<open>A worker that sleeps\<close>

text \<open>The list of called closures only grows at the end.\<close>

interpretation logged: round_relation "logging pg" "\<lambda>s s'. prefix (executed s) (executed s')" for pg :: "('c, 'e) program"
proof unfold_locales
  show "prefix (executed s) (executed (do_action act s))" for act and s :: "('c, 'c list \<times> 'e) scheduler"
    by (cases act) (auto simp: executed_def do_action_def schedule_def push_inbox_def split_beta Let_def)
qed (auto simp: executed_def schedule_def submit_queued_def intro: prefix_order.trans split: option.split)

text \<open>A round keeps the identity and the ring of its scheduler and the invariant of its inbox, and puts nothing for the
  own core into the outbox.\<close>

definition outward :: "('c, 'e) scheduler \<Rightarrow> ('c, 'e) scheduler \<Rightarrow> bool" where
  "outward s s' \<longleftrightarrow> sc_id s' = sc_id s \<and> sc_fd s' = sc_fd s \<and> (sq_inv (sc_inbox s) \<longrightarrow> sq_inv (sc_inbox s')) \<and>
     ((\<forall>d \<in> set (sc_outbox s). fst d \<noteq> sc_id s) \<longrightarrow> (\<forall>d \<in> set (sc_outbox s'). fst d \<noteq> sc_id s))"

interpretation outward: round_relation pg outward for pg :: "('c, 'e) program"
proof unfold_locales
  fix s s1 s2 :: "('c, 'e) scheduler" and act t q
  show "outward s s1 \<Longrightarrow> outward s1 s2 \<Longrightarrow> outward s s2"
    by (auto simp: outward_def)
  show "outward s (do_action act s)"
    using push_inbox_accepts(1) [of s]
    by (cases act) (auto simp: outward_def do_action_def schedule_def push_inbox_def split_beta Let_def)
  show "outward s (s\<lparr> sc_inbox := q \<rparr>)" if "spsc_pop (sc_inbox s) = ((False, t), q)"
    using that spsc_pop_head [of "sc_inbox s"] spsc_pop_empty_case [of "sc_inbox s"]
    by (cases "sq_contents (sc_inbox s) = []") (fastforce simp: outward_def)+
  show "outward s (s\<lparr> sc_inbox := q, sc_env := case the t of None \<Rightarrow> sc_env s | Some c \<Rightarrow> snd (pg_task pg c (sc_env s)) \<rparr>)"
    if "spsc_pop (sc_inbox s) = ((True, t), q)"
    using that spsc_pop_head [of "sc_inbox s"] spsc_pop_empty_case [of "sc_inbox s"]
    by (cases "sq_contents (sc_inbox s) = []") (fastforce simp: outward_def)+
qed (auto simp: outward_def schedule_def submit_queued_def)

lemma process_inbox_empties:
  assumes "process_inbox pg s = Some s'" and "sq_inv (sc_inbox s)"
  shows "sq_contents (sc_inbox s') = []"
  using assms
proof (induction pg' \<equiv> pg s s' rule: process_inbox_induct)
  case (step rec s s')
  obtain popped t q where p: "spsc_pop (sc_inbox s) = ((popped, t), q)"
    by (metis surj_pair)
  show ?case
  proof (cases popped)
    case True
    let ?m = "metrics_record_inbox_processed (sc_metrics s)"
    let ?s1 = "s\<lparr> sc_inbox := q, sc_metrics := ?m \<rparr>"
    let ?s2 = "case the t of None \<Rightarrow> ?s1 | Some c \<Rightarrow> run_code (pg_task pg c) ?s1"
    have "outward s ?s2"
      using outward.task_code [of s t q ?m pg] p True by simp
    then have "sq_inv (sc_inbox ?s2)"
      using step(3) by (simp add: outward_def)
    moreover have "rec pg ?s2 = Some s'"
      using step(2) p True by (simp add: Let_def)
    ultimately show ?thesis
      using step(1) by blast
  next
    case False
    then have "sq_contents (sc_inbox s) = []"
      using p spsc_pop_head [OF step(3)] by auto
    then show ?thesis
      using step(2) p False spsc_pop_empty_case [OF step(3)] by auto
  qed
qed

lemma poll_append: "poll pg (xs @ ys) s = (case poll pg xs s of None \<Rightarrow> None | Some s1 \<Rightarrow> poll pg ys s1)"
  by (induction xs arbitrary: s) (auto split: option.splits)

lemma drained_in_poll:
  assumes "poll (logging pg) cs s = Some s'" and "sq_inv (sc_inbox s)"
    and "c \<in> set cs" and "poll_dispatch c = DrainInbox"
  shows "prefix (history s) (executed s')"
proof -
  obtain as bs where cs: "cs = as @ c # bs"
    using assms(3) by (auto simp: in_set_conv_decomp)
  obtain s1 s2 where s1: "poll (logging pg) as s = Some s1" "poll_one (logging pg) c s1 = Some s2"
    "poll (logging pg) bs s2 = Some s'"
    using assms(1) by (auto simp: cs poll_append split: option.splits)
  have k1: "keeps s s1" and k2: "keeps s1 s2"
    by (rule kept.poll [OF s1(1)]) (rule kept.poll_one [OF s1(2)])
  then have "sq_inv (sc_inbox s1)"
    using assms(2) by (simp add: keeps_def)
  then have "sq_contents (sc_inbox s2) = []"
    using s1(2) assms(4) process_inbox_empties by (fastforce simp: poll_one_def Let_def)
  moreover have "prefix (history s) (history s2)"
    using keeps_trans [OF k1 k2] assms(2) by (simp add: keeps_def)
  ultimately have "prefix (history s) (executed s2)"
    by (simp add: history_def map_filter_simps)
  then show ?thesis
    using logged.poll [OF s1(3)] by (rule prefix_order.trans)
qed

text \<open>
  C14: No wake-up is lost between a worker's last look at its inbox and its sleep: when a task is
  dispatched from outside to a worker that has finished the first half of its round, and the kernel
  delivers the messages sent to the worker's ring as completions, the second half runs the task, after
  all those before it, as soon as the wait returns.
\<close>

theorem sleeping_worker_woken:
  fixes rt :: "('c, 'c list \<times> 'e, 'r) runtime"
  assumes "ext_law x" and "rt_ok rt" and "core < length (rt_schedulers rt)"
    and "0 < sq_room (sc_inbox (rt_schedulers rt ! core))" and "0 \<le> sc_fd (rt_schedulers rt ! core)"
    and "dispatch_on x None core (Some c) rt = Some rt1"
    and delivered: "\<forall>d. sqe_new (MsgRing (sc_fd (rt_schedulers rt ! core)) d) \<in> set (xu_sent x (rt_ext rt1))
      \<longrightarrow> (\<exists>e \<in> set (ki_cqes ki). cqe_user_data e = d)"
    and "\<forall>wait. ki_wait ki wait = 0"
    and "process_io_events (logging pg) ki (rt_schedulers rt1 ! core) = Some s'"
  shows "prefix (history (rt_schedulers rt ! core) @ [c]) (executed s')"
proof -
  let ?s = "rt_schedulers rt ! core" and ?s1 = "rt_schedulers rt1 ! core"
  have inv: "sq_inv (sc_inbox ?s)"
    using assms(2,3) by (simp add: rt_ok_def)
  let ?e = "sqe_new (MsgRing (sc_fd ?s) TAG_INBOX)"
  have "?e \<in> set (xu_sent x (rt_ext rt1))"
    using dispatch_notifies [OF assms(1,3) refl inv assms(4,5), of "\<lparr> cqe_user_data = TAG_INBOX, cqe_res = 0, cqe_flags = 0 \<rparr>" "Some c"]
      assms(6) by auto
  then obtain e where e: "e \<in> set (ki_cqes ki)" "cqe_user_data e = TAG_INBOX"
    using delivered by blast
  have "poll_dispatch e = DrainInbox"
    using e(2) by (simp add: poll_dispatch_def cqe_tag_def cqe_payload_def TAG_INBOX_def TAG_MASK_def TAG_IO_def
        TAG_MULTI_def TAG_CORO_def)
  moreover have "sq_inv (sc_inbox ?s1)" "history ?s1 = history ?s @ [c]"
    using dispatch_adds [OF assms(2,3,4,6)] by simp_all
  moreover have "poll (logging pg) (ki_cqes ki) ?s1 = Some s'"
    using assms(8,9) by (simp add: process_io_events_def Let_def)
  ultimately show ?thesis
    using drained_in_poll [OF _ _ e(1)] by fastforce
qed

section \<open>Concrete runs\<close>

text \<open>Two workers; worker 0 has coroutine 5 ready, worker 1 nothing.\<close>

definition log_scheduler :: "nat \<Rightarrow> run_queue \<Rightarrow> (nat, nat list \<times> handle list) scheduler" where
  "log_scheduler i rq = \<lparr> sc_id = i, sc_fd = 3 + int i, sc_rq = rq, sc_inbox = example_spsc,
     sc_wheel = wheel_init sample_nodes, sc_last_tick = 0,
     sc_contexts = \<lparr> io_ctx = (\<lambda>_. None), io_fault = False \<rparr>, sc_queued = [], sc_submitted = [],
     sc_metrics = metrics_zero, sc_outbox = [], sc_env = ([], []) \<rparr>"

definition two_workers :: "(nat, nat list \<times> handle list, sqe list \<times> sqe list \<times> nat) runtime" where
  "two_workers = \<lparr> rt_running = True,
     rt_schedulers = [log_scheduler 0 (rq_schedule 5 example_rq), log_scheduler 1 example_rq],
     rt_workers = [0, 1], rt_ext = ([], [], 0) \<rparr>"

definition quiet :: kernel_input where
  "quiet = \<lparr> ki_now = 0, ki_idle_now = 0, ki_wait = (\<lambda>_. 0), ki_cqes = [] \<rparr>"

lemma example_spsc_inv: "sq_inv example_spsc" "sq_contents example_spsc = []" "sq_room example_spsc = 2"
  using scheduler_new_inv [OF example_scheduler_new] by (simp_all add: example_scheduler_def)

lemma two_workers_ok: "rt_ok two_workers"
  using example_spsc_inv by (simp add: rt_ok_def two_workers_def log_scheduler_def)

lemma two_workers_run: "map_option (\<lambda>rt. map (\<lambda>s. (executed s, sq_contents (sc_inbox s), sc_submitted s)) (rt_schedulers rt))
    (Option.bind (dispatch_on example_ext (Some 0) 1 (Some 4) two_workers)
      (run_events example_ext (logging example_program) [Round 0 quiet, Outside 1 (Some 6), Round 1 quiet]))
    = Some [([], [], []), ([4, 6], [], [])]"
  by code_simp

theorem accepted_task_runs_in_order_witness:
  "\<exists>rt1 rt2. dispatch_on example_ext (Some 0) 1 (Some 4) two_workers = Some rt1
     \<and> run_events example_ext (logging example_program) [Round 0 quiet, Outside 1 (Some 6), Round 1 quiet] rt1 = Some rt2
     \<and> prefix [4] (executed (rt_schedulers rt2 ! 1))"
proof -
  obtain rt1 rt2 where run: "dispatch_on example_ext (Some 0) 1 (Some 4) two_workers = Some rt1"
    "run_events example_ext (logging example_program) [Round 0 quiet, Outside 1 (Some 6), Round 1 quiet] rt1 = Some rt2"
    "map (\<lambda>s. (executed s, sq_contents (sc_inbox s), sc_submitted s)) (rt_schedulers rt2) = [([], [], []), ([4, 6], [], [])]"
    using two_workers_run by (auto simp: bind_eq_Some_conv simp del: run_events.simps)
  have core: "(1::nat) < length (rt_schedulers two_workers)" "0 < sq_room (sc_inbox (rt_schedulers two_workers ! 1))"
    "history (rt_schedulers two_workers ! 1) = []"
    using example_spsc_inv by (simp_all add: two_workers_def log_scheduler_def history_def executed_def map_filter_simps)
  have "sq_contents (sc_inbox (rt_schedulers rt2 ! 1)) = []"
    using run(3) by auto
  then show ?thesis
    using accepted_task_runs_in_order [OF two_workers_ok core(1,2) run(1,2)] run(1,2) core(3) by auto
qed

lemma ready_worker: "rq_inv (rq_schedule 5 example_rq)" "ready (rq_schedule 5 example_rq) = [5]"
proof -
  have "\<not> rq_fault (rq_schedule 5 example_rq)"
    by (simp add: example_rq_def rq_schedule_def)
  then show "rq_inv (rq_schedule 5 example_rq)" "ready (rq_schedule 5 example_rq) = [5]"
    using schedule_ready [OF example_rq_inv(1), of 5] example_rq_inv(2) by (simp_all add: example_rq_def)
qed

lemma busy_round_run: "map_option (\<lambda>s. rq_fault (sc_rq s))
    (Option.bind (dispatch_on example_ext (Some 0) 1 (Some 4) two_workers)
      (\<lambda>rt. iteration (logging example_program) quiet (rt_schedulers rt ! 0))) = Some False"
  by code_simp

lemma worker_message_waits_instance:
  "\<exists>rt1 s'. dispatch_on example_ext (Some 0) 1 (Some 4) two_workers = Some rt1
     \<and> iteration (logging example_program) quiet (rt_schedulers rt1 ! 0) = Some s'
     \<and> sc_queued (rt_schedulers rt1 ! 0) = [sqe_new (MsgRing 4 TAG_INBOX)] \<and> sc_submitted s' = []"
proof -
  obtain rt1 s' where run: "dispatch_on example_ext (Some 0) 1 (Some 4) two_workers = Some rt1"
    "iteration (logging example_program) quiet (rt_schedulers rt1 ! 0) = Some s'" "\<not> rq_fault (sc_rq s')"
    using busy_round_run by (auto simp: bind_eq_Some_conv)
  have s: "rt_schedulers two_workers ! 0 = log_scheduler 0 (rq_schedule 5 example_rq)"
    "rt_schedulers two_workers ! 1 = log_scheduler 1 example_rq" "length (rt_schedulers two_workers) = 2"
    by (simp_all add: two_workers_def)
  show ?thesis
    using worker_message_waits [of 0 two_workers 1, OF _ _ _ _ _ run(1) _ run(2,3) refl] run(1,2) ready_worker example_spsc_inv
    by (simp add: s [unfolded One_nat_def] log_scheduler_def)
qed

text \<open>Worker 1 has found nothing and blocks; a thread from outside dispatches task 4 to it.\<close>

definition woken :: kernel_input where
  "woken = \<lparr> ki_now = 0, ki_idle_now = 0, ki_wait = (\<lambda>_. 0),
     ki_cqes = [\<lparr> cqe_user_data = TAG_INBOX, cqe_res = 0, cqe_flags = 0 \<rparr>] \<rparr>"

lemma woken_run: "map_option (\<lambda>(rt, s). (xu_sent example_ext (rt_ext rt), executed s))
    (Option.bind (dispatch_on example_ext None 1 (Some 4) two_workers)
      (\<lambda>rt. map_option (Pair rt) (process_io_events (logging example_program) woken (rt_schedulers rt ! 1))))
    = Some ([sqe_new (MsgRing 4 TAG_INBOX)], [4])"
  by code_simp

theorem sleeping_worker_woken_witness:
  "\<exists>rt1 s'. dispatch_on example_ext None 1 (Some 4) two_workers = Some rt1
     \<and> process_io_events (logging example_program) woken (rt_schedulers rt1 ! 1) = Some s' \<and> prefix [4] (executed s')"
proof -
  obtain rt1 s' where run: "dispatch_on example_ext None 1 (Some 4) two_workers = Some rt1"
    "process_io_events (logging example_program) woken (rt_schedulers rt1 ! 1) = Some s'"
    "xu_sent example_ext (rt_ext rt1) = [sqe_new (MsgRing 4 TAG_INBOX)]"
    using woken_run by (auto simp: bind_eq_Some_conv)
  have s: "(1::nat) < length (rt_schedulers two_workers)" "rt_schedulers two_workers ! 1 = log_scheduler 1 example_rq"
    by (simp_all add: two_workers_def)
  have "history (log_scheduler 1 example_rq) = []"
    using example_spsc_inv by (simp add: log_scheduler_def history_def executed_def map_filter_simps)
  moreover have "\<forall>d. sqe_new (MsgRing (sc_fd (log_scheduler 1 example_rq)) d) \<in> set (xu_sent example_ext (rt_ext rt1))
      \<longrightarrow> (\<exists>e \<in> set (ki_cqes woken). cqe_user_data e = d)"
    by (simp add: run(3) woken_def sqe_new_def)
  ultimately have "prefix [4] (executed s')"
    using sleeping_worker_woken [OF example_ext_law two_workers_ok s(1) _ _ run(1) _ _ run(2)] example_spsc_inv
    unfolding s(2) by (simp add: woken_def log_scheduler_def)
  then show ?thesis
    using run(1,2) by blast
qed

end
