(* ===== verification/Worker_Threads.thy ===== *)
theory Worker_Threads
  imports Workers
begin

text \<open>
  The whole process: the worker threads from the start of \<open>Scheduler::run\<close> to their end, threads from
  outside that dispatch, the thread that calls \<open>Runtime::stop\<close>, and the kernel that carries the
  messages between the rings. A round of a worker is cut where it reads \<open>is_running_\<close> and where it may
  block, so that anything can happen there. The runtime was started once: worker \<open>i\<close> runs scheduler \<open>i\<close>.
\<close>

section \<open>States\<close>

text \<open>Where a worker is: not yet in its loop, at the head of the loop, past the test of \<open>is_running_\<close>, in the
  wait for completions, or out of the loop.\<close>

datatype worker = Starting | At_Top | In_Round | In_Wait | Exited

text \<open>\<open>Runtime::stop\<close>: the next scheduler to wake, then the next thread to join.\<close>

datatype stopping = Not_Stopping | Waking nat | Joining nat | Stopped

record ('c, 'e, 'r) process =
  pr_rt :: "('c, 'e, 'r) runtime"
  pr_at :: "worker list"
  pr_cq :: "nat \<Rightarrow> u64 list"   \<comment> \<open>messages in the completion ring of a worker that it has not reaped\<close>
  pr_stop :: stopping
  pr_refused :: bool           \<comment> \<open>a task of \<open>stop\<close> found the inbox full\<close>

definition sched :: "('c, 'e, 'r) process \<Rightarrow> nat \<Rightarrow> ('c, 'e) scheduler" where
  "sched p i = rt_schedulers (pr_rt p) ! i"

text \<open>The messages for the ring \<open>fd\<close> among submitted entries, and their arrival: the kernel posts a completion with the
  data of the message to the ring it names.\<close>

fun msgs_for :: "int \<Rightarrow> sqe list \<Rightarrow> u64 list" where
  "msgs_for fd [] = []"
| "msgs_for fd (e # es) = (case sqe_op e of MsgRing fd1 d \<Rightarrow> if fd1 = fd then [d] else [] | _ \<Rightarrow> []) @ msgs_for fd es"

definition deliver :: "('c, 'e, 'r) runtime \<Rightarrow> sqe list \<Rightarrow> (nat \<Rightarrow> u64 list) \<Rightarrow> nat \<Rightarrow> u64 list" where
  "deliver rt es cq i =
     (if i < length (rt_schedulers rt) then cq i @ msgs_for (sc_fd (rt_schedulers rt ! i)) es else cq i)"

section \<open>Steps\<close>

text \<open>The first lines of \<open>run\<close>: the ring is open and the clock is read.\<close>

definition run_enter :: "nat \<Rightarrow> int \<Rightarrow> u64 \<Rightarrow> ('c, 'e, 'r) runtime \<Rightarrow> ('c, 'e, 'r) runtime" where
  "run_enter i fd now rt = with_scheduler i (\<lambda>s. s\<lparr> sc_last_tick := now \<rparr>) (worker_init i fd rt)"

text \<open>Whether a wait that returned leads to a poll.\<close>

definition wait_polls :: "kernel_input \<Rightarrow> ('c, 'e) scheduler \<Rightarrow> bool" where
  "wait_polls ki s =
     (let ret = ki_wait ki (wait_for (next_timeout (ki_idle_now ki) (sc_wheel s))) in ret = 0 \<or> ret = - ETIME)"

text \<open>A thread that is no worker dispatches, with a ring of its own that has nothing pending; the message it
  sends is delivered.\<close>

definition outside_dispatch ::
    "'r ext_uring \<Rightarrow> 'r \<Rightarrow> nat \<Rightarrow> 'c option \<Rightarrow> ('c, 'e, 'r) process \<Rightarrow> ('c, 'e, 'r) process option" where
  "outside_dispatch x r core t p =
     map_option (\<lambda>rt. p\<lparr> pr_rt := rt, pr_cq := deliver rt (drop (length (xu_sent x r)) (xu_sent x (rt_ext rt))) (pr_cq p) \<rparr>)
       (dispatch_on x None core t ((pr_rt p)\<lparr> rt_ext := r \<rparr>))"

inductive process_step ::
    "'r ext_uring \<Rightarrow> ('c, 'e) program \<Rightarrow> 'c \<Rightarrow> ('c, 'e, 'r) process \<Rightarrow> ('c, 'e, 'r) process \<Rightarrow> bool"
  for x pg nop where
  enter: "i < length (pr_at p) \<Longrightarrow> pr_at p ! i = Starting \<Longrightarrow> 0 \<le> fd
    \<Longrightarrow> process_step x pg nop p (p\<lparr> pr_rt := run_enter i fd now (pr_rt p), pr_at := (pr_at p)[i := At_Top] \<rparr>)"
| check: "i < length (pr_at p) \<Longrightarrow> pr_at p ! i = At_Top
    \<Longrightarrow> process_step x pg nop p (p\<lparr> pr_at := (pr_at p)[i := if rt_running (pr_rt p) then In_Round else Exited] \<rparr>)"
| busy: "i < length (pr_at p) \<Longrightarrow> pr_at p ! i = In_Round
    \<Longrightarrow> worker_serve x pg ki i (pr_rt p) = Some (False, rt)
    \<Longrightarrow> subseq (pr_cq p i) (map cqe_user_data (ki_cqes ki))
    \<Longrightarrow> process_step x pg nop p (p\<lparr> pr_rt := rt, pr_at := (pr_at p)[i := At_Top], pr_cq := (pr_cq p)(i := []) \<rparr>)"
| idle: "i < length (pr_at p) \<Longrightarrow> pr_at p ! i = In_Round
    \<Longrightarrow> worker_serve x pg ki i (pr_rt p) = Some (True, rt)
    \<Longrightarrow> process_step x pg nop p (p\<lparr> pr_rt := rt, pr_at := (pr_at p)[i := In_Wait],
          pr_cq := deliver rt (drop (length (sc_submitted (sched p i))) (sc_submitted (rt_schedulers rt ! i))) (pr_cq p) \<rparr>)"
| polled: "i < length (pr_at p) \<Longrightarrow> pr_at p ! i = In_Wait
    \<Longrightarrow> wait_polls ki (sched p i) \<Longrightarrow> worker_wait x pg ki i (pr_rt p) = Some rt
    \<Longrightarrow> subseq (pr_cq p i) (map cqe_user_data (ki_cqes ki))
    \<Longrightarrow> process_step x pg nop p (p\<lparr> pr_rt := rt, pr_at := (pr_at p)[i := At_Top], pr_cq := (pr_cq p)(i := []) \<rparr>)"
| interrupted: "i < length (pr_at p) \<Longrightarrow> pr_at p ! i = In_Wait
    \<Longrightarrow> \<not> wait_polls ki (sched p i) \<Longrightarrow> worker_wait x pg ki i (pr_rt p) = Some rt
    \<Longrightarrow> process_step x pg nop p (p\<lparr> pr_rt := rt, pr_at := (pr_at p)[i := At_Top] \<rparr>)"
| outside: "xu_pending x r = [] \<Longrightarrow> outside_dispatch x r core t p = Some p1 \<Longrightarrow> process_step x pg nop p p1"
| stop_flag: "pr_stop p = Not_Stopping
    \<Longrightarrow> process_step x pg nop p (p\<lparr> pr_rt := (pr_rt p)\<lparr> rt_running := False \<rparr>, pr_stop := Waking 0 \<rparr>)"
| stop_wake: "pr_stop p = Waking k \<Longrightarrow> k < length (rt_schedulers (pr_rt p)) \<Longrightarrow> xu_pending x r = []
    \<Longrightarrow> outside_dispatch x r k (Some nop) p = Some p1
    \<Longrightarrow> process_step x pg nop p (p1\<lparr> pr_stop := Waking (Suc k),
          pr_refused := (pr_refused p \<or> \<not> fst (push_inbox (Some nop) (sched p k))) \<rparr>)"
| stop_woken: "pr_stop p = Waking k \<Longrightarrow> length (rt_schedulers (pr_rt p)) \<le> k
    \<Longrightarrow> process_step x pg nop p (p\<lparr> pr_stop := Joining 0 \<rparr>)"
| stop_join: "pr_stop p = Joining k \<Longrightarrow> k < length (pr_at p) \<Longrightarrow> pr_at p ! k = Exited
    \<Longrightarrow> process_step x pg nop p (p\<lparr> pr_stop := Joining (Suc k) \<rparr>)"
| stop_joined: "pr_stop p = Joining k \<Longrightarrow> length (pr_at p) \<le> k
    \<Longrightarrow> process_step x pg nop p (p\<lparr> pr_stop := Stopped \<rparr>)"

text \<open>After \<open>start\<close>.\<close>

definition process_start :: "('c, 'e, 'r) runtime \<Rightarrow> ('c, 'e, 'r) process" where
  "process_start rt = \<lparr> pr_rt = rt, pr_at = map (\<lambda>_. Starting) (rt_workers rt), pr_cq = (\<lambda>_. []),
     pr_stop = Not_Stopping, pr_refused = False \<rparr>"

inductive started ::
    "'r ext_uring \<Rightarrow> ('c, 'e) program \<Rightarrow> 'c \<Rightarrow> ('c, 'e, 'r) process \<Rightarrow> bool"
  for x pg nop where
  started_new: "rt_schedulers rt0 = [] \<Longrightarrow> rt_workers rt0 = [] \<Longrightarrow> start ns e n rt0 = Inr rt
    \<Longrightarrow> started x pg nop (process_start rt)"
| started_step: "started x pg nop p \<Longrightarrow> process_step x pg nop p p1 \<Longrightarrow> started x pg nop p1"

section \<open>What a dispatch changes\<close>

definition message :: "('c, 'e, 'r) runtime \<Rightarrow> nat \<Rightarrow> sqe" where
  "message rt i = sqe_new (MsgRing (sc_fd (rt_schedulers rt ! i)) TAG_INBOX)"

text \<open>Identity, ring and outbox of the schedulers stay, their inboxes and queues only grow.\<close>

definition grows :: "('c, 'e) scheduler \<Rightarrow> ('c, 'e) scheduler \<Rightarrow> bool" where
  "grows s s' \<longleftrightarrow> sc_id s' = sc_id s \<and> sc_fd s' = sc_fd s \<and> sc_outbox s' = sc_outbox s \<and>
     sc_submitted s' = sc_submitted s \<and> prefix (sc_queued s) (sc_queued s') \<and>
     (sq_inv (sc_inbox s) \<longrightarrow> sq_inv (sc_inbox s'))"

lemma grows_refl [simp]: "grows s s"
  by (simp add: grows_def)

lemma grows_trans: "grows s s1 \<Longrightarrow> grows s1 s2 \<Longrightarrow> grows s s2"
  by (auto simp: grows_def intro: prefix_order.trans)

lemma grows_push: "grows s (snd (push_inbox t s))"
  using push_inbox_accepts(1) [of s t] by (simp add: grows_def push_inbox_def split_beta)

lemma grows_queued: "grows s (s\<lparr> sc_queued := sc_queued s @ es \<rparr>)"
  by (simp add: grows_def)

definition rt_grows :: "('c, 'e, 'r) runtime \<Rightarrow> ('c, 'e, 'r) runtime \<Rightarrow> bool" where
  "rt_grows rt rt' \<longleftrightarrow> list_all2 grows (rt_schedulers rt) (rt_schedulers rt')"

lemma rt_grows_refl [simp]: "rt_grows rt rt"
  unfolding rt_grows_def by (rule list_all2_refl) simp

lemma rt_grows_trans: "rt_grows rt rt1 \<Longrightarrow> rt_grows rt1 rt2 \<Longrightarrow> rt_grows rt rt2"
  unfolding rt_grows_def by (rule list_all2_trans [OF grows_trans])

lemma rt_growsD: "rt_grows rt rt' \<Longrightarrow> length (rt_schedulers rt') = length (rt_schedulers rt)"
  by (simp add: rt_grows_def list_all2_lengthD)

lemma rt_grows_nth: "rt_grows rt rt' \<Longrightarrow> i < length (rt_schedulers rt) \<Longrightarrow> grows (rt_schedulers rt ! i) (rt_schedulers rt' ! i)"
  by (simp add: rt_grows_def list_all2_nthD)

lemma rt_grows_update: "grows (rt_schedulers rt ! i) (f (rt_schedulers rt ! i)) \<Longrightarrow> rt_grows rt (with_scheduler i f rt)"
  unfolding rt_grows_def with_scheduler_def
  by (cases "i < length (rt_schedulers rt)") (auto simp: list_all2_conv_all_nth nth_list_update)

text \<open>Whoever finds tasks in an inbox has been sent a message or is going to be.\<close>

definition rung :: "('c, 'e, 'r) runtime \<Rightarrow> (nat \<Rightarrow> u64 list) \<Rightarrow> nat \<Rightarrow> bool" where
  "rung rt cq i \<longleftrightarrow> TAG_INBOX \<in> set (cq i) \<or>
     (\<exists>j < length (rt_schedulers rt). message rt i \<in> set (sc_queued (rt_schedulers rt ! j)))"

definition belled :: "('c, 'e, 'r) runtime \<Rightarrow> (nat \<Rightarrow> u64 list) \<Rightarrow> nat \<Rightarrow> bool" where
  "belled rt cq i \<longleftrightarrow> sq_contents (sc_inbox (rt_schedulers rt ! i)) \<noteq> [] \<longrightarrow> rung rt cq i"

lemma rung_grows:
  assumes "rt_grows rt rt'" and "i < length (rt_schedulers rt)" and "rung rt cq i" and "set (cq i) \<subseteq> set (cq' i)"
  shows "rung rt' cq' i"
proof -
  have "message rt' i = message rt i"
    using rt_grows_nth [OF assms(1,2)] by (simp add: message_def grows_def)
  moreover have "set (sc_queued (rt_schedulers rt ! j)) \<subseteq> set (sc_queued (rt_schedulers rt' ! j))"
    if "j < length (rt_schedulers rt)" for j
    using rt_grows_nth [OF assms(1) that] by (auto simp: grows_def dest: set_mono_prefix)
  ultimately show ?thesis
    using assms(3,4) rt_growsD [OF assms(1)] unfolding rung_def by fastforce
qed

lemma push_contents:
  assumes "sq_inv (sc_inbox s)" and "\<not> fst (push_inbox t s)"
  shows "sc_inbox (snd (push_inbox t s)) = sc_inbox s \<and> sq_contents (sc_inbox s) \<noteq> []"
proof -
  have full: "sq_room (sc_inbox s) = 0"
    using push_accepted [OF assms(1), of t] assms(2) by (auto simp: push_inbox_def split_beta)
  then have "spsc_push t (sc_inbox s) = (False, sc_inbox s)"
    by (rule spsc_push_full [OF assms(1)])
  moreover obtain k where "sq_shape k (sc_inbox s)" "sq_size (sc_inbox s) \<le> 2 ^ k"
    using assms(1) by (rule sq_invE)
  then have "sq_size (sc_inbox s) = 2 ^ k"
    using full by (simp add: sq_room_def sq_shapeD)
  then have "sq_contents (sc_inbox s) \<noteq> []"
    by (simp add: sq_contents_def flip: length_0_conv)
  ultimately show ?thesis
    by (simp add: push_inbox_def)
qed

text \<open>A worker's dispatch queues the message in its own ring, a dispatch from outside sends it.\<close>

lemma worker_dispatch:
  assumes "dispatch_on x (Some j) core t rt = Some rt1" and "j < length (rt_schedulers rt)"
  shows "rt_grows rt rt1" and "i \<noteq> core \<Longrightarrow> sc_inbox (rt_schedulers rt1 ! i) = sc_inbox (rt_schedulers rt ! i)"
    and "rt_running rt1 = rt_running rt" and "i \<noteq> j \<Longrightarrow> sc_queued (rt_schedulers rt1 ! i) = sc_queued (rt_schedulers rt ! i)"
    and "sq_inv (sc_inbox (rt_schedulers rt ! i)) \<Longrightarrow> 0 \<le> sc_fd (rt_schedulers rt ! i) \<Longrightarrow> i < length (rt_schedulers rt)
      \<Longrightarrow> belled rt cq i \<Longrightarrow> belled rt1 cq i"
proof -
  have all: "rt_grows rt rt1 \<and> (i \<noteq> core \<longrightarrow> sc_inbox (rt_schedulers rt1 ! i) = sc_inbox (rt_schedulers rt ! i))
    \<and> rt_running rt1 = rt_running rt \<and> (i \<noteq> j \<longrightarrow> sc_queued (rt_schedulers rt1 ! i) = sc_queued (rt_schedulers rt ! i))
    \<and> (sq_inv (sc_inbox (rt_schedulers rt ! i)) \<and> 0 \<le> sc_fd (rt_schedulers rt ! i)
      \<and> i < length (rt_schedulers rt) \<and> belled rt cq i \<longrightarrow> belled rt1 cq i)"
  proof (cases "core < length (rt_schedulers rt)")
    case False
    then show ?thesis
      using assms(1) by (simp add: dispatch_on_def)
  next
    case True
    let ?s = "snd (push_inbox t (rt_schedulers rt ! core))"
    let ?rt = "with_scheduler core (\<lambda>_. ?s) rt"
    let ?e = "sqe_new (MsgRing (sc_fd ?s) TAG_INBOX)"
    let ?ring = "fst (push_inbox t (rt_schedulers rt ! core)) \<and> 0 \<le> sc_fd ?s"
    have g: "rt_grows rt ?rt"
      by (rule rt_grows_update) (rule grows_push)
    have rt1: "rt1 = (if ?ring then with_scheduler j (\<lambda>s. s\<lparr> sc_queued := sc_queued s @ [?e] \<rparr>) ?rt else ?rt)"
      using assms(1) True by (auto simp: dispatch_on_def notify_target_ring_def split_beta Let_def split: if_splits)
    have g1: "rt_grows ?rt rt1"
      unfolding rt1 by (auto intro!: rt_grows_update simp: grows_def)
    have inbox: "sc_inbox (rt_schedulers rt1 ! k) = sc_inbox (rt_schedulers ?rt ! k)" for k
      unfolding rt1 using rt_growsD [OF g] assms(2) by (auto simp: with_scheduler_def nth_list_update)
    have other: "sc_inbox (rt_schedulers ?rt ! k) = sc_inbox (rt_schedulers rt ! k)" if "k \<noteq> core" for k
      using that by (simp add: with_scheduler_def)
    have ring: "belled rt1 cq i" if "sq_inv (sc_inbox (rt_schedulers rt ! i))" "0 \<le> sc_fd (rt_schedulers rt ! i)"
        "i < length (rt_schedulers rt)" "belled rt cq i"
    proof -
      have kept: "rung rt1 cq i" if "rung rt cq i"
        by (rule rung_grows [OF rt_grows_trans [OF g g1] \<open>i < _\<close> that]) simp
      show ?thesis
      proof (cases "i = core \<and> fst (push_inbox t (rt_schedulers rt ! core))")
        case True
        have fd: "sc_fd ?s = sc_fd (rt_schedulers rt ! core)"
          by (simp add: push_inbox_def split_beta)
        then have "rt1 = with_scheduler j (\<lambda>s. s\<lparr> sc_queued := sc_queued s @ [?e] \<rparr>) ?rt"
          using rt1 True that(2) by auto
        then have "?e \<in> set (sc_queued (rt_schedulers rt1 ! j))" "length (rt_schedulers rt1) = length (rt_schedulers rt)"
          using assms(2) by (simp_all add: with_scheduler_def)
        moreover have "message rt1 i = ?e"
          using rt_grows_nth [OF rt_grows_trans [OF g g1] that(3)] fd True by (simp add: message_def grows_def)
        ultimately show ?thesis
          using assms(2) by (auto simp: belled_def rung_def)
      next
        case False
        then have "sc_inbox (rt_schedulers ?rt ! i) = sc_inbox (rt_schedulers rt ! i)"
          using other push_contents [of "rt_schedulers rt ! core" t] that(1) \<open>core < _\<close>
          by (cases "i = core") (auto simp: with_scheduler_def)
        then show ?thesis
          using that(4) kept inbox by (simp add: belled_def)
      qed
    qed
    have "rt_running rt1 = rt_running rt"
      unfolding rt1 by (simp add: with_scheduler_def)
    moreover have "sc_queued (rt_schedulers rt1 ! i) = sc_queued (rt_schedulers rt ! i)" if "i \<noteq> j"
      using that True unfolding rt1 by (auto simp: with_scheduler_def nth_list_update push_inbox_def split_beta)
    ultimately show ?thesis
      using rt_grows_trans [OF g g1] inbox other ring by auto
  qed
  then show "rt_grows rt rt1" "i \<noteq> core \<Longrightarrow> sc_inbox (rt_schedulers rt1 ! i) = sc_inbox (rt_schedulers rt ! i)"
    "rt_running rt1 = rt_running rt" "i \<noteq> j \<Longrightarrow> sc_queued (rt_schedulers rt1 ! i) = sc_queued (rt_schedulers rt ! i)"
    "sq_inv (sc_inbox (rt_schedulers rt ! i)) \<Longrightarrow> 0 \<le> sc_fd (rt_schedulers rt ! i) \<Longrightarrow> i < length (rt_schedulers rt)
      \<Longrightarrow> belled rt cq i \<Longrightarrow> belled rt1 cq i"
    by blast+
qed

text \<open>Between the phases of its round a worker's outbox names other cores only; between the rounds it is empty.\<close>

definition outgoing :: "nat \<Rightarrow> ('c, 'e) scheduler \<Rightarrow> bool" where
  "outgoing i s \<longleftrightarrow> sc_id s = i \<and> sq_inv (sc_inbox s) \<and> (\<forall>d \<in> set (sc_outbox s). fst d \<noteq> i)"

definition settled :: "('c, 'e, 'r) runtime \<Rightarrow> bool" where
  "settled rt \<longleftrightarrow> (\<forall>i < length (rt_schedulers rt). sc_id (rt_schedulers rt ! i) = i \<and>
     sq_inv (sc_inbox (rt_schedulers rt ! i)) \<and> sc_outbox (rt_schedulers rt ! i) = [])"

text \<open>What a part of the round of worker \<open>j\<close> does to the others.\<close>

definition others_kept :: "nat \<Rightarrow> (nat \<Rightarrow> u64 list) \<Rightarrow> ('c, 'e, 'r) runtime \<Rightarrow> ('c, 'e, 'r) runtime \<Rightarrow> bool" where
  "others_kept j cq rt rt' \<longleftrightarrow> length (rt_schedulers rt') = length (rt_schedulers rt) \<and> rt_running rt' = rt_running rt \<and>
     (\<forall>i < length (rt_schedulers rt). sc_fd (rt_schedulers rt' ! i) = sc_fd (rt_schedulers rt ! i) \<and>
        (i \<noteq> j \<longrightarrow> sc_queued (rt_schedulers rt' ! i) = sc_queued (rt_schedulers rt ! i)) \<and>
        (i \<noteq> j \<longrightarrow> (sc_id (rt_schedulers rt ! i) = i \<and> sq_inv (sc_inbox (rt_schedulers rt ! i)) \<and> sc_outbox (rt_schedulers rt ! i) = [] \<longrightarrow>
            sc_id (rt_schedulers rt' ! i) = i \<and> sq_inv (sc_inbox (rt_schedulers rt' ! i)) \<and> sc_outbox (rt_schedulers rt' ! i) = [])) \<and>
        (i \<noteq> j \<and> sq_inv (sc_inbox (rt_schedulers rt ! i)) \<and> 0 \<le> sc_fd (rt_schedulers rt ! i) \<and> belled rt cq i \<longrightarrow>
            sq_inv (sc_inbox (rt_schedulers rt' ! i)) \<and> belled rt' cq i))"

lemma others_kept_refl [simp]: "others_kept j cq rt rt"
  by (simp add: others_kept_def)

lemma others_kept_trans: "others_kept j cq rt rt1 \<Longrightarrow> others_kept j cq rt1 rt2 \<Longrightarrow> others_kept j cq rt rt2"
  by (auto simp: others_kept_def)

lemma others_kept_update:
  assumes "j < length (rt_schedulers rt)" and "sc_fd s = sc_fd (rt_schedulers rt ! j)"
    and "prefix (sc_queued (rt_schedulers rt ! j)) (sc_queued s)"
  shows "others_kept j cq rt (with_scheduler j (\<lambda>_. s) rt)"
proof -
  let ?rt = "with_scheduler j (\<lambda>_. s) rt"
  have nth: "rt_schedulers ?rt ! i = (if i = j then s else rt_schedulers rt ! i)" "length (rt_schedulers ?rt) = length (rt_schedulers rt)" for i
    using assms(1) by (simp_all add: with_scheduler_def nth_list_update)
  have msg: "message ?rt i = message rt i" for i
    using assms(2) by (simp add: message_def nth)
  have "set (sc_queued (rt_schedulers rt ! k)) \<subseteq> set (sc_queued (rt_schedulers ?rt ! k))" for k
    using assms(3) by (auto simp: nth dest: set_mono_prefix)
  then have "rung ?rt cq i" if "rung rt cq i" for i
    using that msg nth(2) unfolding rung_def by fastforce
  then have "belled ?rt cq i" if "belled rt cq i" "i \<noteq> j" for i
    using that by (simp add: belled_def nth)
  then show ?thesis
    using assms(2) nth by (auto simp: others_kept_def with_scheduler_def)
qed

lemma others_kept_dispatch:
  assumes "dispatch_on x (Some j) core t rt = Some rt1" and "j < length (rt_schedulers rt)"
  shows "others_kept j cq rt rt1"
proof -
  note W = worker_dispatch [OF assms]
  have "grows (rt_schedulers rt ! i) (rt_schedulers rt1 ! i)" if "i < length (rt_schedulers rt)" for i
    by (rule rt_grows_nth [OF W(1) that])
  then show ?thesis
    using W(3-5) rt_growsD [OF W(1)] by (auto simp: others_kept_def grows_def)
qed

lemma dispatch_all_out:
  assumes "dispatch_all x (Some j) ds rt = Some rt1" and "j < length (rt_schedulers rt)" and "\<forall>d \<in> set ds. fst d \<noteq> j"
  shows "others_kept j cq rt rt1 \<and> grows (rt_schedulers rt ! j) (rt_schedulers rt1 ! j) \<and>
    sc_inbox (rt_schedulers rt1 ! j) = sc_inbox (rt_schedulers rt ! j)"
  using assms
proof (induction ds arbitrary: rt)
  case (Cons d ds)
  obtain core t where d: "d = (core, t)"
    by (cases d)
  obtain rt2 where rt2: "dispatch_on x (Some j) core t rt = Some rt2" "dispatch_all x (Some j) ds rt2 = Some rt1"
    using Cons.prems(1) d by (auto split: option.splits)
  note W = worker_dispatch [OF rt2(1) Cons.prems(2)]
  have "others_kept j cq rt2 rt1 \<and> grows (rt_schedulers rt2 ! j) (rt_schedulers rt1 ! j) \<and>
      sc_inbox (rt_schedulers rt1 ! j) = sc_inbox (rt_schedulers rt2 ! j)"
    by (rule Cons.IH [OF rt2(2)]) (use Cons.prems rt_growsD [OF W(1)] in auto)
  moreover have "j \<noteq> core"
    using Cons.prems(3) d by auto
  ultimately show ?case
    using others_kept_trans [OF others_kept_dispatch [OF rt2(1) Cons.prems(2)]]
      grows_trans [OF rt_grows_nth [OF W(1) Cons.prems(2)]] W(2) by auto
qed simp

lemma dispatch_out_effects:
  assumes "dispatch_out x j (with_scheduler j (\<lambda>_. s) rt) = Some rt1" and "j < length (rt_schedulers rt)"
    and "outgoing j s" and "sc_fd s = sc_fd (rt_schedulers rt ! j)"
    and "prefix (sc_queued (rt_schedulers rt ! j)) (sc_queued s)"
  shows "others_kept j cq rt rt1" and "grows (s\<lparr> sc_outbox := [] \<rparr>) (rt_schedulers rt1 ! j)"
    and "sc_inbox (rt_schedulers rt1 ! j) = sc_inbox s"
proof -
  let ?s = "s\<lparr> sc_outbox := [] \<rparr>"
  let ?rt = "with_scheduler j (\<lambda>_. ?s) rt"
  have nth: "rt_schedulers ?rt ! j = ?s" "length (rt_schedulers ?rt) = length (rt_schedulers rt)"
    using assms(2) by (simp_all add: with_scheduler_def)
  have out: "dispatch_all x (Some j) (sc_outbox s) ?rt = Some rt1"
    using assms(1,2) by (simp add: dispatch_out_def with_scheduler_def)
  have "\<forall>d \<in> set (sc_outbox s). fst d \<noteq> j"
    using assms(3) by (simp add: outgoing_def)
  note D = dispatch_all_out [OF out _ this]
  show "others_kept j cq rt rt1"
    by (rule others_kept_trans [OF others_kept_update [where s = ?s]]) (use assms nth D in auto)
  show "grows ?s (rt_schedulers rt1 ! j)" "sc_inbox (rt_schedulers rt1 ! j) = sc_inbox s"
    using D assms(2) nth by auto
qed

section \<open>The phases of a round\<close>

lemma settled_outgoing: "settled rt \<Longrightarrow> j < length (rt_schedulers rt) \<Longrightarrow> outgoing j (rt_schedulers rt ! j)"
  by (simp add: settled_def outgoing_def)

lemma outward_outgoing: "outward s s' \<Longrightarrow> outgoing j s \<Longrightarrow> outgoing j s' \<and> sc_fd s' = sc_fd s"
  by (auto simp: outward_def outgoing_def)

lemma gather_effects:
  assumes "gather pg ki s = Some s'" and "outgoing j s"
  shows "outgoing j s'" and "sc_fd s' = sc_fd s" and "prefix (sc_queued s) (sc_queued s')"
    and "sc_submitted s' = sc_submitted s" and "sq_contents (sc_inbox s') = []"
proof -
  show "outgoing j s'" "sc_fd s' = sc_fd s"
    using outward_outgoing [OF outward.gather [OF assms(1)] assms(2)] by simp_all
  show "prefix (sc_queued s) (sc_queued s')"
    by (rule queued.gather [OF assms(1)])
  show "sc_submitted s' = sc_submitted s"
    by (rule sub.gather [OF assms(1)])
  obtain s1 where s1: "run_ticks (ki_now ki) s = Some s1" "process_inbox pg s1 = Some s'"
    using assms(1) by (auto simp: gather_def split: option.splits)
  have "sq_inv (sc_inbox s1)"
    using outward.run_ticks [OF s1(1)] assms(2) by (simp add: outward_def outgoing_def)
  then show "sq_contents (sc_inbox s') = []"
    by (rule process_inbox_empties [OF s1(2)])
qed

lemma serve_busy_effects:
  assumes "serve pg ki s = Some (Inr s')" and "outgoing j s"
  shows "outgoing j s'" and "sc_fd s' = sc_fd s" and "prefix (sc_queued s) (sc_queued s')"
proof -
  show "outgoing j s'" "sc_fd s' = sc_fd s"
    using outward_outgoing [OF _ assms(2), of s'] outward.serve [OF assms(1)] by simp_all
  obtain q hs where "poll pg (ki_cqes ki) (fold (resume_one pg) hs (s\<lparr> sc_rq := q \<rparr>)) = Some s'"
    using assms(1) by (auto simp: serve_def Let_def split: prod.splits if_splits)
  from queued.trans [OF queued.resumes queued.poll [OF this]] show "prefix (sc_queued s) (sc_queued s')"
    by simp
qed

lemma serve_idle_effects:
  assumes "serve pg ki s = Some (Inl s')"
  shows "sc_id s' = sc_id s" "sc_fd s' = sc_fd s" "sc_inbox s' = sc_inbox s" "sc_outbox s' = sc_outbox s"
    "sc_queued s' = []" "sc_submitted s' = sc_submitted s @ sc_queued s"
  using assms by (auto simp: serve_def Let_def submit_queued_def split: prod.splits if_splits)

text \<open>What the rounds keep of the state between them.\<close>

definition round_keeps :: "('c, 'e, 'r) runtime \<Rightarrow> ('c, 'e, 'r) runtime \<Rightarrow> bool" where
  "round_keeps rt rt' \<longleftrightarrow> settled rt' \<and> length (rt_schedulers rt') = length (rt_schedulers rt) \<and>
     rt_running rt' = rt_running rt \<and>
     (\<forall>i < length (rt_schedulers rt). sc_fd (rt_schedulers rt' ! i) = sc_fd (rt_schedulers rt ! i))"

lemma others_settled:
  assumes "others_kept j cq rt rt'" and "settled rt" and "grows (s\<lparr> sc_outbox := [] \<rparr>) (rt_schedulers rt' ! j)"
    and "outgoing j s"
  shows "round_keeps rt rt'"
proof -
  have "sc_id (rt_schedulers rt' ! i) = i \<and> sq_inv (sc_inbox (rt_schedulers rt' ! i)) \<and> sc_outbox (rt_schedulers rt' ! i) = []"
    if "i < length (rt_schedulers rt)" for i
    using assms that by (cases "i = j") (simp_all add: others_kept_def settled_def grows_def outgoing_def)
  then show ?thesis
    using assms(1) by (simp add: round_keeps_def settled_def others_kept_def)
qed

lemma dispatch_out_settles:
  assumes "dispatch_out x j (with_scheduler j (\<lambda>_. s) rt) = Some rt'" and "settled rt" and "j < length (rt_schedulers rt)"
    and "outgoing j s" and "sc_fd s = sc_fd (rt_schedulers rt ! j)"
    and "prefix (sc_queued (rt_schedulers rt ! j)) (sc_queued s)"
  shows "round_keeps rt rt'" and "others_kept j cq rt rt'" and "sc_inbox (rt_schedulers rt' ! j) = sc_inbox s"
    and "sc_submitted (rt_schedulers rt' ! j) = sc_submitted s"
    and "prefix (sc_queued (rt_schedulers rt ! j)) (sc_queued (rt_schedulers rt' ! j))"
proof -
  note D = dispatch_out_effects [OF assms(1,3,4,5,6)]
  show "round_keeps rt rt'"
    by (rule others_settled [OF D(1) assms(2) D(2) assms(4)])
  show "others_kept j cq rt rt'" "sc_inbox (rt_schedulers rt' ! j) = sc_inbox s"
    by (rule D)+
  show "sc_submitted (rt_schedulers rt' ! j) = sc_submitted s"
    "prefix (sc_queued (rt_schedulers rt ! j)) (sc_queued (rt_schedulers rt' ! j))"
    using D(2) assms(6) by (auto simp: grows_def intro: prefix_order.trans)
qed

lemma round_keeps_trans: "round_keeps rt rt1 \<Longrightarrow> round_keeps rt1 rt2 \<Longrightarrow> round_keeps rt rt2"
  by (auto simp: round_keeps_def)

text \<open>A round that finds something ready, and the part of a round after the wait.\<close>

lemma worker_busy:
  assumes "worker_serve x pg ki j rt = Some (False, rt')" and "settled rt" and "j < length (rt_schedulers rt)"
  shows "round_keeps rt rt'" and "others_kept j cq rt rt'"
proof -
  obtain s1 rt1 s2 where s1: "gather pg ki (rt_schedulers rt ! j) = Some s1"
    and rt1: "dispatch_out x j (with_scheduler j (\<lambda>_. s1) rt) = Some rt1"
    and s2: "serve pg ki (rt_schedulers rt1 ! j) = Some (Inr s2)"
    and rt': "dispatch_out x j (with_scheduler j (\<lambda>_. s2) rt1) = Some rt'"
    using assms(1) by (auto simp: worker_serve_def split: option.splits sum.splits)
  note G = gather_effects [OF s1 settled_outgoing [OF assms(2,3)]]
  note D1 = dispatch_out_settles [OF rt1 assms(2,3) G(1,2,3)]
  have j: "j < length (rt_schedulers rt1)" "settled rt1"
    using D1(1) assms(3) by (simp_all add: round_keeps_def)
  note S = serve_busy_effects [OF s2 settled_outgoing [OF j(2,1)]]
  note D2 = dispatch_out_settles [OF rt' j(2,1) S(1,2,3)]
  show "round_keeps rt rt'" "others_kept j cq rt rt'"
    by (rule round_keeps_trans [OF D1(1) D2(1)], rule others_kept_trans [OF D1(2) D2(2)])
qed

lemma worker_woken:
  assumes "worker_wait x pg ki j rt = Some rt'" and "settled rt" and "j < length (rt_schedulers rt)"
  shows "round_keeps rt rt'" and "others_kept j cq rt rt'"
proof -
  obtain s1 where s1: "process_io_events pg ki (rt_schedulers rt ! j) = Some s1"
    and rt': "dispatch_out x j (with_scheduler j (\<lambda>_. s1) rt) = Some rt'"
    using assms(1) by (auto simp: worker_wait_def split: option.splits)
  have S: "outgoing j s1" "sc_fd s1 = sc_fd (rt_schedulers rt ! j)"
    using outward_outgoing [OF outward.io_events [OF s1] settled_outgoing [OF assms(2,3)]] by simp_all
  note D = dispatch_out_settles [OF rt' assms(2,3) S queued.io_events [OF s1]]
  show "round_keeps rt rt'" "others_kept j cq rt rt'"
    by (rule D)+
qed

lemma msgs_for_member: "sqe_new (MsgRing fd d) \<in> set es \<Longrightarrow> d \<in> set (msgs_for fd es)"
  by (induction es) (auto simp: sqe_new_def)

lemma rung_submitted:
  assumes "rung rt cq i" and "i < length (rt_schedulers rt)" and "j < length (rt_schedulers rt)"
    and "rt' = with_scheduler j (\<lambda>_. s) rt" and "sc_fd s = sc_fd (rt_schedulers rt ! j)"
  shows "rung rt' (deliver rt' (sc_queued (rt_schedulers rt ! j)) cq) i"
proof -
  have nth: "rt_schedulers rt' ! k = (if k = j then s else rt_schedulers rt ! k)" "length (rt_schedulers rt') = length (rt_schedulers rt)" for k
    using assms(3,4) by (simp_all add: with_scheduler_def nth_list_update)
  have msg: "message rt' i = message rt i" and fd: "sc_fd (rt_schedulers rt' ! i) = sc_fd (rt_schedulers rt ! i)"
    using assms(5) by (simp_all add: message_def nth)
  consider (posted) "TAG_INBOX \<in> set (cq i)" | (own) "message rt i \<in> set (sc_queued (rt_schedulers rt ! j))"
    | (other) k where "k < length (rt_schedulers rt)" "k \<noteq> j" "message rt i \<in> set (sc_queued (rt_schedulers rt ! k))"
    using assms(1) unfolding rung_def by blast
  then show ?thesis
  proof cases
    case own
    then have "TAG_INBOX \<in> set (msgs_for (sc_fd (rt_schedulers rt' ! i)) (sc_queued (rt_schedulers rt ! j)))"
      unfolding message_def fd by (rule msgs_for_member)
    then show ?thesis
      using assms(2) nth(2) by (simp add: rung_def deliver_def)
  next
    case (other k)
    then have "message rt' i \<in> set (sc_queued (rt_schedulers rt' ! k))" "k < length (rt_schedulers rt')"
      by (simp_all add: msg nth)
    then show ?thesis
      unfolding rung_def by blast
  qed (simp add: rung_def deliver_def)
qed

text \<open>A round that finds nothing ready: the inbox is empty, and what was queued is submitted and delivered.\<close>

lemma worker_idle:
  assumes "worker_serve x pg ki j rt = Some (True, rt')" and "settled rt" and "j < length (rt_schedulers rt)"
    and es: "es = drop (length (sc_submitted (rt_schedulers rt ! j))) (sc_submitted (rt_schedulers rt' ! j))"
  shows "round_keeps rt rt'" and "sq_contents (sc_inbox (rt_schedulers rt' ! j)) = []"
    and "sc_queued (rt_schedulers rt' ! j) = []"
    and "i \<noteq> j \<Longrightarrow> i < length (rt_schedulers rt) \<Longrightarrow> sc_queued (rt_schedulers rt' ! i) = sc_queued (rt_schedulers rt ! i)"
    and "i \<noteq> j \<Longrightarrow> i < length (rt_schedulers rt) \<Longrightarrow> 0 \<le> sc_fd (rt_schedulers rt ! i) \<Longrightarrow> belled rt cq i
      \<Longrightarrow> belled rt' (deliver rt' es cq) i"
proof -
  obtain s1 rt1 s2 where s1: "gather pg ki (rt_schedulers rt ! j) = Some s1"
    and rt1: "dispatch_out x j (with_scheduler j (\<lambda>_. s1) rt) = Some rt1"
    and s2: "serve pg ki (rt_schedulers rt1 ! j) = Some (Inl s2)"
    and rt': "rt' = with_scheduler j (\<lambda>_. s2) rt1"
    using assms(1) by (auto simp: worker_serve_def split: option.splits sum.splits)
  note G = gather_effects [OF s1 settled_outgoing [OF assms(2,3)]]
  note D = dispatch_out_settles [OF rt1 assms(2,3) G(1,2,3)]
  note S = serve_idle_effects [OF s2]
  have j: "j < length (rt_schedulers rt1)" "settled rt1" "length (rt_schedulers rt1) = length (rt_schedulers rt)"
    using D(1) assms(3) by (simp_all add: round_keeps_def)
  have nth: "rt_schedulers rt' ! k = (if k = j then s2 else rt_schedulers rt1 ! k)" "length (rt_schedulers rt') = length (rt_schedulers rt1)" for k
    using j(1) by (simp_all add: rt' with_scheduler_def nth_list_update)
  have "settled rt'"
    using j(2) S(1-4) j(1) unfolding settled_def by (auto simp: nth)
  moreover have "rt_running rt' = rt_running rt1"
    by (simp add: rt' with_scheduler_def)
  ultimately show "round_keeps rt rt'"
    using D(1) S(2) j(1) by (auto simp: round_keeps_def nth)
  show "sq_contents (sc_inbox (rt_schedulers rt' ! j)) = []"
    using D(3) G(5) S(3) by (simp add: nth)
  show "sc_queued (rt_schedulers rt' ! j) = []"
    by (simp add: nth S(5))
  show "sc_queued (rt_schedulers rt' ! i) = sc_queued (rt_schedulers rt ! i)" if "i \<noteq> j" "i < length (rt_schedulers rt)"
    using D(2) that by (simp add: nth others_kept_def)
  have queued: "es = sc_queued (rt_schedulers rt1 ! j)"
    using es S(6) D(4) G(4) by (simp add: nth)
  show "belled rt' (deliver rt' es cq) i" if i: "i \<noteq> j" "i < length (rt_schedulers rt)" "0 \<le> sc_fd (rt_schedulers rt ! i)" "belled rt cq i"
  proof -
    have "belled rt1 cq i"
      using D(2) [of cq] assms(2) i by (simp add: others_kept_def settled_def)
    moreover have "rung rt' (deliver rt' es cq) i" if "rung rt1 cq i"
      unfolding queued using that rung_submitted [OF _ _ j(1) rt' S(2)] i(2) j(3) by simp
    moreover have "sc_inbox (rt_schedulers rt' ! i) = sc_inbox (rt_schedulers rt1 ! i)"
      using i(1) by (simp add: nth)
    ultimately show ?thesis
      by (simp add: belled_def)
  qed
qed

section \<open>Dispatches from outside\<close>

lemma outside_effects:
  assumes "ext_law x" and "xu_pending x r = []" and "outside_dispatch x r core t p = Some p1" and "settled (pr_rt p)"
  shows "round_keeps (pr_rt p) (pr_rt p1)"
    and "pr_at p1 = pr_at p" "pr_stop p1 = pr_stop p" "pr_refused p1 = pr_refused p"
    and "set (pr_cq p i) \<subseteq> set (pr_cq p1 i)"
    and "sc_queued (sched p1 i) = sc_queued (sched p i)"
    and "i < length (rt_schedulers (pr_rt p)) \<Longrightarrow> 0 \<le> sc_fd (sched p i) \<Longrightarrow> belled (pr_rt p) (pr_cq p) i
      \<Longrightarrow> belled (pr_rt p1) (pr_cq p1) i"
    and "core < length (rt_schedulers (pr_rt p)) \<Longrightarrow> 0 \<le> sc_fd (sched p core) \<Longrightarrow> fst (push_inbox t (sched p core))
      \<Longrightarrow> TAG_INBOX \<in> set (pr_cq p1 core)"
proof -
  let ?rt0 = "(pr_rt p)\<lparr> rt_ext := r \<rparr>" and ?ss = "rt_schedulers (pr_rt p)"
  obtain r1 where d: "dispatch_on x None core t ?rt0 = Some (?rt0\<lparr> rt_schedulers := dispatched core t ?ss, rt_ext := r1 \<rparr>)"
    using dispatch_external [OF assms(1), of core t ?rt0] by auto
  let ?rt1 = "?rt0\<lparr> rt_schedulers := dispatched core t ?ss, rt_ext := r1 \<rparr>"
  let ?es = "drop (length (xu_sent x r)) (xu_sent x r1)"
  have p1: "p1 = p\<lparr> pr_rt := ?rt1, pr_cq := deliver ?rt1 ?es (pr_cq p) \<rparr>"
    using assms(3) d by (simp add: outside_dispatch_def)
  have "grows (?ss ! k) (dispatched core t ?ss ! k)" if "k < length ?ss" for k
    using that grows_push by (auto simp: dispatched_def nth_list_update)
  then have g: "rt_grows (pr_rt p) ?rt1"
    by (simp add: rt_grows_def list_all2_conv_all_nth dispatched_def)
  have "settled ?rt1"
    using assms(4) rt_grows_nth [OF g] rt_growsD [OF g] by (simp add: settled_def grows_def)
  then show "round_keeps (pr_rt p) (pr_rt p1)"
    using rt_grows_nth [OF g] rt_growsD [OF g] by (simp add: round_keeps_def p1 grows_def)
  show "pr_at p1 = pr_at p" "pr_stop p1 = pr_stop p" "pr_refused p1 = pr_refused p"
    by (simp_all add: p1)
  show "sc_queued (sched p1 i) = sc_queued (sched p i)"
    by (simp add: p1 sched_def dispatched_def push_inbox_def split_beta nth_list_update)
  show more: "set (pr_cq p i) \<subseteq> set (pr_cq p1 i)" for i
    by (simp add: p1 deliver_def)
  show sent: "TAG_INBOX \<in> set (pr_cq p1 core)"
    if core: "core < length ?ss" "0 \<le> sc_fd (sched p core)" "fst (push_inbox t (sched p core))"
  proof -
    have inv: "sq_inv (sc_inbox (?ss ! core))"
      using assms(4) core(1) by (simp add: settled_def)
    have room: "0 < sq_room (sc_inbox (?ss ! core))"
      using core(3) spsc_push_full [OF inv, of t] by (rule_tac ccontr) (simp add: push_inbox_def sched_def split_beta)
    have "xu_sent x r1 = xu_sent x r @ [sqe_new (MsgRing (sc_fd (?ss ! core)) TAG_INBOX)]"
      using dispatch_notifies [OF assms(1), of core ?rt0 "?ss ! core" "\<lparr> cqe_user_data = TAG_INBOX, cqe_res = 0, cqe_flags = 0 \<rparr>" t]
        core inv room d assms(2) by (auto simp: sched_def)
    then have "?es = [sqe_new (MsgRing (sc_fd (?ss ! core)) TAG_INBOX)]"
      by simp
    moreover have "sc_fd (dispatched core t ?ss ! core) = sc_fd (?ss ! core)" "length (dispatched core t ?ss) = length ?ss"
      using core(1) by (simp_all add: dispatched_def push_inbox_def split_beta)
    ultimately show ?thesis
      using core(1) by (simp add: p1 deliver_def sqe_new_def)
  qed
  show "belled (pr_rt p1) (pr_cq p1) i" if i: "i < length ?ss" "0 \<le> sc_fd (sched p i)" "belled (pr_rt p) (pr_cq p) i"
  proof (cases "i = core \<and> fst (push_inbox t (sched p core))")
    case True
    then show ?thesis
      using sent i(1,2) by (simp add: belled_def rung_def)
  next
    case False
    have "sq_inv (sc_inbox (?ss ! i))"
      using assms(4) i(1) by (simp add: settled_def)
    then have "sc_inbox (rt_schedulers ?rt1 ! i) = sc_inbox (?ss ! i)"
      using False push_contents [of "?ss ! i" t] i(1) by (cases "i = core") (auto simp: dispatched_def sched_def)
    moreover have "rung (pr_rt p1) (pr_cq p1) i" if "rung (pr_rt p) (pr_cq p) i"
      using rung_grows [OF g i(1) that, of "pr_cq p1"] more [of i] by (simp add: p1)
    ultimately show ?thesis
      using i(3) by (simp add: belled_def p1)
  qed
qed

section \<open>The invariant of the process\<close>

text \<open>A worker in its loop has its ring; a worker that waits has submitted everything and, with tasks in its inbox, has
  been sent a message or is going to be; a worker is out of its loop only when \<open>is_running_\<close> is off.\<close>

definition worker_ok :: "('c, 'e, 'r) runtime \<Rightarrow> (nat \<Rightarrow> u64 list) \<Rightarrow> worker \<Rightarrow> nat \<Rightarrow> bool" where
  "worker_ok rt cq w i \<longleftrightarrow> (w \<noteq> Starting \<longrightarrow> 0 \<le> sc_fd (rt_schedulers rt ! i)) \<and> (w = In_Wait \<longrightarrow> belled rt cq i) \<and>
     (w = In_Wait \<or> w = Starting \<longrightarrow> sc_queued (rt_schedulers rt ! i) = []) \<and> (w = Exited \<longrightarrow> \<not> rt_running rt)"

definition process_ok :: "('c, 'e, 'r) process \<Rightarrow> bool" where
  "process_ok p \<longleftrightarrow> settled (pr_rt p) \<and> length (rt_schedulers (pr_rt p)) = length (pr_at p) \<and>
     (\<forall>i < length (pr_at p). worker_ok (pr_rt p) (pr_cq p) (pr_at p ! i) i)"

lemma process_okD:
  assumes "process_ok p"
  shows "settled (pr_rt p)" and "length (rt_schedulers (pr_rt p)) = length (pr_at p)"
    and "i < length (pr_at p) \<Longrightarrow> worker_ok (pr_rt p) (pr_cq p) (pr_at p ! i) i"
  using assms by (simp_all add: process_ok_def)

lemma process_ok_new:
  assumes "rt_schedulers rt0 = []" and "rt_workers rt0 = []" and "start ns e n rt0 = Inr rt"
  shows "process_ok (process_start rt)"
proof -
  obtain ss where ss: "rt = rt0\<lparr> rt_running := True, rt_schedulers := ss, rt_workers := [0..<n] \<rparr>" "length ss = n"
    and new: "\<forall>k<n. scheduler_new k (- 1) (ns k) e (2 ^ 16) (2 ^ 16) = Inr (ss ! k)"
    using start_ok [of ns e n rt0] assms by auto
  have "sc_id (ss ! i) = i \<and> sq_inv (sc_inbox (ss ! i)) \<and> sc_outbox (ss ! i) = [] \<and> sc_queued (ss ! i) = []" if "i < n" for i
  proof -
    have s: "scheduler_new i (- 1) (ns i) e (2 ^ 16) (2 ^ 16) = Inr (ss ! i)"
      using new that by blast
    then have "sc_outbox (ss ! i) = [] \<and> sc_queued (ss ! i) = []"
      by (auto simp: scheduler_new_def split: sum.splits
          dest: arg_cong [where f = sc_outbox] arg_cong [where f = sc_queued])
    then show ?thesis
      using scheduler_new_inv(3,8) [OF s] by simp
  qed
  then show ?thesis
    using ss by (simp add: process_ok_def process_start_def settled_def worker_ok_def)
qed

lemma process_ok_worker:
  assumes "process_ok p" and "round_keeps (pr_rt p) rt" and "worker_ok rt cq w j"
    and "\<And>i. i \<noteq> j \<Longrightarrow> i < length (pr_at p) \<Longrightarrow> worker_ok (pr_rt p) (pr_cq p) (pr_at p ! i) i \<Longrightarrow> worker_ok rt cq (pr_at p ! i) i"
  shows "process_ok (p\<lparr> pr_rt := rt, pr_at := (pr_at p)[j := w], pr_cq := cq \<rparr>)"
proof -
  have "worker_ok rt cq ((pr_at p)[j := w] ! i) i" if "i < length (pr_at p)" for i
    using assms(1,3) assms(4) [of i] that by (cases "i = j") (simp_all add: process_ok_def)
  then show ?thesis
    using assms(1,2) by (simp add: process_ok_def round_keeps_def)
qed

text \<open>The workers that do not move.\<close>

lemma worker_ok_others:
  assumes "others_kept j cq rt rt'" and "settled rt" and "i \<noteq> j" and "i < length (rt_schedulers rt)" and "worker_ok rt cq w i"
  shows "worker_ok rt' cq w i"
  using assms by (cases w) (auto simp: worker_ok_def others_kept_def settled_def)

lemma worker_ok_reaped: "worker_ok rt (cq(j := c)) w i = worker_ok rt cq w i" if "i \<noteq> j"
  using that by (simp add: worker_ok_def belled_def rung_def)

lemma process_ok_moves:
  assumes ok: "process_ok p" and "round_keeps (pr_rt p) rt" and "others_kept j (pr_cq p) (pr_rt p) rt"
    and j: "j < length (pr_at p)" "pr_at p ! j \<noteq> Starting"
    and cq: "cq = pr_cq p \<or> cq = (pr_cq p)(j := c)"
  shows "process_ok (p\<lparr> pr_rt := rt, pr_at := (pr_at p)[j := At_Top], pr_cq := cq \<rparr>)"
proof (rule process_ok_worker [OF ok assms(2)])
  have "0 \<le> sc_fd (rt_schedulers rt ! j)"
    using process_okD(2,3) [OF ok] j assms(2) by (simp add: worker_ok_def round_keeps_def)
  then show "worker_ok rt cq At_Top j"
    by (simp add: worker_ok_def)
  fix i
  assume i: "i \<noteq> j" "i < length (pr_at p)" "worker_ok (pr_rt p) (pr_cq p) (pr_at p ! i) i"
  have "worker_ok rt (pr_cq p) (pr_at p ! i) i"
    by (rule worker_ok_others [OF assms(3)]) (use process_okD(1,2) [OF ok] i in auto)
  then show "worker_ok rt cq (pr_at p ! i) i"
    using cq worker_ok_reaped [OF i(1)] by auto
qed

lemma process_ok_idle:
  assumes ok: "process_ok p" and run: "worker_serve x pg ki j (pr_rt p) = Some (True, rt)"
    and j: "j < length (pr_at p)" "pr_at p ! j \<noteq> Starting"
    and es: "es = drop (length (sc_submitted (sched p j))) (sc_submitted (rt_schedulers rt ! j))"
  shows "process_ok (p\<lparr> pr_rt := rt, pr_at := (pr_at p)[j := In_Wait], pr_cq := deliver rt es (pr_cq p) \<rparr>)"
proof -
  have len: "length (rt_schedulers (pr_rt p)) = length (pr_at p)" and set: "settled (pr_rt p)"
    by (rule process_okD [OF ok])+
  note I = worker_idle [OF run set _ es [unfolded sched_def]]
  have R: "round_keeps (pr_rt p) rt" "sq_contents (sc_inbox (rt_schedulers rt ! j)) = []" "sc_queued (rt_schedulers rt ! j) = []"
    using I(1-3) j(1) len by simp_all
  show ?thesis
  proof (rule process_ok_worker [OF ok R(1)])
    have "0 \<le> sc_fd (rt_schedulers rt ! j)"
      using process_okD(3) [OF ok] j R(1) len by (simp add: worker_ok_def round_keeps_def)
    then show "worker_ok rt (deliver rt es (pr_cq p)) In_Wait j"
      using R(2,3) by (simp add: worker_ok_def belled_def)
    fix i
    assume i: "i \<noteq> j" "i < length (pr_at p)" "worker_ok (pr_rt p) (pr_cq p) (pr_at p ! i) i"
    then show "worker_ok rt (deliver rt es (pr_cq p)) (pr_at p ! i) i"
      using I(4,5) [of i] R(1) j(1) len by (cases "pr_at p ! i") (auto simp: worker_ok_def round_keeps_def)
  qed
qed

lemma process_ok_outside:
  assumes ok: "process_ok p" and "ext_law x" and "xu_pending x r = []" and "outside_dispatch x r core t p = Some p1"
  shows "process_ok p1"
proof -
  have len: "length (rt_schedulers (pr_rt p)) = length (pr_at p)" and set: "settled (pr_rt p)"
    by (rule process_okD [OF ok])+
  note O = outside_effects [OF assms(2-4) set]
  have "worker_ok (pr_rt p1) (pr_cq p1) (pr_at p ! i) i" if i: "i < length (pr_at p)" for i
    using process_okD(3) [OF ok i] O(1) O(6,7) [of i] i len
    by (cases "pr_at p ! i") (auto simp: worker_ok_def round_keeps_def sched_def)
  then show ?thesis
    using O(1,2) len by (simp add: process_ok_def round_keeps_def)
qed

lemma process_ok_enter:
  assumes ok: "process_ok p" and j: "j < length (pr_at p)" "pr_at p ! j = Starting" and "0 \<le> fd"
  shows "process_ok (p\<lparr> pr_rt := run_enter j fd now (pr_rt p), pr_at := (pr_at p)[j := At_Top] \<rparr>)"
proof -
  let ?rt = "run_enter j fd now (pr_rt p)"
  have len: "length (rt_schedulers (pr_rt p)) = length (pr_at p)"
    by (rule process_okD(2) [OF ok])
  have nth: "rt_schedulers ?rt ! i = (if i = j then (sched p j)\<lparr> sc_fd := fd, sc_last_tick := now \<rparr> else sched p i)"
    "length (rt_schedulers ?rt) = length (pr_at p)" "rt_running ?rt = rt_running (pr_rt p)" for i
    using j(1) len by (simp_all add: run_enter_def worker_init_def with_scheduler_def sched_def)
  have "settled ?rt"
    using process_okD(1) [OF ok] len by (simp add: settled_def nth sched_def)
  moreover have "belled ?rt (pr_cq p) i = belled (pr_rt p) (pr_cq p) i" if "i \<noteq> j" for i
  proof -
    have msg: "message ?rt i = message (pr_rt p) i" and queued: "sc_queued (rt_schedulers ?rt ! k) = sc_queued (sched p k)" for k
      using that by (simp_all add: message_def nth sched_def)
    have "rung ?rt (pr_cq p) i = rung (pr_rt p) (pr_cq p) i"
      unfolding rung_def msg queued nth(2) len by (simp add: sched_def)
    then show ?thesis
      using that by (simp add: belled_def nth sched_def)
  qed
  moreover have "worker_ok ?rt (pr_cq p) At_Top j"
    using assms(4) by (simp add: worker_ok_def nth)
  ultimately have "worker_ok ?rt (pr_cq p) ((pr_at p)[j := At_Top] ! i) i" if "i < length (pr_at p)" for i
    using process_okD(3) [OF ok that] that nth
    by (cases "i = j") (auto simp: worker_ok_def sched_def)
  then show ?thesis
    using \<open>settled ?rt\<close> nth by (simp add: process_ok_def)
qed

lemma process_ok_step:
  assumes "process_step x pg nop p p1" and law: "ext_law x" and ok: "process_ok p"
  shows "process_ok p1"
  using assms(1)
proof cases
  case (enter i fd now)
  then show ?thesis
    using process_ok_enter [OF ok] by simp
next
  case (check i)
  let ?w = "if rt_running (pr_rt p) then In_Round else Exited"
  have "worker_ok (pr_rt p) (pr_cq p) ?w i"
    using process_okD(3) [OF ok check(2)] check(3) by (simp add: worker_ok_def)
  then have "process_ok (p\<lparr> pr_rt := pr_rt p, pr_at := (pr_at p)[i := ?w], pr_cq := pr_cq p \<rparr>)"
    using process_okD(1) [OF ok] by (intro process_ok_worker [OF ok]) (auto simp: round_keeps_def)
  then show ?thesis
    using check by simp
next
  case (busy i ki rt)
  then have "i < length (rt_schedulers (pr_rt p))"
    using process_okD(2) [OF ok] by simp
  from worker_busy [OF busy(4) process_okD(1) [OF ok] this] show ?thesis
    unfolding busy(1) by (intro process_ok_moves [OF ok]) (use busy in auto)
next
  case (idle i ki rt)
  then show ?thesis
    using process_ok_idle [OF ok idle(4)] by simp
next
  case (polled i ki rt)
  then have "i < length (rt_schedulers (pr_rt p))"
    using process_okD(2) [OF ok] by simp
  from worker_woken [OF polled(5) process_okD(1) [OF ok] this] show ?thesis
    unfolding polled(1) by (intro process_ok_moves [OF ok]) (use polled in auto)
next
  case (interrupted i ki rt)
  then have "i < length (rt_schedulers (pr_rt p))"
    using process_okD(2) [OF ok] by simp
  from worker_woken [OF interrupted(5) process_okD(1) [OF ok] this]
  have "process_ok (p\<lparr> pr_rt := rt, pr_at := (pr_at p)[i := At_Top], pr_cq := pr_cq p \<rparr>)"
    by (intro process_ok_moves [OF ok]) (use interrupted in auto)
  then show ?thesis
    using interrupted by simp
next
  case (outside r core t)
  then show ?thesis
    using process_ok_outside [OF ok law] by simp
next
  case (stop_wake k r p2)
  have "process_ok p2"
    using process_ok_outside [OF ok law] stop_wake by simp
  then show ?thesis
    using stop_wake by (simp add: process_ok_def)
next
  case stop_flag
  have "belled ((pr_rt p)\<lparr> rt_running := False \<rparr>) cq i = belled (pr_rt p) cq i" for cq i
    by (simp add: belled_def rung_def message_def)
  then show ?thesis
    using ok stop_flag by (simp add: process_ok_def worker_ok_def settled_def)
qed (use ok in \<open>auto simp: process_ok_def\<close>)

lemma started_ok: "started x pg nop p \<Longrightarrow> ext_law x \<Longrightarrow> process_ok p"
  by (induction rule: started.induct) (auto intro: process_ok_new process_ok_step)

section \<open>Stopping\<close>

lemma deliver_more: "set (cq i) \<subseteq> set (deliver rt es cq i)"
  by (simp add: deliver_def)

text \<open>The workers that \<open>stop\<close> has dispatched to.\<close>

definition woken_by_stop :: "stopping \<Rightarrow> nat \<Rightarrow> bool" where
  "woken_by_stop st i \<longleftrightarrow> (case st of Not_Stopping \<Rightarrow> False | Waking k \<Rightarrow> i < k | _ \<Rightarrow> True)"

definition stop_ok :: "('c, 'e, 'r) process \<Rightarrow> bool" where
  "stop_ok p \<longleftrightarrow> (rt_running (pr_rt p) \<longleftrightarrow> pr_stop p = Not_Stopping) \<and>
     (\<forall>i < length (pr_at p). \<not> pr_refused p \<and> woken_by_stop (pr_stop p) i \<and> (pr_at p ! i = In_Round \<or> pr_at p ! i = In_Wait)
        \<longrightarrow> TAG_INBOX \<in> set (pr_cq p i)) \<and>
     (case pr_stop p of Joining k \<Rightarrow> \<forall>i < k. i < length (pr_at p) \<longrightarrow> pr_at p ! i = Exited
      | Stopped \<Rightarrow> \<forall>i < length (pr_at p). pr_at p ! i = Exited | _ \<Rightarrow> True)"

text \<open>A worker's step keeps it: the worker ends up outside its round, or goes on to the wait with the message still there.\<close>

lemma stop_ok_worker:
  assumes "stop_ok p" and "rt_running rt = rt_running (pr_rt p)" and "j < length (pr_at p)" and "pr_at p ! j \<noteq> Exited"
    and "\<And>i. i \<noteq> j \<Longrightarrow> set (pr_cq p i) \<subseteq> set (cq i)"
    and "w = In_Round \<Longrightarrow> rt_running (pr_rt p)"
    and "w = In_Wait \<Longrightarrow> pr_at p ! j = In_Round \<and> set (pr_cq p j) \<subseteq> set (cq j)"
  shows "stop_ok (p\<lparr> pr_rt := rt, pr_at := (pr_at p)[j := w], pr_cq := cq \<rparr>)"
proof -
  let ?p = "p\<lparr> pr_rt := rt, pr_at := (pr_at p)[j := w], pr_cq := cq \<rparr>"
  have "TAG_INBOX \<in> set (cq i)"
    if i: "i < length (pr_at p)" "\<not> pr_refused p" "woken_by_stop (pr_stop p) i"
      "(pr_at p)[j := w] ! i = In_Round \<or> (pr_at p)[j := w] ! i = In_Wait" for i
  proof (cases "i = j")
    case False
    then show ?thesis
      using assms(1,5) i by (fastforce simp: stop_ok_def)
  next
    case True
    have "pr_stop p \<noteq> Not_Stopping"
      using i(3) by (auto simp: woken_by_stop_def)
    then have "w = In_Wait"
      using assms(1,6) True i(4) assms(3) by (auto simp: stop_ok_def)
    then show ?thesis
      using assms(1,3,7) i True by (auto simp: stop_ok_def)
  qed
  moreover have "(pr_at p)[j := w] ! i = Exited" if "pr_at p ! i = Exited" "i < length (pr_at p)" for i
    using that assms(4) by (cases "i = j") auto
  ultimately show ?thesis
    using assms(1,2) by (auto simp: stop_ok_def split: stopping.splits)
qed

lemma stop_ok_outside:
  assumes "stop_ok p" and "process_ok p" and "ext_law x" and "xu_pending x r = []" and "outside_dispatch x r core t p = Some p1"
  shows "stop_ok p1"
proof -
  note O = outside_effects [OF assms(3-5) process_okD(1) [OF assms(2)]]
  have "rt_running (pr_rt p1) = rt_running (pr_rt p)"
    using O(1) by (simp add: round_keeps_def)
  then show ?thesis
    using assms(1) O(5) unfolding stop_ok_def O(2-4) by blast
qed

lemma stop_ok_step:
  assumes "process_step x pg nop p p1" and law: "ext_law x" and ok: "process_ok p" and st: "stop_ok p"
  shows "stop_ok p1"
  using assms(1)
proof cases
  case (enter i fd now)
  have "rt_running (run_enter i fd now (pr_rt p)) = rt_running (pr_rt p)"
    by (simp add: run_enter_def worker_init_def with_scheduler_def)
  then have "stop_ok (p\<lparr> pr_rt := run_enter i fd now (pr_rt p), pr_at := (pr_at p)[i := At_Top], pr_cq := pr_cq p \<rparr>)"
    by (intro stop_ok_worker [OF st]) (use enter in auto)
  then show ?thesis
    using enter by simp
next
  case (check i)
  then have "stop_ok (p\<lparr> pr_rt := pr_rt p, pr_at := (pr_at p)[i := if rt_running (pr_rt p) then In_Round else Exited], pr_cq := pr_cq p \<rparr>)"
    by (intro stop_ok_worker [OF st]) (auto split: if_splits)
  then show ?thesis
    using check by simp
next
  case (busy i ki rt)
  then have "i < length (rt_schedulers (pr_rt p))"
    using process_okD(2) [OF ok] by simp
  from worker_busy(1) [OF busy(4) process_okD(1) [OF ok] this] show ?thesis
    unfolding busy(1) by (intro stop_ok_worker [OF st]) (use busy in \<open>auto simp: round_keeps_def\<close>)
next
  case (idle i ki rt)
  then have "i < length (rt_schedulers (pr_rt p))"
    using process_okD(2) [OF ok] by simp
  from worker_idle(1) [OF idle(4) process_okD(1) [OF ok] this refl] show ?thesis
    unfolding idle(1) by (intro stop_ok_worker [OF st]) (use idle in \<open>auto simp: round_keeps_def intro: subsetD [OF deliver_more]\<close>)
next
  case (polled i ki rt)
  then have "i < length (rt_schedulers (pr_rt p))"
    using process_okD(2) [OF ok] by simp
  from worker_woken(1) [OF polled(5) process_okD(1) [OF ok] this] show ?thesis
    unfolding polled(1) by (intro stop_ok_worker [OF st]) (use polled in \<open>auto simp: round_keeps_def\<close>)
next
  case (interrupted i ki rt)
  then have "i < length (rt_schedulers (pr_rt p))"
    using process_okD(2) [OF ok] by simp
  from worker_woken(1) [OF interrupted(5) process_okD(1) [OF ok] this]
  have "stop_ok (p\<lparr> pr_rt := rt, pr_at := (pr_at p)[i := At_Top], pr_cq := pr_cq p \<rparr>)"
    by (intro stop_ok_worker [OF st]) (use interrupted in \<open>auto simp: round_keeps_def\<close>)
  then show ?thesis
    using interrupted by simp
next
  case (outside r core t)
  then show ?thesis
    using stop_ok_outside [OF st ok law] by simp
next
  case (stop_wake k r p2)
  have p2: "stop_ok p2"
    using stop_ok_outside [OF st ok law] stop_wake by simp
  note O = outside_effects [OF law stop_wake(4,5) process_okD(1) [OF ok]]
  have len: "length (rt_schedulers (pr_rt p)) = length (pr_at p)"
    by (rule process_okD(2) [OF ok])
  have "TAG_INBOX \<in> set (pr_cq p2 k)"
    if "fst (push_inbox (Some nop) (sched p k))" "pr_at p ! k = In_Round \<or> pr_at p ! k = In_Wait"
  proof (rule O(8))
    show "0 \<le> sc_fd (sched p k)"
      using process_okD(3) [OF ok, of k] stop_wake(3) that(2) len by (auto simp: worker_ok_def sched_def)
  qed (use stop_wake(3) that(1) in auto)
  then show ?thesis
    using p2 stop_wake(2) O(2,3) unfolding stop_wake(1) by (auto simp: stop_ok_def woken_by_stop_def less_Suc_eq O(4))
next
  case (stop_join k)
  then show ?thesis
    using st by (auto simp: stop_ok_def woken_by_stop_def less_Suc_eq)
next
  case (stop_woken k)
  then show ?thesis
    using st process_okD(2) [OF ok] by (auto simp: stop_ok_def woken_by_stop_def)
qed (use st in \<open>auto simp: stop_ok_def woken_by_stop_def\<close>)

lemma started_stop_ok:
  assumes "started x pg nop p" and "ext_law x"
  shows "stop_ok p"
  using assms
proof (induction rule: started.induct)
  case (started_new rt0 ns e n rt)
  then show ?case
    by (auto simp: start_def stop_ok_def process_start_def woken_by_stop_def split: sum.splits)
next
  case (started_step p p1)
  show ?case
    by (rule stop_ok_step [OF started_step.hyps(2) assms(2)])
      (use started_ok [OF started_step.hyps(1)] started_step.IH assms(2) in auto)
qed

text \<open>What is left to do once \<open>stop\<close> has been called: steps of workers until they are out of their loops, and of the
  stopping thread.\<close>

fun worker_left :: "worker \<Rightarrow> nat" where
  "worker_left Starting = 2"
| "worker_left At_Top = 1"
| "worker_left In_Round = 3"
| "worker_left In_Wait = 2"
| "worker_left Exited = 0"

definition stop_left :: "('c, 'e, 'r) process \<Rightarrow> nat" where
  "stop_left p = sum_list (map worker_left (pr_at p)) +
     (let n = length (pr_at p) in
      case pr_stop p of Not_Stopping \<Rightarrow> 2 * n + 4 | Waking k \<Rightarrow> (n - k) + n + 3 | Joining k \<Rightarrow> (n - k) + 1 | Stopped \<Rightarrow> 0)"

lemma worker_left_update:
  assumes "j < length ws" and "worker_left w < worker_left (ws ! j)"
  shows "sum_list (map worker_left (ws[j := w])) < sum_list (map worker_left ws)"
proof -
  have "sum_list (map worker_left (ws[j := w])) + worker_left (ws ! j) = sum_list (map worker_left ws) + worker_left w"
    using assms(1) elem_le_sum_list [of j "map worker_left ws"] by (simp add: map_update sum_list_update)
  then show ?thesis
    using assms(2) by simp
qed

lemma stop_left_moves:
  assumes "j < length (pr_at p)" and "worker_left w < worker_left (pr_at p ! j)"
    and "pr_at p1 = (pr_at p)[j := w]" and "pr_stop p1 = pr_stop p"
  shows "stop_left p1 < stop_left p"
  using worker_left_update [OF assms(1,2)] assms(3,4) by (simp add: stop_left_def)

lemma stop_step_left:
  assumes "process_step x pg nop p p1" and law: "ext_law x" and ok: "process_ok p" and st: "stop_ok p"
    and off: "\<not> rt_running (pr_rt p)"
  shows "stop_left p1 < stop_left p \<or>
    (\<exists>r core t. outside_dispatch x r core t p = Some p1 \<and> stop_left p1 = stop_left p \<and> pr_at p1 = pr_at p)"
  using assms(1)
proof cases
  case (enter i fd now)
  then show ?thesis
    using worker_left_update [of i "pr_at p" At_Top] by (simp add: stop_left_def)
next
  case (check i)
  then show ?thesis
    using worker_left_update [of i "pr_at p" Exited] off by (simp add: stop_left_def)
next
  case (busy i ki rt)
  then show ?thesis
    using worker_left_update [of i "pr_at p" At_Top] by (simp add: stop_left_def)
next
  case (idle i ki rt)
  then show ?thesis
    using worker_left_update [of i "pr_at p" In_Wait] by (simp add: stop_left_def)
next
  case (polled i ki rt)
  then show ?thesis
    using worker_left_update [of i "pr_at p" At_Top] by (simp add: stop_left_def)
next
  case (interrupted i ki rt)
  then show ?thesis
    using worker_left_update [of i "pr_at p" At_Top] by (simp add: stop_left_def)
next
  case (outside r core t)
  note O = outside_effects [OF law outside process_okD(1) [OF ok]]
  then show ?thesis
    using outside(2) by (auto simp: stop_left_def)
next
  case stop_flag
  then show ?thesis
    using off st by (simp add: stop_ok_def)
next
  case (stop_wake k r p2)
  note O = outside_effects [OF law stop_wake(4,5) process_okD(1) [OF ok]]
  obtain d where "length (pr_at p) = Suc (k + d)"
    using stop_wake(3) process_okD(2) [OF ok] less_imp_Suc_add by metis
  then show ?thesis
    using stop_wake(2) O(2) by (simp add: stop_wake(1) stop_left_def Let_def)
qed (auto simp: stop_left_def Let_def)

text \<open>The kernel shows a worker the messages that have arrived.\<close>

definition arrived :: "u64 list \<Rightarrow> kernel_input" where
  "arrived ds = \<lparr> ki_now = 0, ki_idle_now = 0, ki_wait = (\<lambda>_. 0),
     ki_cqes = map (\<lambda>d. \<lparr> cqe_user_data = d, cqe_res = 0, cqe_flags = 0 \<rparr>) ds \<rparr>"

lemma arrived_seen: "subseq ds (map cqe_user_data (ki_cqes (arrived ds)))"
  by (simp add: arrived_def o_def)

text \<open>Worker \<open>i\<close> is in code that does not return, or waits with nothing in its ring.\<close>

definition stuck :: "'r ext_uring \<Rightarrow> ('c, 'e) program \<Rightarrow> ('c, 'e, 'r) process \<Rightarrow> nat \<Rightarrow> bool" where
  "stuck x pg p i \<longleftrightarrow> (let ki = arrived (pr_cq p i) in
     (pr_at p ! i = In_Round \<and> worker_serve x pg ki i (pr_rt p) = None) \<or>
     (pr_at p ! i = In_Wait \<and> worker_wait x pg ki i (pr_rt p) = None))"

definition asleep :: "('c, 'e, 'r) process \<Rightarrow> nat \<Rightarrow> bool" where
  "asleep p i \<longleftrightarrow> pr_at p ! i = In_Wait \<and> pr_cq p i = []"

lemma worker_moves:
  assumes i: "i < length (pr_at p)" and "pr_at p ! i \<noteq> Exited" and "\<not> stuck x pg p i" and "\<not> asleep p i" and "\<not> rt_running (pr_rt p)"
  shows "\<exists>p1. process_step x pg nop p p1 \<and> stop_left p1 < stop_left p"
proof (cases "pr_at p ! i")
  case Starting
  show ?thesis
    by (rule exI, rule conjI, rule process_step.enter [OF i Starting, of 0], simp)
      (rule stop_left_moves [OF i]; simp add: Starting)
next
  case At_Top
  show ?thesis
    by (rule exI, rule conjI, rule process_step.check [OF i At_Top])
      (rule stop_left_moves [OF i, where w = Exited]; simp add: At_Top assms(5))
next
  case In_Round
  obtain waits rt where run: "worker_serve x pg (arrived (pr_cq p i)) i (pr_rt p) = Some (waits, rt)"
    using assms(3) In_Round by (auto simp: stuck_def Let_def)
  show ?thesis
  proof (cases waits)
    case True
    then have "worker_serve x pg (arrived (pr_cq p i)) i (pr_rt p) = Some (True, rt)"
      using run by simp
    from process_step.idle [OF i In_Round this] show ?thesis
      by (intro exI conjI, assumption) (rule stop_left_moves [OF i, where w = In_Wait]; simp add: In_Round)
  next
    case False
    then have "worker_serve x pg (arrived (pr_cq p i)) i (pr_rt p) = Some (False, rt)"
      using run by simp
    from process_step.busy [OF i In_Round this arrived_seen] show ?thesis
      by (intro exI conjI, assumption) (rule stop_left_moves [OF i, where w = At_Top]; simp add: In_Round)
  qed
next
  case In_Wait
  obtain rt where run: "worker_wait x pg (arrived (pr_cq p i)) i (pr_rt p) = Some rt"
    using assms(3) In_Wait by (auto simp: stuck_def Let_def)
  have "wait_polls (arrived (pr_cq p i)) (sched p i)"
    by (simp add: wait_polls_def arrived_def)
  from process_step.polled [OF i In_Wait this run arrived_seen] show ?thesis
    by (intro exI conjI, assumption) (rule stop_left_moves [OF i, where w = At_Top]; simp add: In_Wait)
qed (use assms(2) in simp)

text \<open>The stopping thread moves, or waits for a worker.\<close>

lemma stopper_moves:
  assumes "ext_law x" and ok: "process_ok p" and st: "stop_ok p" and off: "\<not> rt_running (pr_rt p)" and "pr_stop p \<noteq> Stopped"
  shows "(\<exists>p1. process_step x pg nop p p1 \<and> stop_left p1 < stop_left p)
    \<or> (\<exists>k. pr_stop p = Joining k \<and> k < length (pr_at p) \<and> pr_at p ! k \<noteq> Exited)"
proof (cases "pr_stop p")
  case Not_Stopping
  then show ?thesis
    using off st by (simp add: stop_ok_def)
next
  case (Waking k)
  show ?thesis
  proof (cases "k < length (rt_schedulers (pr_rt p))")
    case True
    let ?r = "xu_submit x (rt_ext (pr_rt p))"
    have r: "xu_pending x ?r = []"
      by (rule ext_lawD(5) [OF assms(1)])
    obtain p1 where p1: "outside_dispatch x ?r k (Some nop) p = Some p1"
      using dispatch_external [OF assms(1), of k "Some nop" "(pr_rt p)\<lparr> rt_ext := ?r \<rparr>"] by (auto simp: outside_dispatch_def)
    obtain d where "length (pr_at p) = Suc (k + d)"
      using True process_okD(2) [OF ok] less_imp_Suc_add by metis
    then have "stop_left (p1\<lparr> pr_stop := Waking (Suc k), pr_refused := b \<rparr>) < stop_left p" for b
      using outside_effects(2) [OF assms(1) r p1 process_okD(1) [OF ok]] Waking by (simp add: stop_left_def Let_def)
    then show ?thesis
      using process_step.stop_wake [OF Waking True r p1, of pg] by blast
  next
    case False
    then show ?thesis
      using process_step.stop_woken [OF Waking, of x pg nop] process_okD(2) [OF ok] Waking by (fastforce simp: stop_left_def Let_def)
  qed
next
  case (Joining k)
  then show ?thesis
    using process_step.stop_join [OF Joining, of x pg nop] process_step.stop_joined [OF Joining, of x pg nop]
    by (fastforce simp: stop_left_def Let_def not_less)
qed (use assms(5) in simp)

section \<open>Properties\<close>


text \<open>
  C16: \<open>stop\<close> reaches every worker. Once \<open>stop\<close> has dispatched to all cores, with room in their inboxes, each
  worker that waits has a notification in its completion ring, even if it went to sleep after reading
  \<open>is_running_\<close> before \<open>stop\<close> cleared it; and \<open>stop\<close> returns only when all workers are out of their loops.
\<close>

theorem stop_wakes_workers:
  assumes "ext_law x" and "started x pg nop p" and "pr_stop p = Joining k \<or> pr_stop p = Stopped"
    and "i < length (pr_at p)"
  shows "(\<not> pr_refused p \<and> pr_at p ! i = In_Wait \<longrightarrow> TAG_INBOX \<in> set (pr_cq p i)) \<and>
    (pr_stop p = Stopped \<longrightarrow> pr_at p ! i = Exited)"
  using started_stop_ok [OF assms(2,1)] assms(3,4) by (auto simp: stop_ok_def woken_by_stop_def)

text \<open>
  C13: \<open>stop\<close> returns. From the moment it has cleared \<open>is_running_\<close>, every step of a worker or of the stopping thread makes
  a number smaller that is at most five per worker and four, and dispatches from outside do not make
  it larger. Until \<open>stop\<close> has returned there is such a step, and the worker it joins does not sleep with
  nothing in its ring, provided the inboxes had room for the tasks of \<open>stop\<close> and the worker is not in
  code that does not return.
\<close>

theorem stop_returns:
  assumes "ext_law x" and "started x pg nop p" and "\<not> rt_running (pr_rt p)"
  shows "(process_step x pg nop p p1 \<longrightarrow> stop_left p1 < stop_left p \<or>
      (\<exists>r core t. outside_dispatch x r core t p = Some p1 \<and> stop_left p1 = stop_left p \<and> pr_at p1 = pr_at p))
    \<and> (\<not> pr_refused p \<longrightarrow> pr_stop p = Stopped \<or> (\<exists>p2. process_step x pg nop p p2 \<and> stop_left p2 < stop_left p)
       \<or> (\<exists>k. pr_stop p = Joining k \<and> k < length (pr_at p) \<and> stuck x pg p k))
    \<and> (\<forall>k < length (pr_at p). \<not> pr_refused p \<and> pr_stop p = Joining k \<longrightarrow> \<not> asleep p k)
    \<and> stop_left p \<le> 5 * length (pr_at p) + 4"
proof -
  note ok = started_ok [OF assms(2,1)] and st = started_stop_ok [OF assms(2,1)]
  have "sum_list (map worker_left ws) \<le> 3 * length ws" for ws
  proof (induction ws)
    case (Cons w ws)
    then show ?case
      by (cases w) simp_all
  qed simp
  from this [of "pr_at p"] have "stop_left p \<le> 5 * length (pr_at p) + 4"
    by (cases "pr_stop p") (simp_all add: stop_left_def Let_def)
  moreover have awake: "\<not> asleep p k" if "k < length (pr_at p)" "\<not> pr_refused p" "pr_stop p = Joining k" for k
    using st that by (auto simp: stop_ok_def asleep_def woken_by_stop_def)
  moreover have "pr_stop p = Stopped \<or> (\<exists>p2. process_step x pg nop p p2 \<and> stop_left p2 < stop_left p)
      \<or> (\<exists>k. pr_stop p = Joining k \<and> k < length (pr_at p) \<and> stuck x pg p k)" if "\<not> pr_refused p"
    using stopper_moves [OF assms(1) ok st assms(3)] worker_moves [OF _ _ _ _ assms(3)] awake that by blast
  ultimately show ?thesis
    using stop_step_left [OF _ assms(1) ok st assms(3)] by blast
qed

text \<open>
  Called on a worker, \<open>stop\<close> sends nothing: its notifications wait in that worker's own submission queue, and
  the worker, which goes on to join the threads, its own among them, does not come back to submit them.
\<close>

lemma stop_on_worker_sends_nothing:
  assumes "stop x nop (Some i) rt = Some rt1" and "i < length (rt_schedulers rt)" and "k < length (rt_schedulers rt)"
  shows "rt_ext rt1 = rt_ext rt \<and> sc_submitted (rt_schedulers rt1 ! k) = sc_submitted (rt_schedulers rt ! k)"
proof -
  have "rt_grows rt' rt1 \<and> rt_ext rt1 = rt_ext rt'"
    if "dispatch_all x (Some i) ds rt' = Some rt1" "i < length (rt_schedulers rt')" for ds and rt' :: "('a, 'b, 'c) runtime"
    using that
  proof (induction ds arbitrary: rt')
    case (Cons d ds)
    obtain core t where d: "d = (core, t)"
      by (cases d)
    obtain rt2 where rt2: "dispatch_on x (Some i) core t rt' = Some rt2" "dispatch_all x (Some i) ds rt2 = Some rt1"
      using Cons.prems(1) d by (auto split: option.splits)
    note W = worker_dispatch(1) [OF rt2(1) Cons.prems(2)]
    have "rt_ext rt2 = rt_ext rt'"
      using rt2(1) by (auto simp: dispatch_on_def notify_target_ring_def with_scheduler_def split_beta Let_def split: if_splits)
    moreover have "rt_grows rt2 rt1 \<and> rt_ext rt1 = rt_ext rt2"
      by (rule Cons.IH [OF rt2(2)]) (use Cons.prems(2) rt_growsD [OF W] in simp)
    ultimately show ?case
      using rt_grows_trans [OF W] by simp
  qed simp
  from this [of _ "rt\<lparr> rt_running := False \<rparr>"] have "rt_grows (rt\<lparr> rt_running := False \<rparr>) rt1 \<and> rt_ext rt1 = rt_ext rt"
    using assms(1,2) by (simp add: stop_def)
  then show ?thesis
    using rt_grows_nth [of "rt\<lparr> rt_running := False \<rparr>" rt1 k] assms(3) by (simp add: grows_def)
qed

section \<open>A process with one worker\<close>

text \<open>A worker with nothing to do gets to its wait.\<close>

lemma idle_worker_waits:
  assumes "settled rt" and i: "i < length (rt_schedulers rt)" and s: "s = rt_schedulers rt ! i"
    and "ki_now ki \<le> sc_last_tick s" and "sq_contents (sc_inbox s) = []" and "rq_inv (sc_rq s)" and "ready (sc_rq s) = []"
  shows "\<exists>rt'. worker_serve x pg ki i rt = Some (True, rt') \<and> sc_inbox (rt_schedulers rt' ! i) = sc_inbox s"
proof -
  have set: "sq_inv (sc_inbox s)" "sc_outbox s = []"
    using assms(1) i s by (simp_all add: settled_def)
  have same: "s\<lparr> sc_outbox := [] \<rparr> = s" "s\<lparr> sc_inbox := sc_inbox s \<rparr> = s"
    using set(2) by (cases s; simp)+
  have "\<not> sc_last_tick s < ki_now ki"
    using assms(4) by (simp add: not_less)
  then have g: "gather pg ki s = Some s"
    using spsc_pop_empty_case [OF set(1) assms(5)] by (simp add: gather_def run_ticks_def process_inbox.simps [of pg s] same)
  have out: "dispatch_out x i (with_scheduler i (\<lambda>_. s) rt) = Some (with_scheduler i (\<lambda>_. s) rt)"
    using i set(2) by (simp add: dispatch_out_def with_scheduler_def same)
  have "fst (try_dequeue_batch BATCH_PIPELINE_DEPTH (sc_rq s)) = []"
    using batch_ready(1) [OF assms(6), of BATCH_PIPELINE_DEPTH] assms(7) by (simp add: BATCH_PIPELINE_DEPTH_def)
  then have "\<exists>q. serve pg ki s = Some (Inl (submit_queued (s\<lparr> sc_rq := q \<rparr>)))"
    by (auto simp: serve_def split_beta Let_def)
  then show ?thesis
    using g out i s by (auto simp: worker_serve_def with_scheduler_def submit_queued_def)
qed

lemma sleeping_process:
  "\<exists>p. started example_ext example_program 9 p \<and> length (pr_at p) = 1 \<and> pr_at p ! 0 = In_Wait \<and>
     pr_stop p = Not_Stopping \<and> \<not> pr_refused p \<and> 0 < sq_room (sc_inbox (sched p 0))"
proof -
  obtain rt where rt: "start (\<lambda>_. sample_nodes) [] 1 example_runtime = Inr rt"
    "length (rt_schedulers rt) = 1" "rt_workers rt = [0]" "rt_running rt"
    and new: "scheduler_new 0 (- 1) sample_nodes [] (2 ^ 16) (2 ^ 16) = Inr (rt_schedulers rt ! 0)"
    using start_ok [of "\<lambda>_. sample_nodes" "[]" 1 example_runtime] by (auto simp: example_runtime_def)
  let ?p0 = "process_start rt"
  have p0: "started example_ext example_program 9 ?p0"
    by (rule started_new [OF _ _ rt(1)]) (simp_all add: example_runtime_def)
  have at0: "pr_at ?p0 = [Starting]" "pr_stop ?p0 = Not_Stopping" "\<not> pr_refused ?p0" "pr_rt ?p0 = rt"
    using rt(3) by (simp_all add: process_start_def)
  let ?rt = "run_enter 0 3 0 rt"
  let ?p1 = "?p0\<lparr> pr_rt := ?rt, pr_at := (pr_at ?p0)[0 := At_Top] \<rparr>"
  let ?p2 = "?p1\<lparr> pr_at := (pr_at ?p1)[0 := if rt_running (pr_rt ?p1) then In_Round else Exited] \<rparr>"
  have p1: "started example_ext example_program 9 ?p1"
    using started_step [OF p0 process_step.enter [of 0 ?p0 3 example_ext example_program 9 0]] at0 by simp
  have p2: "started example_ext example_program 9 ?p2"
    by (rule started_step [OF p1 process_step.check]) (simp_all add: at0(1))
  have enter: "rt_running ?rt" "rt_schedulers ?rt ! 0 = (rt_schedulers rt ! 0)\<lparr> sc_fd := 3, sc_last_tick := 0 \<rparr>"
    using rt(2,4) by (simp_all add: run_enter_def worker_init_def with_scheduler_def)
  then have at2: "pr_at ?p2 = [In_Round]" "pr_rt ?p2 = ?rt"
    by (simp_all add: at0(1))
  have settled: "settled ?rt" and len: "length (rt_schedulers ?rt) = 1"
    using process_okD(1,2) [OF started_ok [OF p2 example_ext_law]] at2 at0(1) by simp_all
  note inv = scheduler_new_inv [OF new]
  obtain rt' where run: "worker_serve example_ext example_program quiet 0 ?rt = Some (True, rt')"
    "sc_inbox (rt_schedulers rt' ! 0) = sc_inbox (rt_schedulers rt ! 0)"
    using idle_worker_waits [OF settled, of 0 _ quiet example_ext example_program] len inv(1,2,4) enter(2)
    by (auto simp: quiet_def)
  let ?p3 = "?p2\<lparr> pr_rt := rt', pr_at := (pr_at ?p2)[0 := In_Wait],
      pr_cq := deliver rt' (drop (length (sc_submitted (sched ?p2 0))) (sc_submitted (rt_schedulers rt' ! 0))) (pr_cq ?p2) \<rparr>"
  have "started example_ext example_program 9 ?p3"
    by (rule started_step [OF p2 process_step.idle]) (use run at2 in simp_all)
  moreover have "pr_at ?p3 = [In_Wait]" "pr_stop ?p3 = Not_Stopping" "\<not> pr_refused ?p3"
    "sc_inbox (sched ?p3 0) = sc_inbox (rt_schedulers rt ! 0)"
    using at2 at0 run(2) by (simp_all add: sched_def)
  ultimately show ?thesis
    using inv(7) by (intro exI [of _ ?p3]) (simp del: process.simps)
qed

text \<open>The same process after a dispatch to its sleeping worker, or after the first two steps of \<open>stop\<close>.\<close>

lemma dispatched_process:
  assumes "started x pg nop p" and "ext_law x" and "0 < length (pr_at p)" and "0 < sq_room (sc_inbox (sched p 0))"
    and "xu_pending x r = []"
  shows "\<exists>p1. outside_dispatch x r 0 (Some c) p = Some p1 \<and> started x pg nop p1 \<and> pr_at p1 = pr_at p \<and>
    sq_contents (sc_inbox (sched p1 0)) = sq_contents (sc_inbox (sched p 0)) @ [Some c] \<and> fst (push_inbox (Some c) (sched p 0))"
proof -
  note ok = started_ok [OF assms(1,2)]
  have len: "0 < length (rt_schedulers (pr_rt p))" and inv: "sq_inv (sc_inbox (sched p 0))"
    using process_okD(1,2) [OF ok] assms(3) by (simp_all add: settled_def sched_def)
  obtain r1 where d: "dispatch_on x None 0 (Some c) ((pr_rt p)\<lparr> rt_ext := r \<rparr>) =
      Some ((pr_rt p)\<lparr> rt_ext := r1, rt_schedulers := dispatched 0 (Some c) (rt_schedulers (pr_rt p)) \<rparr>)"
    using dispatch_external [OF assms(2), of 0 "Some c" "(pr_rt p)\<lparr> rt_ext := r \<rparr>"] by (cases "pr_rt p") auto
  obtain p1 where p1: "outside_dispatch x r 0 (Some c) p = Some p1"
    "pr_rt p1 = (pr_rt p)\<lparr> rt_ext := r1, rt_schedulers := dispatched 0 (Some c) (rt_schedulers (pr_rt p)) \<rparr>"
    using d by (simp add: outside_dispatch_def)
  have "sq_contents (sc_inbox (sched p1 0)) = sq_contents (sc_inbox (sched p 0)) @ [Some c]"
    using push_inbox_accepts(2) [OF inv, of "Some c"] assms(4) len by (simp add: sched_def p1(2) dispatched_def)
  moreover have "fst (push_inbox (Some c) (sched p 0))"
    using push_accepted [OF inv assms(4), of "Some c"] by (simp add: push_inbox_def split_beta)
  moreover have "pr_at p1 = pr_at p"
    by (rule outside_effects(2) [OF assms(2,5) p1(1) process_okD(1) [OF ok]])
  ultimately show ?thesis
    using p1(1) started_step [OF assms(1) process_step.outside [OF assms(5) p1(1)]] by blast
qed


lemma stopping_process:
  "\<exists>p. started example_ext example_program 9 p \<and> pr_at p = [In_Wait] \<and> pr_stop p = Joining 0 \<and> \<not> pr_refused p"
proof -
  obtain p where p: "started example_ext example_program 9 p" "length (pr_at p) = 1" "pr_at p ! 0 = In_Wait"
    "pr_stop p = Not_Stopping" "\<not> pr_refused p" "0 < sq_room (sc_inbox (sched p 0))"
    using sleeping_process by blast
  let ?p1 = "p\<lparr> pr_rt := (pr_rt p)\<lparr> rt_running := False \<rparr>, pr_stop := Waking 0 \<rparr>"
  have p1: "started example_ext example_program 9 ?p1"
    by (rule started_step [OF p(1) process_step.stop_flag [OF p(4)]])
  have r: "xu_pending example_ext ([], [], 0) = []"
    by (simp add: example_ext_def)
  have "0 < length (pr_at ?p1)" "0 < sq_room (sc_inbox (sched ?p1 0))"
    using p(2,6) by (simp_all add: sched_def)
  then obtain p2 where p2: "outside_dispatch example_ext ([], [], 0) 0 (Some 9) ?p1 = Some p2" "pr_at p2 = pr_at p"
    "fst (push_inbox (Some 9) (sched ?p1 0))"
    using dispatched_process [OF p1 example_ext_law _ _ r, of 9] by auto
  note ok = started_ok [OF p1 example_ext_law]
  have stop1: "pr_stop ?p1 = Waking 0" "0 < length (rt_schedulers (pr_rt ?p1))"
    using process_okD(2) [OF ok] p(2) by simp_all
  let ?p3 = "p2\<lparr> pr_stop := Waking (Suc 0), pr_refused := (pr_refused ?p1 \<or> \<not> fst (push_inbox (Some 9) (sched ?p1 0))) \<rparr>"
  have p3: "started example_ext example_program 9 ?p3"
    by (rule started_step [OF p1 process_step.stop_wake [OF stop1 r p2(1)]])
  have stop3: "pr_stop ?p3 = Waking (Suc 0)" "length (rt_schedulers (pr_rt ?p3)) \<le> Suc 0"
    using process_okD(2) [OF started_ok [OF p3 example_ext_law]] p(2) p2(2) by simp_all
  have "started example_ext example_program 9 (?p3\<lparr> pr_stop := Joining 0 \<rparr>)"
    by (rule started_step [OF p3 process_step.stop_woken [OF stop3]])
  moreover have "pr_at p = [In_Wait]"
    using p(2,3) by (cases "pr_at p") auto
  ultimately show ?thesis
    using p(5) p2(2,3) by (intro exI [of _ "?p3\<lparr> pr_stop := Joining 0 \<rparr>"]) simp
qed

theorem stop_wakes_workers_witness:
  "\<exists>p. started example_ext example_program 9 p \<and> pr_stop p = Joining 0 \<and> pr_at p = [In_Wait] \<and> TAG_INBOX \<in> set (pr_cq p 0)"
proof -
  obtain p where p: "started example_ext example_program 9 p" "pr_at p = [In_Wait]" "pr_stop p = Joining 0" "\<not> pr_refused p"
    using stopping_process by blast
  then show ?thesis
    using stop_wakes_workers [OF example_ext_law p(1), of 0 0] by auto
qed

theorem stop_returns_witness:
  "\<exists>p. started example_ext example_program 9 p \<and> pr_stop p = Joining 0 \<and> pr_at p = [In_Wait] \<and> stop_left p \<le> 9 \<and> \<not> asleep p 0 \<and>
     ((\<exists>p2. process_step example_ext example_program 9 p p2 \<and> stop_left p2 < stop_left p) \<or> stuck example_ext example_program p 0)"
proof -
  obtain p where p: "started example_ext example_program 9 p" "pr_at p = [In_Wait]" "pr_stop p = Joining 0" "\<not> pr_refused p"
    using stopping_process by blast
  have "\<not> rt_running (pr_rt p)"
    using started_stop_ok [OF p(1) example_ext_law] p(3) by (simp add: stop_ok_def)
  from stop_returns [OF example_ext_law p(1) this, of p] show ?thesis
    using p by fastforce
qed

end
