(* ===== verification/Resumptions.thy ===== *)
theory Resumptions
  imports Scheduler_Props
begin

text \<open>
  What becomes of the coroutines a scheduler hands out. The history \<open>rq_taken\<close> of the run queue says which
  handles went into a batch; whether the loop of \<open>run\<close> then resumes them is seen by the code that
  runs. So the program is instrumented: it notes every piece of code that is run, with the user state it
  finds and the coroutine that is resumed, if one is.
\<close>

section \<open>The instrumented program\<close>

type_synonym 'e tracing = "('e \<times> handle option) list \<times> 'e"

definition note_run :: "handle option \<Rightarrow> ('e \<Rightarrow> 'c action list \<times> 'e) \<Rightarrow> 'e tracing \<Rightarrow> 'c action list \<times> 'e tracing" where
  "note_run r f = (\<lambda>(tr, e). let (acts, e1) = f e in (acts, (tr @ [(e, r)], e1)))"

definition traced :: "('c, 'e) program \<Rightarrow> ('c, 'e tracing) program" where
  "traced pg = \<lparr> pg_resume = (\<lambda>h. note_run (Some h) (pg_resume pg h)), pg_done = (\<lambda>h (tr, e). pg_done pg h e),
     pg_task = (\<lambda>c. note_run None (pg_task pg c)), pg_multi = (\<lambda>op r f. note_run None (pg_multi pg op r f)) \<rparr>"

text \<open>The coroutines resumed so far, in order, and the user states the run went through.\<close>

definition resumed :: "('c, 'e tracing) scheduler \<Rightarrow> handle list" where
  "resumed s = List.map_filter snd (fst (sc_env s))"

definition states :: "('c, 'e tracing) scheduler \<Rightarrow> 'e list" where
  "states s = map fst (fst (sc_env s)) @ [snd (sc_env s)]"

lemma note_run_sel [simp]:
  "fst (note_run r f te) = fst (f (snd te))" "snd (note_run r f te) = (fst te @ [(snd te, r)], snd (f (snd te)))"
  by (simp_all add: note_run_def split_beta Let_def)

lemma traced_sel [simp]:
  "pg_resume (traced pg) h = note_run (Some h) (pg_resume pg h)" "pg_done (traced pg) h te = pg_done pg h (snd te)"
  "pg_task (traced pg) c = note_run None (pg_task pg c)"
  "pg_multi (traced pg) op r f = note_run None (pg_multi pg op r f)"
  by (simp_all add: traced_def split_beta)

lemma actions_env [simp]: "sc_env (fold do_action acts s) = sc_env s"
proof (induction acts arbitrary: s)
  case (Cons act acts)
  have "sc_env (do_action act s) = sc_env s"
    by (cases act) (auto simp: do_action_def schedule_def push_inbox_def split_beta Let_def)
  then show ?case
    using Cons.IH by simp
qed simp

lemma run_code_env: "sc_env (run_code f s) = snd (f (sc_env s))"
  by (simp add: run_code_def split_beta)

lemma resumed_same: "sc_env s' = sc_env s \<Longrightarrow> resumed s' = resumed s" "sc_env s' = sc_env s \<Longrightarrow> states s' = states s"
  by (simp_all add: resumed_def states_def)

lemma resumed_noted:
  "sc_env s' = (fst (sc_env s) @ [(snd (sc_env s), r)], e) \<Longrightarrow> resumed s' = resumed s @ (case r of None \<Rightarrow> [] | Some h \<Rightarrow> [h])"
  "sc_env s' = (fst (sc_env s) @ [(snd (sc_env s), r)], e) \<Longrightarrow> states s' = states s @ [e]"
  by (auto simp: resumed_def states_def map_filter_def split: option.split)

section \<open>Between two batches nothing is resumed\<close>

definition resumes_nothing :: "('c, 'e tracing) scheduler \<Rightarrow> ('c, 'e tracing) scheduler \<Rightarrow> bool" where
  "resumes_nothing s s' \<longleftrightarrow> resumed s' = resumed s \<and> set (states s) \<subseteq> set (states s')"

lemma resumes_nothing_same: "sc_env s' = sc_env s \<Longrightarrow> resumes_nothing s s'"
  using resumed_same [of s' s] by (simp add: resumes_nothing_def)

lemma resumes_nothing_noted: "sc_env s' = (fst (sc_env s) @ [(snd (sc_env s), None)], e) \<Longrightarrow> resumes_nothing s s'"
  using resumed_noted [of s' s None e] by (auto simp: resumes_nothing_def)

interpretation quiet: quiet_relation "traced pg" resumes_nothing for pg :: "('c, 'e) program"
proof unfold_locales
  fix s s1 s2 :: "('c, 'e tracing) scheduler" and act t q op r f
  show "resumes_nothing s s1 \<Longrightarrow> resumes_nothing s1 s2 \<Longrightarrow> resumes_nothing s s2"
    by (auto simp: resumes_nothing_def)
  show "resumes_nothing s (do_action act s)"
    using actions_env [of "[act]" s] by (intro resumes_nothing_same) simp
  show "resumes_nothing s (s\<lparr> sc_env := snd (pg_multi (traced pg) op r f (sc_env s)) \<rparr>)"
    by (rule resumes_nothing_noted [where e = "snd (pg_multi pg op r f (snd (sc_env s)))"]) simp
  show "resumes_nothing s (s\<lparr> sc_inbox := q,
      sc_env := case the t of None \<Rightarrow> sc_env s | Some c \<Rightarrow> snd (pg_task (traced pg) c (sc_env s)) \<rparr>)"
  proof (cases "the t")
    case (Some c)
    then show ?thesis
      by (intro resumes_nothing_noted [where e = "snd (pg_task pg c (snd (sc_env s)))"]) simp
  qed (simp add: resumes_nothing_same)
qed (auto intro!: resumes_nothing_same simp: schedule_def)

section \<open>A batch\<close>

text \<open>Every coroutine of a batch is resumed, in order, unless it is found finished.\<close>

lemma resume_one_traced:
  assumes "h \<noteq> nullptr"
  shows "resumed (resume_one (traced pg) h s) = resumed s @ (if pg_done pg h (snd (sc_env s)) then [] else [h])"
    and "set (states s) \<subseteq> set (states (resume_one (traced pg) h s))"
proof -
  have run: "sc_env (run_code (pg_resume (traced pg) h) s) = (fst (sc_env s) @ [(snd (sc_env s), Some h)], snd (pg_resume pg h (snd (sc_env s))))"
    by (simp add: run_code_env)
  let ?r = "run_code (pg_resume (traced pg) h) s"
  have env: "sc_env (resume_one (traced pg) h s) = (if pg_done pg h (snd (sc_env s)) then sc_env s else sc_env ?r)"
    using assms by (simp add: resume_one_def Let_def)
  show "resumed (resume_one (traced pg) h s) = resumed s @ (if pg_done pg h (snd (sc_env s)) then [] else [h])"
    using env resumed_noted(1) [OF run] resumed_same(1) [of "resume_one (traced pg) h s" s]
      resumed_same(1) [of "resume_one (traced pg) h s" ?r] by (simp split: if_splits)
  show "set (states s) \<subseteq> set (states (resume_one (traced pg) h s))"
    using env resumed_noted(2) [OF run] resumed_same(2) [of "resume_one (traced pg) h s" s]
      resumed_same(2) [of "resume_one (traced pg) h s" ?r] by (simp split: if_splits) blast
qed

lemma batch_accounted:
  assumes "nullptr \<notin> set hs"
  shows "\<exists>new fin. resumed (fold (resume_one (traced pg)) hs s) = resumed s @ new \<and> mset hs = mset new + mset fin
    \<and> set (states s) \<subseteq> set (states (fold (resume_one (traced pg)) hs s))
    \<and> (\<forall>h \<in> set fin. \<exists>e \<in> set (states (fold (resume_one (traced pg)) hs s)). pg_done pg h e)"
  using assms
proof (induction hs arbitrary: s)
  case Nil
  show ?case
    by (intro exI [of _ "[]"]) simp
next
  case (Cons h hs)
  let ?s1 = "resume_one (traced pg) h s"
  let ?s2 = "fold (resume_one (traced pg)) hs ?s1"
  have h: "h \<noteq> nullptr"
    using Cons.prems by auto
  note one = resume_one_traced [OF h, where pg = pg and s = s]
  obtain new fin where IH: "resumed ?s2 = resumed ?s1 @ new" "mset hs = mset new + mset fin"
    "set (states ?s1) \<subseteq> set (states ?s2)" "\<forall>h \<in> set fin. \<exists>e \<in> set (states ?s2). pg_done pg h e"
    using Cons.IH [of ?s1] Cons.prems by auto
  have "snd (sc_env s) \<in> set (states s)"
    by (simp add: states_def)
  then have now: "snd (sc_env s) \<in> set (states ?s2)"
    using one(2) IH(3) by blast
  show ?case
  proof (cases "pg_done pg h (snd (sc_env s))")
    case True
    then show ?thesis
      using IH one now by (intro exI [of _ new] exI [of _ "h # fin"]) auto
  next
    case False
    then show ?thesis
      using IH one by (intro exI [of _ "h # new"] exI [of _ fin]) auto
  qed
qed

section \<open>A round\<close>

lemma round_accounted:
  assumes inv: "rq_inv (sc_rq s)" and run: "iteration (traced pg) ki s = Some s'" and ok: "\<not> rq_fault (sc_rq s')"
  shows "\<exists>batch new fin. rq_taken (sc_rq s') = rq_taken (sc_rq s) @ batch \<and> resumed s' = resumed s @ new
    \<and> mset batch = mset new + mset fin \<and> set (states s) \<subseteq> set (states s')
    \<and> (\<forall>h \<in> set fin. \<exists>e \<in> set (states s'). pg_done pg h e)"
  using run
proof (rule iteration_cases)
  fix s1 s2 batch q
  assume s1: "run_ticks (ki_now ki) s = Some s1" and s2: "process_inbox (traced pg) s1 = Some s2"
    and b: "try_dequeue_batch 16 (sc_rq s2) = (batch, q)"
    and final: "if batch = [] then process_io_events (traced pg) ki (submit_queued (s2\<lparr> sc_rq := q \<rparr>)) = Some s'
         else poll (traced pg) (ki_cqes ki) (fold (resume_one (traced pg)) batch (s2\<lparr> sc_rq := q \<rparr>)) = Some s'"
    and o1: "only_schedules s s2" and o2: "only_schedules (s2\<lparr> sc_rq := q \<rparr>) s'"
  obtain hs1 where hs1: "sc_rq s2 = fold rq_schedule hs1 (sc_rq s)"
    using o1 by (auto simp: only_schedules_def)
  obtain hs2 where hs2: "sc_rq s' = fold rq_schedule hs2 q"
    using o2 by (auto simp: only_schedules_def)
  have "\<not> rq_fault q"
    using ok hs2 rq_fault_fold by metis
  moreover have "rq_fault q = rq_fault (sc_rq s2)"
    using b by (auto simp: try_dequeue_batch_def split_beta Let_def)
  ultimately have "\<not> rq_fault (fold rq_schedule hs1 (sc_rq s))"
    using hs1 by simp
  note f1 = fold_schedule_ready [OF inv this, folded hs1]
  have inv2: "rq_inv (sc_rq s2)"
    using f1 by blast
  have "(0::nat) < 16"
    by simp
  note d = batch_ready [OF inv2 this, unfolded b, simplified]
  have "\<not> rq_fault (fold rq_schedule hs2 q)"
    using ok hs2 by simp
  note f2 = fold_schedule_ready [OF d(3) this, folded hs2]
  have taken: "rq_taken (sc_rq s') = rq_taken (sc_rq s) @ batch"
    using f1 f2 d(1,4) by simp
  have "nullptr \<notin> set (ready (sc_rq s2))"
    using rq_invD(2) [OF inv2] by (simp add: ready_def)
  then have null: "nullptr \<notin> set batch"
    unfolding d(1) by (meson in_set_takeD)
  let ?s3 = "s2\<lparr> sc_rq := q \<rparr>"
  let ?s4 = "fold (resume_one (traced pg)) batch ?s3"
  have "resumes_nothing s s1" "resumes_nothing s1 s2" "resumes_nothing s2 ?s3"
    using quiet.run_ticks [OF s1] quiet.process_inbox [OF s2] resumes_nothing_same [of ?s3 s2] by simp_all
  then have before: "resumed ?s3 = resumed s" "set (states s) \<subseteq> set (states ?s3)"
    by (auto simp: resumes_nothing_def)
  have "resumes_nothing ?s4 s'"
  proof (cases "batch = []")
    case True
    have "resumes_nothing ?s3 (submit_queued ?s3)"
      by (intro resumes_nothing_same) (simp add: submit_queued_def)
    moreover have "resumes_nothing (submit_queued ?s3) s'"
      using final True quiet.io_events by simp
    ultimately show ?thesis
      using True quiet.trans by auto
  qed (use final quiet.poll in auto)
  moreover obtain new fin where nf: "resumed ?s4 = resumed ?s3 @ new" "mset batch = mset new + mset fin"
    "set (states ?s3) \<subseteq> set (states ?s4)" "\<forall>h \<in> set fin. \<exists>e \<in> set (states ?s4). pg_done pg h e"
    using batch_accounted [OF null, where pg = pg and s = ?s3] by blast
  ultimately have "resumed s' = resumed s @ new" "set (states s) \<subseteq> set (states s')"
    "\<forall>h \<in> set fin. \<exists>e \<in> set (states s'). pg_done pg h e"
    using before unfolding resumes_nothing_def by (metis, blast, blast)
  then show ?thesis
    using taken nf(2) by blast
qed

lemma run_accounted:
  assumes "rq_inv (sc_rq s)" and "run_loop (traced pg) kis s = Some s'" and "\<not> rq_fault (sc_rq s')"
  shows "\<exists>taken new fin. rq_taken (sc_rq s') = rq_taken (sc_rq s) @ taken \<and> resumed s' = resumed s @ new
    \<and> mset taken = mset new + mset fin \<and> set (states s) \<subseteq> set (states s')
    \<and> (\<forall>h \<in> set fin. \<exists>e \<in> set (states s'). pg_done pg h e)"
  using assms
proof (induction kis arbitrary: s)
  case Nil
  then show ?case
    by (intro exI [of _ "[]"]) simp
next
  case (Cons ki kis)
  obtain s1 where s1: "iteration (traced pg) ki s = Some s1" "run_loop (traced pg) kis s1 = Some s'"
    using Cons.prems(2) by (auto split: option.splits)
  have ok1: "\<not> rq_fault (sc_rq s1)"
    using run_loop_fault_mono [OF s1(2)] Cons.prems(3) by blast
  obtain t1 n1 f1 where R: "rq_taken (sc_rq s1) = rq_taken (sc_rq s) @ t1" "resumed s1 = resumed s @ n1"
    "mset t1 = mset n1 + mset f1" "set (states s) \<subseteq> set (states s1)" "\<forall>h \<in> set f1. \<exists>e \<in> set (states s1). pg_done pg h e"
    using round_accounted [OF Cons.prems(1) s1(1) ok1] by blast
  obtain t2 n2 f2 where I: "rq_taken (sc_rq s') = rq_taken (sc_rq s1) @ t2" "resumed s' = resumed s1 @ n2"
    "mset t2 = mset n2 + mset f2" "set (states s1) \<subseteq> set (states s')" "\<forall>h \<in> set f2. \<exists>e \<in> set (states s'). pg_done pg h e"
    using Cons.IH [OF iteration_run_queue(1) [OF Cons.prems(1) s1(1) ok1] s1(2) Cons.prems(3)] by blast
  have "rq_taken (sc_rq s') = rq_taken (sc_rq s) @ t1 @ t2" "resumed s' = resumed s @ n1 @ n2"
    "mset (t1 @ t2) = mset (n1 @ n2) + mset (f1 @ f2)" "set (states s) \<subseteq> set (states s')"
    using R(1-4) I(1-4) by simp_all
  moreover have "\<forall>h \<in> set (f1 @ f2). \<exists>e \<in> set (states s'). pg_done pg h e"
    using R(5) I(4,5) unfolding set_append by blast
  ultimately show ?case
    by blast
qed

section \<open>Which coroutines are resumed\<close>

text \<open>A suspended coroutine: it is not at its end, and no code but its own brings it there.\<close>

definition suspended :: "('c, 'e) program \<Rightarrow> handle \<Rightarrow> 'e \<Rightarrow> bool" where
  "suspended pg h e \<longleftrightarrow> h \<noteq> nullptr \<and> \<not> pg_done pg h e
     \<and> (\<forall>e. \<not> pg_done pg h e \<longrightarrow> (\<forall>h1. h1 \<noteq> h \<longrightarrow> \<not> pg_done pg h (snd (pg_resume pg h1 e)))
          \<and> (\<forall>c. \<not> pg_done pg h (snd (pg_task pg c e))) \<and> (\<forall>op r f. \<not> pg_done pg h (snd (pg_multi pg op r f e))))"

text \<open>It stays suspended until it is resumed.\<close>

definition stays_suspended :: "('c, 'e) program \<Rightarrow> handle \<Rightarrow> ('c, 'e tracing) scheduler \<Rightarrow> ('c, 'e tracing) scheduler \<Rightarrow> bool" where
  "stays_suspended pg h s s' \<longleftrightarrow> (\<exists>new. resumed s' = resumed s @ new
     \<and> (suspended pg h (snd (sc_env s)) \<and> h \<notin> set new \<longrightarrow> suspended pg h (snd (sc_env s'))))"

lemma stays_suspended_same:
  assumes "sc_env s' = sc_env s"
  shows "stays_suspended pg h s s'"
  unfolding stays_suspended_def using resumed_same(1) [OF assms] assms by (intro exI [of _ "[]"]) simp

lemma stays_suspended_noted:
  assumes "sc_env s' = (fst (sc_env s) @ [(snd (sc_env s), r)], e)"
    and "suspended pg h (snd (sc_env s)) \<and> r \<noteq> Some h \<longrightarrow> suspended pg h e"
  shows "stays_suspended pg h s s'"
  unfolding stays_suspended_def using resumed_noted(1) [OF assms(1)] assms
  by (intro exI [of _ "case r of None \<Rightarrow> [] | Some h \<Rightarrow> [h]"]) (cases r; auto)

interpretation susp: round_relation "traced pg" "stays_suspended pg h" for pg :: "('c, 'e) program" and h
proof unfold_locales
  fix s s1 s2 :: "('c, 'e tracing) scheduler" and act t q op r f h1
  show "stays_suspended pg h s s2" if steps: "stays_suspended pg h s s1" "stays_suspended pg h s1 s2"
  proof -
    obtain n1 n2 where "resumed s1 = resumed s @ n1" "resumed s2 = resumed s1 @ n2"
      "suspended pg h (snd (sc_env s)) \<and> h \<notin> set n1 \<longrightarrow> suspended pg h (snd (sc_env s1))"
      "suspended pg h (snd (sc_env s1)) \<and> h \<notin> set n2 \<longrightarrow> suspended pg h (snd (sc_env s2))"
      using steps unfolding stays_suspended_def by blast
    then show ?thesis
      unfolding stays_suspended_def by (intro exI [of _ "n1 @ n2"]) simp
  qed
  show "stays_suspended pg h s (do_action act s)"
    using actions_env [of "[act]" s] by (intro stays_suspended_same) simp
  show "stays_suspended pg h s (s\<lparr> sc_env := snd (pg_multi (traced pg) op r f (sc_env s)) \<rparr>)"
    by (rule stays_suspended_noted [where r = None and e = "snd (pg_multi pg op r f (snd (sc_env s)))"])
      (auto simp: suspended_def)
  show "stays_suspended pg h s (s\<lparr> sc_env := snd (pg_resume (traced pg) h1 (sc_env s)) \<rparr>)"
    by (rule stays_suspended_noted [where r = "Some h1" and e = "snd (pg_resume pg h1 (snd (sc_env s)))"])
      (auto simp: suspended_def)
  show "stays_suspended pg h s (s\<lparr> sc_inbox := q,
      sc_env := case the t of None \<Rightarrow> sc_env s | Some c \<Rightarrow> snd (pg_task (traced pg) c (sc_env s)) \<rparr>)"
  proof (cases "the t")
    case (Some c)
    then show ?thesis
      by (intro stays_suspended_noted [where r = None and e = "snd (pg_task pg c (snd (sc_env s)))"])
        (auto simp: suspended_def)
  qed (simp add: stays_suspended_same)
qed (auto intro!: stays_suspended_same simp: schedule_def submit_queued_def)

lemma resumed_grows:
  assumes "stays_suspended pg h s s'"
  shows "\<exists>new. resumed s' = resumed s @ new" and "suspended pg h (snd (sc_env s)) \<Longrightarrow>
    h \<in> set (drop (length (resumed s)) (resumed s')) \<or> suspended pg h (snd (sc_env s'))"
  using assms by (auto simp: stays_suspended_def)

lemma resumed_later:
  assumes "stays_suspended pg h s s1" and "stays_suspended pg h s1 s2"
  shows "h \<in> set (drop (length (resumed s)) (resumed s1)) \<Longrightarrow> h \<in> set (drop (length (resumed s)) (resumed s2))"
    and "h \<in> set (drop (length (resumed s1)) (resumed s2)) \<Longrightarrow> h \<in> set (drop (length (resumed s)) (resumed s2))"
  using assms by (auto simp: stays_suspended_def)

lemma batch_resumes:
  assumes "h \<in> set hs" and "suspended pg h (snd (sc_env s))"
  shows "h \<in> set (drop (length (resumed s)) (resumed (fold (resume_one (traced pg)) hs s)))"
proof -
  obtain xs ys where hs: "hs = xs @ h # ys"
    using assms(1) split_list by metis
  let ?s1 = "fold (resume_one (traced pg)) xs s"
  let ?s2 = "resume_one (traced pg) h ?s1"
  have k1: "stays_suspended pg h s ?s1" and k2: "stays_suspended pg h ?s1 ?s2"
    and k3: "stays_suspended pg h ?s2 (fold (resume_one (traced pg)) ys ?s2)"
    using susp.resumes [where pg = pg and h = h and hs = "[h]" and s = ?s1] by (simp_all add: susp.resumes)
  have "h \<in> set (drop (length (resumed s)) (resumed ?s2))"
  proof (cases "h \<in> set (drop (length (resumed s)) (resumed ?s1))")
    case True
    then show ?thesis
      by (rule resumed_later(1) [OF k1 k2])
  next
    case False
    then have "suspended pg h (snd (sc_env ?s1))"
      using resumed_grows(2) [OF k1 assms(2)] by blast
    then have "resumed ?s2 = resumed ?s1 @ [h]"
      using resume_one_traced(1) [of h pg ?s1] by (simp add: suspended_def)
    then show ?thesis
      using resumed_later(2) [OF k1 k2] by simp
  qed
  then show ?thesis
    unfolding hs using resumed_later(1) [OF susp.trans [OF k1 k2] k3] by simp
qed

lemma round_resumes:
  assumes inv: "rq_inv (sc_rq s)" and run: "iteration (traced pg) ki s = Some s'" and ok: "\<not> rq_fault (sc_rq s')"
    and h: "h \<in> set (drop (length (rq_taken (sc_rq s))) (rq_taken (sc_rq s')))" and sus: "suspended pg h (snd (sc_env s))"
  shows "h \<in> set (drop (length (resumed s)) (resumed s'))"
  using run
proof (rule iteration_cases)
  fix s1 s2 batch q
  assume s1: "run_ticks (ki_now ki) s = Some s1" and s2: "process_inbox (traced pg) s1 = Some s2"
    and b: "try_dequeue_batch 16 (sc_rq s2) = (batch, q)"
    and final: "if batch = [] then process_io_events (traced pg) ki (submit_queued (s2\<lparr> sc_rq := q \<rparr>)) = Some s'
         else poll (traced pg) (ki_cqes ki) (fold (resume_one (traced pg)) batch (s2\<lparr> sc_rq := q \<rparr>)) = Some s'"
    and o1: "only_schedules s s2" and o2: "only_schedules (s2\<lparr> sc_rq := q \<rparr>) s'"
  obtain hs1 hs2 where hs: "sc_rq s2 = fold rq_schedule hs1 (sc_rq s)" "sc_rq s' = fold rq_schedule hs2 q"
    using o1 o2 by (auto simp: only_schedules_def)
  have "rq_taken q = rq_taken (sc_rq s2) @ batch"
    using b by (auto simp: try_dequeue_batch_def split_beta Let_def)
  moreover have "rq_taken (fold rq_schedule gs p) = rq_taken p" for gs p
    by (induction gs arbitrary: p) (simp_all add: rq_schedule_def)
  ultimately have "rq_taken (sc_rq s') = rq_taken (sc_rq s) @ batch"
    using hs by simp
  then have mem: "h \<in> set batch"
    using h by simp
  let ?s3 = "s2\<lparr> sc_rq := q \<rparr>"
  let ?s4 = "fold (resume_one (traced pg)) batch ?s3"
  have k1: "stays_suspended pg h s ?s3"
    by (rule susp.trans [OF susp.run_ticks [OF s1] susp.trans [OF susp.process_inbox [OF s2] susp.batch]])
  have k2: "stays_suspended pg h ?s3 ?s4"
    by (rule susp.resumes)
  have k3: "stays_suspended pg h ?s4 s'"
    using final mem susp.poll by (cases "batch = []") auto
  have same: "resumed ?s3 = resumed s"
    using quiet.trans [OF quiet.run_ticks [OF s1] quiet.process_inbox [OF s2]] resumed_same(1) [of ?s3 s2]
    by (simp add: resumes_nothing_def)
  then have "suspended pg h (snd (sc_env ?s3))"
    using resumed_grows(2) [OF k1 sus] by simp
  then have "h \<in> set (drop (length (resumed ?s3)) (resumed ?s4))"
    by (rule batch_resumes [OF mem])
  then show ?thesis
    using resumed_later(1) [OF k2 k3] same by simp
qed

text \<open>What is handed out is resumed.\<close>

lemma taken_resumed:
  assumes "rq_inv (sc_rq s)" and "run_loop (traced pg) kis s = Some s'" and "\<not> rq_fault (sc_rq s')"
    and "h \<in> set (drop (length (rq_taken (sc_rq s))) (rq_taken (sc_rq s')))" and "suspended pg h (snd (sc_env s))"
  shows "h \<in> set (drop (length (resumed s)) (resumed s'))"
  using assms
proof (induction kis arbitrary: s)
  case (Cons ki kis)
  obtain s1 where s1: "iteration (traced pg) ki s = Some s1" "run_loop (traced pg) kis s1 = Some s'"
    using Cons.prems(2) by (auto split: option.splits)
  have ok1: "\<not> rq_fault (sc_rq s1)"
    using run_loop_fault_mono [OF s1(2)] Cons.prems(3) by blast
  note inv1 = iteration_run_queue(1) [OF Cons.prems(1) s1(1) ok1]
  have k1: "stays_suspended pg h s s1" and k2: "stays_suspended pg h s1 s'"
    using susp.iteration [OF s1(1)] susp.run_loop [OF s1(2)] by blast+
  obtain b ts where t: "rq_taken (sc_rq s1) = rq_taken (sc_rq s) @ b" "rq_taken (sc_rq s') = rq_taken (sc_rq s1) @ ts"
    using iteration_run_queue(3) [OF Cons.prems(1) s1(1) ok1] run_loop_queue [OF inv1 s1(2) Cons.prems(3)] by blast
  show ?case
  proof (cases "h \<in> set b")
    case True
    then have "h \<in> set (drop (length (resumed s)) (resumed s1))"
      using t(1) by (intro round_resumes [OF Cons.prems(1) s1(1) ok1 _ Cons.prems(5)]) simp
    then show ?thesis
      by (rule resumed_later(1) [OF k1 k2])
  next
    case False
    show ?thesis
    proof (cases "h \<in> set (drop (length (resumed s)) (resumed s1))")
      case True
      then show ?thesis
        by (rule resumed_later(1) [OF k1 k2])
    next
      case unseen: False
      then have "suspended pg h (snd (sc_env s1))"
        using resumed_grows(2) [OF k1 Cons.prems(5)] by blast
      moreover have "h \<in> set (drop (length (rq_taken (sc_rq s1))) (rq_taken (sc_rq s')))"
        using Cons.prems(4) t False by simp
      ultimately show ?thesis
        using Cons.IH [OF inv1 s1(2) Cons.prems(3)] resumed_later(2) [OF k1 k2] by blast
    qed
  qed
qed simp

section \<open>The instrumentation changes nothing\<close>

definition untraced :: "('c, 'e tracing) scheduler \<Rightarrow> ('c, 'e) scheduler" where
  "untraced s = \<lparr> sc_id = sc_id s, sc_fd = sc_fd s, sc_rq = sc_rq s, sc_inbox = sc_inbox s, sc_wheel = sc_wheel s,
     sc_last_tick = sc_last_tick s, sc_contexts = sc_contexts s, sc_queued = sc_queued s, sc_submitted = sc_submitted s,
     sc_metrics = sc_metrics s, sc_outbox = sc_outbox s, sc_env = snd (sc_env s) \<rparr>"

lemma untraced_sel [simp]:
  "sc_id (untraced s) = sc_id s" "sc_fd (untraced s) = sc_fd s" "sc_rq (untraced s) = sc_rq s" "sc_inbox (untraced s) = sc_inbox s"
  "sc_wheel (untraced s) = sc_wheel s" "sc_last_tick (untraced s) = sc_last_tick s" "sc_contexts (untraced s) = sc_contexts s"
  "sc_queued (untraced s) = sc_queued s" "sc_submitted (untraced s) = sc_submitted s" "sc_metrics (untraced s) = sc_metrics s"
  "sc_outbox (untraced s) = sc_outbox s" "sc_env (untraced s) = snd (sc_env s)"
  by (simp_all add: untraced_def)

lemma untraced_upd [simp]:
  "(untraced s)\<lparr> sc_rq := q \<rparr> = untraced (s\<lparr> sc_rq := q \<rparr>)" "(untraced s)\<lparr> sc_inbox := i \<rparr> = untraced (s\<lparr> sc_inbox := i \<rparr>)"
  "(untraced s)\<lparr> sc_wheel := w \<rparr> = untraced (s\<lparr> sc_wheel := w \<rparr>)" "(untraced s)\<lparr> sc_last_tick := t \<rparr> = untraced (s\<lparr> sc_last_tick := t \<rparr>)"
  "(untraced s)\<lparr> sc_contexts := cs \<rparr> = untraced (s\<lparr> sc_contexts := cs \<rparr>)" "(untraced s)\<lparr> sc_queued := es \<rparr> = untraced (s\<lparr> sc_queued := es \<rparr>)"
  "(untraced s)\<lparr> sc_submitted := es \<rparr> = untraced (s\<lparr> sc_submitted := es \<rparr>)" "(untraced s)\<lparr> sc_metrics := m \<rparr> = untraced (s\<lparr> sc_metrics := m \<rparr>)"
  "(untraced s)\<lparr> sc_outbox := ds \<rparr> = untraced (s\<lparr> sc_outbox := ds \<rparr>)"
  by (simp_all add: untraced_def)

lemma untraced_env: "untraced (s\<lparr> sc_env := te \<rparr>) = (untraced s)\<lparr> sc_env := snd te \<rparr>"
  by (simp add: untraced_def)

lemma untraced_action: "do_action act (untraced s) = untraced (do_action act s)"
  by (cases act) (simp_all add: do_action_def schedule_def push_inbox_def split_beta Let_def)

lemma untraced_fold:
  "fold do_action acts (untraced s) = untraced (fold do_action acts s)" "fold schedule hs (untraced s) = untraced (fold schedule hs s)"
proof (induction acts arbitrary: s)
  case (Cons act acts)
  { case 1 show ?case using Cons(1) by (simp add: untraced_action) next case 2 show ?case by (rule Cons(2)) }
next
  case Nil
  { case 1 show ?case by simp next case 2 show ?case by (induction hs arbitrary: s) (simp_all add: schedule_def) }
qed

lemma untraced_code: "run_code f (untraced s) = untraced (run_code (note_run r f) s)"
  by (simp add: run_code_def split_beta Let_def untraced_env untraced_fold(1) [symmetric])

lemma untraced_tick_from: "tick_from n t (untraced s) = map_option untraced (tick_from n t s)"
  by (induction n arbitrary: t s) (simp_all add: untraced_fold split: option.split)

lemma untraced_run_ticks: "run_ticks now (untraced s) = map_option untraced (run_ticks now s)"
  by (simp add: run_ticks_def untraced_tick_from option.map_comp o_def cong: option.map_cong)

lemma untraced_process_inbox:
  assumes "process_inbox pg u = Some u'" and "u = untraced s"
  shows "\<exists>s'. process_inbox (traced pg) s = Some s' \<and> u' = untraced s'"
  using assms
proof (induction pg u u' arbitrary: s rule: process_inbox_induct)
  case (step rec pg u u')
  obtain popped t q where p: "spsc_pop (sc_inbox s) = ((popped, t), q)"
    by (metis surj_pair)
  show ?case
  proof (cases popped)
    case True
    let ?s1 = "s\<lparr> sc_inbox := q, sc_metrics := metrics_record_inbox_processed (sc_metrics s) \<rparr>"
    let ?s2 = "case the t of None \<Rightarrow> ?s1 | Some c \<Rightarrow> run_code (pg_task (traced pg) c) ?s1"
    have "rec pg (untraced ?s2) = Some u'"
      using step.hyps step.prems p True
      by (simp add: Let_def untraced_code [where r = None] split: option.splits)
    then obtain s' where "process_inbox (traced pg) ?s2 = Some s'" "u' = untraced s'"
      using step.IH by blast
    then show ?thesis
      using p True by (subst process_inbox.simps) (simp add: Let_def)
  next
    case False
    then show ?thesis
      using step.hyps step.prems p by (subst process_inbox.simps) auto
  qed
qed

lemma untraced_poll_one:
  assumes "poll_one pg c (untraced s) = Some u'"
  shows "\<exists>s'. poll_one (traced pg) c s = Some s' \<and> u' = untraced s'"
proof -
  let ?s = "s\<lparr> sc_metrics := metrics_record_io_event (sc_metrics s) \<rparr>"
  show ?thesis
  proof (cases "poll_dispatch c")
    case DrainInbox
    then show ?thesis
      using assms untraced_process_inbox [of pg "untraced ?s" u' ?s] by (simp add: poll_one_def Let_def)
  next
    case (InvokeMulti op res fl)
    then show ?thesis
      using assms by (simp add: poll_one_def Let_def untraced_code [where r = None])
  qed (use assms in \<open>simp_all add: poll_one_def Let_def split_beta untraced_fold schedule_def\<close>)
qed

lemma untraced_poll:
  "poll pg cs (untraced s) = Some u' \<Longrightarrow> \<exists>s'. poll (traced pg) cs s = Some s' \<and> u' = untraced s'"
proof (induction cs arbitrary: s)
  case (Cons c cs)
  then obtain u1 where u1: "poll_one pg c (untraced s) = Some u1" "poll pg cs u1 = Some u'"
    by (auto split: option.splits)
  then obtain s1 where "poll_one (traced pg) c s = Some s1" "u1 = untraced s1"
    using untraced_poll_one by blast
  then show ?case
    using Cons.IH [of s1] u1(2) by simp
qed simp

lemma untraced_io_events:
  "process_io_events pg ki (untraced s) = Some u' \<Longrightarrow> \<exists>s'. process_io_events (traced pg) ki s = Some s' \<and> u' = untraced s'"
  using untraced_poll [of pg "ki_cqes ki" s u'] by (auto simp: process_io_events_def Let_def split: if_splits)

lemma untraced_resumes: "fold (resume_one pg) hs (untraced s) = untraced (fold (resume_one (traced pg)) hs s)"
proof (induction hs arbitrary: s)
  case (Cons h hs)
  have "resume_one pg h (untraced s) = untraced (resume_one (traced pg) h s)"
    by (simp add: resume_one_def Let_def untraced_code [where r = "Some h"])
  then show ?case
    using Cons.IH by simp
qed simp

lemma untraced_iteration:
  assumes "iteration pg ki (untraced s) = Some u'"
  shows "\<exists>s'. iteration (traced pg) ki s = Some s' \<and> u' = untraced s'"
proof -
  obtain u1 u2 where u: "run_ticks (ki_now ki) (untraced s) = Some u1" "process_inbox pg u1 = Some u2"
    using assms by (auto simp: iteration_def split: option.splits)
  obtain s1 where s1: "run_ticks (ki_now ki) s = Some s1" "u1 = untraced s1"
    using u(1) by (auto simp: untraced_run_ticks)
  obtain s2 where s2: "process_inbox (traced pg) s1 = Some s2" "u2 = untraced s2"
    using untraced_process_inbox [OF u(2) s1(2)] by blast
  obtain batch q where b: "try_dequeue_batch BATCH_PIPELINE_DEPTH (sc_rq s2) = (batch, q)"
    by fastforce
  have "submit_queued (untraced (s2\<lparr> sc_rq := q \<rparr>)) = untraced (submit_queued (s2\<lparr> sc_rq := q \<rparr>))"
    by (simp add: submit_queued_def)
  then show ?thesis
    using assms u s1 s2 b untraced_io_events [of pg ki "submit_queued (s2\<lparr> sc_rq := q \<rparr>)" u']
      untraced_poll [of pg "ki_cqes ki" "fold (resume_one (traced pg)) batch (s2\<lparr> sc_rq := q \<rparr>)" u']
    by (cases "batch = []") (simp_all add: iteration_def untraced_resumes Let_def)
qed

text \<open>Every run of a program is the run of the instrumented one without its notes.\<close>

lemma untraced_run:
  "run_loop pg kis (untraced s) = Some u' \<Longrightarrow> \<exists>s'. run_loop (traced pg) kis s = Some s' \<and> u' = untraced s'"
proof (induction kis arbitrary: s)
  case (Cons ki kis)
  then obtain u1 where u1: "iteration pg ki (untraced s) = Some u1" "run_loop pg kis u1 = Some u'"
    by (auto split: option.splits)
  then obtain s1 where "iteration (traced pg) ki s = Some s1" "u1 = untraced s1"
    using untraced_iteration by blast
  then show ?case
    using Cons.IH [of s1] u1(2) by simp
qed simp

section \<open>Properties\<close>

text \<open>
  C7: over any number of iterations of the worker's loop, whatever the timers, completions, tasks
  and coroutines do, and as long as no call of \<open>schedule\<close> overran the local queue, every call is accounted for:
  the coroutines that were resumed, those still ready, and those passed over, each of which was at its end
  in a state the run went through, are together exactly the scheduled ones, each as often as it was scheduled.
\<close>

theorem run_conserves_coroutines:
  assumes "scheduler_new core fd ns ([], e) (2 ^ k) (2 ^ m) = Inr s0" and "k < 32" and "m < 64"
    and "run_loop (traced pg) kis s0 = Some s" and "\<not> rq_fault (sc_rq s)"
  shows "\<exists>ended. mset (rq_calls (sc_rq s)) = mset (resumed s) + mset (ready (sc_rq s)) + mset ended
    \<and> (\<forall>h \<in> set ended. \<exists>e \<in> set (states s). pg_done pg h e)"
proof -
  have new: "resumed s0 = []" "rq_taken (sc_rq s0) = []"
    using assms(1) by (auto simp: scheduler_new_def resumed_def map_filter_def split: sum.splits)
  obtain new ended where R: "resumed s = new" "mset (rq_taken (sc_rq s)) = mset new + mset ended"
    "\<forall>h \<in> set ended. \<exists>e \<in> set (states s). pg_done pg h e"
    using run_accounted [OF scheduler_new_inv(1) [OF assms(1-3)] assms(4,5)] new by auto
  have "mset (rq_calls (sc_rq s)) = mset (rq_taken (sc_rq s)) + mset (ready (sc_rq s))"
    using run_loop_queue [OF scheduler_new_inv(1) [OF assms(1-3)] assms(4,5)] by (blast dest: rq_invD(3))
  then show ?thesis
    using R by (intro exI [of _ ended]) (simp add: ac_simps)
qed

text \<open>
  C18: no ready coroutine starves: one at position \<open>i\<close> of the local queue is resumed within
  \<open>i div 15 + 1\<close> completed iterations, although each iteration may put one other coroutine ahead of
  it, as long as no call overruns the local queue. It has to be suspended: not at its end, and
  not brought there by code other than its own.
\<close>

theorem no_starvation:
  assumes "rq_inv (sc_rq s)" and "run_loop (traced pg) kis s = Some s'" and "\<not> rq_fault (sc_rq s')"
    and "i < length (lq_contents (rq_local (sc_rq s)))" and "length kis = i div 15 + 1"
    and "suspended pg (lq_contents (rq_local (sc_rq s)) ! i) (snd (sc_env s))"
  shows "lq_contents (rq_local (sc_rq s)) ! i \<in> set (drop (length (resumed s)) (resumed s'))"
proof -
  let ?h = "lq_contents (rq_local (sc_rq s)) ! i"
  have "waiting ?h i (sc_rq s)"
    using assms(4) by (auto simp: waiting_def)
  moreover have "i < 15 * length kis"
    using assms(5) by simp
  ultimately have "?h \<in> set (drop (length (rq_taken (sc_rq s))) (rq_taken (sc_rq s')))"
    using run_loop_queue [OF assms(1-3), of ?h i] by auto
  then show ?thesis
    by (rule taken_resumed [OF assms(1-3) _ assms(6)])
qed

section \<open>Concrete runs\<close>

definition watched :: "(nat, handle list tracing) scheduler" where
  "watched = \<lparr> sc_id = 0, sc_fd = 3, sc_rq = example_rq, sc_inbox = example_spsc,
     sc_wheel = wheel_init sample_nodes, sc_last_tick = 0,
     sc_contexts = \<lparr> io_ctx = (\<lambda>_. None), io_fault = False \<rparr>, sc_queued = [], sc_submitted = [],
     sc_metrics = metrics_zero, sc_outbox = [], sc_env = ([], []) \<rparr>"

lemma watched_new: "scheduler_new 0 3 sample_nodes ([], []) (2 ^ 1) (2 ^ 1) = Inr watched"
proof -
  have "spsc_new (2 ^ 1) = Inr example_spsc"
    by code_simp
  then show ?thesis
    using example_lq_new by (simp add: scheduler_new_def watched_def example_rq_def)
qed

lemma suspended_example: "h \<noteq> nullptr \<Longrightarrow> suspended example_program h e"
  by (simp add: suspended_def example_program_def)

text \<open>A completion schedules coroutine 32, which runs in the next round and is scheduled again.\<close>

lemma watched_run: "map_option summary (run_loop (traced example_program) [example_input, example_input] watched)
    = Some ([32, 32], [32], False, ([([], Some 32)], [32]))"
  by code_simp

theorem run_conserves_coroutines_witness:
  "\<exists>s. run_loop (traced example_program) [example_input, example_input] watched = Some s
     \<and> resumed s = [32] \<and> mset (ready (sc_rq s)) = {# 32 #}"
proof -
  obtain s where s: "run_loop (traced example_program) [example_input, example_input] watched = Some s"
    "summary s = ([32, 32], [32], False, ([([], Some 32)], [32]))"
    using watched_run by auto
  then have q: "\<not> rq_fault (sc_rq s)" "rq_calls (sc_rq s) = [32, 32]" and r: "resumed s = [32]"
    by (simp_all add: summary_def resumed_def map_filter_simps)
  obtain ended where e: "mset (rq_calls (sc_rq s)) = mset (resumed s) + mset (ready (sc_rq s)) + mset ended"
    "\<forall>h \<in> set ended. \<exists>e \<in> set (states s). pg_done example_program h e"
    using run_conserves_coroutines [OF watched_new _ _ s(1) q(1)] by auto
  have "ended = []"
    using e(2) by (simp add: example_program_def)
  then show ?thesis
    using e(1) q(2) r s(1) by simp
qed

theorem no_starvation_witness:
  "\<exists>s'. run_loop (traced example_program) [example_input] (watched\<lparr> sc_rq := fold rq_schedule [5, 6] example_rq \<rparr>) = Some s'
     \<and> 6 \<in> set (resumed s')"
proof -
  let ?s = "watched\<lparr> sc_rq := fold rq_schedule [5, 6] example_rq \<rparr>"
  have "map_option summary (run_loop (traced example_program) [example_input] ?s)
      = Some ([5, 6, 9, 32], [5, 6], False, ([([], Some 5), ([5], Some 6)], [5, 6]))"
    by code_simp
  then obtain s' where s': "run_loop (traced example_program) [example_input] ?s = Some s'" "\<not> rq_fault (sc_rq s')"
    by (auto simp: summary_def)
  have "rq_inv (sc_rq ?s)"
    using fold_schedule_ready [OF example_rq_inv(1) example_rq_run] by simp
  moreover have "lq_contents (rq_local (sc_rq ?s)) = [6]"
    by code_simp
  ultimately have "6 \<in> set (drop (length (resumed ?s)) (resumed s'))"
    using no_starvation [OF _ s', of 0] suspended_example [of 6] by simp
  then show ?thesis
    using s'(1) by (auto dest: in_set_dropD)
qed

end
