(* ===== verification/Timer_Service.thy ===== *)
theory Timer_Service
  imports Wheel_Props
begin

text \<open>
  What the rest of the program relies on when it uses the timer wheel: a service of alarms. The
  reference is a plain list of alarms; the contract is a locale, the wheel is shown to keep it, and
  every sequence of sleeps, cancellations and ticks is shown to behave as on the list.
\<close>

section \<open>The reference: a list of alarms\<close>

record alarm =
  al_node :: timer_ptr
  al_deadline :: u64
  al_handle :: handle

datatype timer_op =
    SleepOp u64 u64 handle timer_ptr    \<comment> \<open>the clock, the milliseconds, the coroutine, its node\<close>
  | CancelOp timer_ptr
  | TickOp u64

definition alarms_tick :: "u64 \<Rightarrow> alarm list \<Rightarrow> alarm list \<times> alarm list" where
  "alarms_tick now als = (filter (\<lambda>a. al_deadline a < now) als, filter (\<lambda>a. now \<le> al_deadline a) als)"

definition alarms_cancel :: "timer_ptr \<Rightarrow> alarm list \<Rightarrow> alarm list" where
  "alarms_cancel p als = filter (\<lambda>a. al_node a \<noteq> p) als"

definition alarms_sleep :: "u64 \<Rightarrow> u64 \<Rightarrow> handle \<Rightarrow> timer_ptr \<Rightarrow> alarm list \<Rightarrow> alarm list" where
  "alarms_sleep now ms h p als = \<lparr> al_node = p, al_deadline = now + ms, al_handle = h \<rparr> # als"

text \<open>Running operations: what each tick fires, and the alarms left.\<close>

fun alarm_ops :: "timer_op list \<Rightarrow> alarm list \<Rightarrow> alarm list list \<times> alarm list" where
  "alarm_ops [] als = ([], als)"
| "alarm_ops (SleepOp now ms h p # ops) als = alarm_ops ops (alarms_sleep now ms h p als)"
| "alarm_ops (CancelOp p # ops) als = alarm_ops ops (alarms_cancel p als)"
| "alarm_ops (TickOp now # ops) als =
     (let (fired, als1) = alarms_tick now als; (fs, als2) = alarm_ops ops als1 in (fired # fs, als2))"

text \<open>
  The use the contract allows: a sleeper's node is not null and not in use, the clock has not
  fallen behind the service and its sum with the milliseconds does not wrap; only a pending node
  is cancelled.
\<close>

fun proper_op :: "timer_op \<Rightarrow> u64 \<Rightarrow> alarm list \<Rightarrow> bool" where
  "proper_op (SleepOp now ms h p) t als \<longleftrightarrow>
     p \<noteq> nullptr \<and> p \<notin> al_node ` set als \<and> t \<le> now \<and> unat now + unat ms < 2 ^ 64"
| "proper_op (CancelOp p) t als \<longleftrightarrow> p \<in> al_node ` set als"
| "proper_op (TickOp now) t als \<longleftrightarrow> True"

fun proper_ops :: "timer_op list \<Rightarrow> u64 \<Rightarrow> alarm list \<Rightarrow> bool" where
  "proper_ops [] t als \<longleftrightarrow> True"
| "proper_ops (op # ops) t als \<longleftrightarrow> proper_op op t als
     \<and> proper_ops ops (case op of TickOp now \<Rightarrow> max t now | _ \<Rightarrow> t) (snd (alarm_ops [op] als))"

text \<open>The handles resumed for the fired alarms: in order of the deadlines.\<close>

definition fires_as :: "handle list \<Rightarrow> alarm list \<Rightarrow> bool" where
  "fires_as hs als \<longleftrightarrow> (\<exists>es. mset es = mset als \<and> sorted (map al_deadline es) \<and> hs = map al_handle es)"

lemma fires_as_mset: "fires_as hs als \<Longrightarrow> mset hs = image_mset al_handle (mset als)"
  by (metis fires_as_def mset_map)

lemma fires_as_length: "fires_as hs als \<Longrightarrow> length hs = length als"
  by (metis fires_as_mset mset_map mset_eq_length length_map)

lemma fires_as_set: "fires_as hs als \<Longrightarrow> set hs = al_handle ` set als"
  by (metis fires_as_mset set_image_mset set_mset_mset)

text \<open>No alarm is lost or fires twice, whatever the operations.\<close>

fun slept :: "timer_op list \<Rightarrow> alarm list" where
  "slept [] = []"
| "slept (SleepOp now ms h p # ops) = \<lparr> al_node = p, al_deadline = now + ms, al_handle = h \<rparr> # slept ops"
| "slept (CancelOp p # ops) = slept ops"
| "slept (TickOp now # ops) = slept ops"

fun cancelled :: "timer_op list \<Rightarrow> alarm list \<Rightarrow> alarm list" where
  "cancelled [] als = []"
| "cancelled (SleepOp now ms h p # ops) als = cancelled ops (alarms_sleep now ms h p als)"
| "cancelled (CancelOp p # ops) als = filter (\<lambda>a. al_node a = p) als @ cancelled ops (alarms_cancel p als)"
| "cancelled (TickOp now # ops) als = cancelled ops (snd (alarms_tick now als))"

lemma shift_part:
  fixes a :: "'x multiset"
  assumes "a + b + c = d + s" and "f + d = m"
  shows "a + b + (f + c) = m + s" and "f + a + b + c = m + s"
proof -
  have "f + (a + b + c) = m + s"
    using assms by (simp add: add.assoc)
  then show "a + b + (f + c) = m + s" "f + a + b + c = m + s"
    by (simp_all add: ac_simps)
qed

lemma alarms_conserved:
  "mset (concat (fst (alarm_ops ops als))) + mset (snd (alarm_ops ops als)) + mset (cancelled ops als)
     = mset als + mset (slept ops)"
proof (induction ops als rule: alarm_ops.induct)
  case (3 p ops als)
  have "mset (filter (\<lambda>a. al_node a = p) als) + mset (alarms_cancel p als) = mset als"
    by (simp add: alarms_cancel_def)
  from shift_part(1) [OF 3 this] show ?case
    by simp
next
  case (4 now ops als)
  have "mset (filter (\<lambda>a. al_deadline a < now) als) + mset (filter (\<lambda>a. now \<le> al_deadline a) als) = mset als"
    by (simp add: not_less [symmetric])
  from shift_part(2) [OF _ this] 4 [of "alarms_tick now als"] show ?case
    by (simp add: alarms_tick_def split_beta)
qed (simp_all add: alarms_sleep_def)

text \<open>Two ticks fire what the later one alone does, in the same order.\<close>

lemma alarms_tick_tick:
  assumes "t1 \<le> t2"
  shows "snd (alarms_tick t2 (snd (alarms_tick t1 als))) = snd (alarms_tick t2 als)"
    and "mset (fst (alarms_tick t1 als)) + mset (fst (alarms_tick t2 (snd (alarms_tick t1 als)))) = mset (fst (alarms_tick t2 als))"
proof -
  show "snd (alarms_tick t2 (snd (alarms_tick t1 als))) = snd (alarms_tick t2 als)"
    using assms by (auto simp: alarms_tick_def intro!: filter_cong)
  show "mset (fst (alarms_tick t1 als)) + mset (fst (alarms_tick t2 (snd (alarms_tick t1 als)))) = mset (fst (alarms_tick t2 als))"
    using assms by (intro multiset_eqI) (auto simp: alarms_tick_def)
qed

lemma fires_as_append:
  assumes "t1 \<le> t2" and "fires_as hs1 (fst (alarms_tick t1 als))"
    and "fires_as hs2 (fst (alarms_tick t2 (snd (alarms_tick t1 als))))"
  shows "fires_as (hs1 @ hs2) (fst (alarms_tick t2 als))"
proof -
  obtain es1 es2 where e: "mset es1 = mset (fst (alarms_tick t1 als))" "sorted (map al_deadline es1)" "hs1 = map al_handle es1"
    "mset es2 = mset (fst (alarms_tick t2 (snd (alarms_tick t1 als))))" "sorted (map al_deadline es2)" "hs2 = map al_handle es2"
    using assms(2,3) by (auto simp: fires_as_def)
  have "set es1 = set (fst (alarms_tick t1 als))" "set es2 = set (fst (alarms_tick t2 (snd (alarms_tick t1 als))))"
    using e(1,4) by (metis set_mset_mset)+
  then have "al_deadline a \<le> al_deadline b" if "a \<in> set es1" "b \<in> set es2" for a b
    using that by (auto simp: alarms_tick_def)
  then have "sorted (map al_deadline (es1 @ es2))"
    using e(2,5) by (auto simp: sorted_append)
  then show ?thesis
    unfolding fires_as_def using e(1,3,4,6) alarms_tick_tick(2) [OF assms(1), of als] by (intro exI [of _ "es1 @ es2"]) simp
qed

section \<open>The contract\<close>

locale timer_service =
  fixes rel :: "'w \<Rightarrow> u64 \<Rightarrow> alarm list \<Rightarrow> bool"
    and do_sleep :: "u64 \<Rightarrow> u64 \<Rightarrow> handle \<Rightarrow> timer_ptr \<Rightarrow> 'w \<Rightarrow> 'w"
    and do_cancel :: "timer_ptr \<Rightarrow> 'w \<Rightarrow> 'w"
    and do_tick :: "u64 \<Rightarrow> 'w \<Rightarrow> ('w \<times> handle list) option"
  assumes sleep_law: "rel w t als \<Longrightarrow> proper_op (SleepOp now ms h p) t als
      \<Longrightarrow> rel (do_sleep now ms h p w) t (alarms_sleep now ms h p als)"
    and cancel_law: "rel w t als \<Longrightarrow> proper_op (CancelOp p) t als \<Longrightarrow> rel (do_cancel p w) t (alarms_cancel p als)"
    and tick_law: "rel w t als \<Longrightarrow> \<exists>w' hs. do_tick now w = Some (w', hs)
      \<and> fires_as hs (fst (alarms_tick now als)) \<and> rel w' (max t now) (snd (alarms_tick now als))"

fun run_timer_ops :: "(u64 \<Rightarrow> u64 \<Rightarrow> handle \<Rightarrow> timer_ptr \<Rightarrow> 'w \<Rightarrow> 'w) \<Rightarrow> (timer_ptr \<Rightarrow> 'w \<Rightarrow> 'w)
    \<Rightarrow> (u64 \<Rightarrow> 'w \<Rightarrow> ('w \<times> handle list) option) \<Rightarrow> timer_op list \<Rightarrow> 'w \<Rightarrow> (handle list list \<times> 'w) option" where
  "run_timer_ops sl ca ti [] w = Some ([], w)"
| "run_timer_ops sl ca ti (SleepOp now ms h p # ops) w = run_timer_ops sl ca ti ops (sl now ms h p w)"
| "run_timer_ops sl ca ti (CancelOp p # ops) w = run_timer_ops sl ca ti ops (ca p w)"
| "run_timer_ops sl ca ti (TickOp now # ops) w =
     (case ti now w of None \<Rightarrow> None | Some (w1, hs) \<Rightarrow>
      case run_timer_ops sl ca ti ops w1 of None \<Rightarrow> None | Some (hss, w2) \<Rightarrow> Some (hs # hss, w2))"

context timer_service
begin

lemma run_refines:
  assumes "rel w t als" and "proper_ops ops t als"
  shows "\<exists>hss w' t'. run_timer_ops do_sleep do_cancel do_tick ops w = Some (hss, w')
    \<and> list_all2 fires_as hss (fst (alarm_ops ops als)) \<and> rel w' t' (snd (alarm_ops ops als))"
  using assms
proof (induction ops arbitrary: w t als)
  case Nil
  then show ?case
    by auto
next
  case (Cons op ops)
  show ?case
  proof (cases op)
    case (SleepOp now ms h p)
    then show ?thesis
      using Cons.IH [OF sleep_law [OF Cons.prems(1)]] Cons.prems(2) by simp
  next
    case (CancelOp p)
    then show ?thesis
      using Cons.IH [OF cancel_law [OF Cons.prems(1)]] Cons.prems(2) by simp
  next
    case (TickOp now)
    obtain w1 hs where t: "do_tick now w = Some (w1, hs)" "fires_as hs (fst (alarms_tick now als))"
      "rel w1 (max t now) (snd (alarms_tick now als))"
      using tick_law [OF Cons.prems(1)] by blast
    have "proper_ops ops (max t now) (snd (alarms_tick now als))"
      using Cons.prems(2) TickOp by (simp add: split_beta)
    from Cons.IH [OF t(3) this] show ?thesis
      using t(1,2) TickOp by (auto simp: split_beta)
  qed
qed

text \<open>After a tick beyond every deadline nothing is left, and every alarm that was not cancelled has
  resumed its coroutine exactly once.\<close>

lemma all_woken:
  assumes "rel w t als" and "proper_ops (ops @ [TickOp now]) t als"
    and "\<forall>a \<in> set (snd (alarm_ops ops als)). al_deadline a < now"
  shows "\<exists>hss w'. run_timer_ops do_sleep do_cancel do_tick (ops @ [TickOp now]) w = Some (hss, w')
    \<and> mset (concat hss) + image_mset al_handle (mset (cancelled ops als))
        = image_mset al_handle (mset als + mset (slept ops))"
proof -
  have split: "alarm_ops (xs @ ys) as = (fst (alarm_ops xs as) @ fst (alarm_ops ys (snd (alarm_ops xs as))),
      snd (alarm_ops ys (snd (alarm_ops xs as))))" for xs ys as
  proof (induction xs arbitrary: as)
    case (Cons x xs)
    then show ?case
      by (cases x) (simp_all add: split_beta)
  qed simp
  obtain hss w' where r: "run_timer_ops do_sleep do_cancel do_tick (ops @ [TickOp now]) w = Some (hss, w')"
    "list_all2 fires_as hss (fst (alarm_ops (ops @ [TickOp now]) als))"
    using run_refines [OF assms(1,2)] by blast
  have sum: "mset (concat hss) = image_mset al_handle (mset (concat fs))" if "list_all2 fires_as hss fs" for fs hss
    using that by (induction rule: list_all2_induct) (simp_all add: fires_as_mset)
  have "fst (alarm_ops (ops @ [TickOp now]) als) = fst (alarm_ops ops als) @ [snd (alarm_ops ops als)]"
    using assms(3) by (simp add: split alarms_tick_def)
  then have "mset (concat hss) + image_mset al_handle (mset (cancelled ops als)) = image_mset al_handle
      (mset (concat (fst (alarm_ops ops als))) + mset (snd (alarm_ops ops als)) + mset (cancelled ops als))"
    using sum [OF r(2)] by simp
  then show ?thesis
    using r(1) unfolding alarms_conserved by blast
qed

end

section \<open>The wheel keeps it\<close>

definition alarm_of :: "time_wheel \<Rightarrow> timer_ptr \<Rightarrow> alarm" where
  "alarm_of w p = \<lparr> al_node = p, al_deadline = expires_at (nodes w p), al_handle = t_handle (nodes w p) \<rparr>"

lemma al_node_alarm_of [simp]: "al_node (alarm_of w p) = p" and al_deadline_alarm_of [simp]: "al_deadline (alarm_of w p) = expires_at (nodes w p)"
  by (simp_all add: alarm_of_def)

definition wheel_rel :: "time_wheel \<Rightarrow> u64 \<Rightarrow> alarm list \<Rightarrow> bool" where
  "wheel_rel w t als \<longleftrightarrow> t = current_tick w \<and>
     (\<exists>L. wheel_valid w L \<and> distinct (map al_node als) \<and> set als = alarm_of w ` pending L)"

lemma wheel_rel_nodes: "set als = alarm_of w ` P \<Longrightarrow> al_node ` set als = P"
  by (force simp: alarm_of_def image_iff)

lemma wheel_rel_init: "wheel_rel (wheel_init ns) 0 []"
  by (auto simp: wheel_rel_def wheel_init_active intro!: exI [of _ "\<lambda>_. []"] wheel_valid_init)

lemma wheel_rel_sleep:
  assumes "wheel_rel w t als" and "proper_op (SleepOp now ms h p) t als"
  shows "wheel_rel (sleep_await_suspend True now ms h p w) t (alarms_sleep now ms h p als)"
proof -
  obtain L where L: "wheel_valid w L" "distinct (map al_node als)" "set als = alarm_of w ` pending L" "t = current_tick w"
    using assms(1) by (auto simp: wheel_rel_def)
  have p: "p \<noteq> nullptr" "p \<notin> pending L" "p \<notin> al_node ` set als" "current_tick w \<le> now" "unat now + unat ms < 2 ^ 64"
    using assms(2) L(3,4) wheel_rel_nodes [OF L(3)] by simp_all
  let ?f = "upd_node p (\<lambda>n. n\<lparr> expires_at := now + ms, t_handle := h \<rparr>) w"
  let ?w = "sleep_await_suspend True now ms h p w"
  have w: "?w = add_timer p ?f"
    by (simp add: sleep_await_suspend_def)
  have "unat (now + ms) = unat now + unat ms"
    using p(5) by (simp add: unat_plus_if')
  then have "current_tick w \<le> now + ms"
    using p(4) by (simp add: word_le_nat_alt)
  then have valid: "wheel_valid ?w (put (unat (current_tick w)) (expiry ?f) p L)"
    using wheel_valid_add [OF wheel_valid_fill [OF L(1) p(2)] p(1,2), of h "now + ms"] by (simp add: w upd_node_def)
  have alarm: "alarm_of ?w q = (if q = p then \<lparr> al_node = p, al_deadline = now + ms, al_handle = h \<rparr> else alarm_of w q)" for q
    using add_timer_frame [of ?f p] unfolding w by (simp add: alarm_of_def frame_def upd_node_def)
  have "alarm_of ?w ` pending (put (unat (current_tick w)) (expiry ?f) p L) = set (alarms_sleep now ms h p als)"
    using p(2) L(3) by (auto simp: alarm alarms_sleep_def image_iff)
  moreover have "current_tick ?w = t"
    by (simp add: w L(4) upd_node_def)
  ultimately show ?thesis
    using valid L(2) p(3) unfolding wheel_rel_def
    by (intro conjI exI [of _ "put (unat (current_tick w)) (expiry ?f) p L"]) (simp_all add: alarms_sleep_def)
qed

lemma wheel_rel_cancel:
  assumes "wheel_rel w t als" and "proper_op (CancelOp p) t als"
  shows "wheel_rel (remove_timer p w) t (alarms_cancel p als)"
proof -
  obtain L where L: "wheel_valid w L" "distinct (map al_node als)" "set als = alarm_of w ` pending L" "t = current_tick w"
    using assms(1) by (auto simp: wheel_rel_def)
  then obtain s where s: "p \<in> set (L s)"
    using assms(2) wheel_rel_nodes [OF L(3)] by (auto elim: pendingE)
  have rep: "rep w L"
    using L(1) by (simp add: wheel_valid_def)
  let ?w = "remove_timer p w" and ?L = "L(s := remove1 p (L s))"
  have fr: "frame w ?w"
    by (rule remove_timer_rep(3) [OF rep s])
  have "alarm_of ?w = alarm_of w"
    using fr by (simp add: fun_eq_iff alarm_of_def frame_def)
  then have "alarm_of ?w ` pending ?L = set (alarms_cancel p als)"
    unfolding pending_remove1 [OF rep_distinct [OF rep] s] by (auto simp: alarms_cancel_def L(3))
  moreover have "distinct (map al_node (alarms_cancel p als))"
    using L(2) by (simp add: alarms_cancel_def distinct_map_filter)
  ultimately show ?thesis
    unfolding wheel_rel_def using wheel_valid_remove [OF L(1) s] frame_tick [OF fr] L(4) by auto
qed

lemma wheel_rel_tick:
  assumes "wheel_rel w t als"
  shows "\<exists>w' hs. tick True now w = Some (w', hs) \<and> fires_as hs (fst (alarms_tick now als))
    \<and> wheel_rel w' (max t now) (snd (alarms_tick now als))"
proof -
  obtain L where L: "wheel_valid w L" "distinct (map al_node als)" "set als = alarm_of w ` pending L" "t = current_tick w"
    using assms(1) by (auto simp: wheel_rel_def)
  obtain L' ps where run: "l_ticks (unat (current_tick w)) (expiry w) (unat now - unat (current_tick w)) L = (L', ps)"
    by fastforce
  note due = tick_due [OF L(1) refl run]
  obtain w' where w': "tick True now w = Some (w', map (\<lambda>p. t_handle (nodes w p)) ps)" "wheel_valid w' L'"
    "current_tick w' = max (current_tick w) now" "alarm_of w' = alarm_of w"
    using due(1) [of True] by (auto simp: alarm_of_def fun_eq_iff)
  have inj: "inj (alarm_of w)"
    by (auto simp: inj_def alarm_of_def)
  have dist: "distinct als"
    using L(2) by (simp add: distinct_map)
  have "mset (map (alarm_of w) ps) = mset (fst (alarms_tick now als))"
  proof (rule set_eq_iff_mset_eq_distinct [THEN iffD1])
    show "distinct (map (alarm_of w) ps)"
      using due(2) inj by (simp add: distinct_map inj_on_subset [OF inj subset_UNIV])
    show "distinct (fst (alarms_tick now als))"
      using dist by (simp add: alarms_tick_def)
    show "set (map (alarm_of w) ps) = set (fst (alarms_tick now als))"
      by (auto simp: due(3) alarms_tick_def L(3))
  qed
  then have "fires_as (map (\<lambda>p. t_handle (nodes w p)) ps) (fst (alarms_tick now als))"
    unfolding fires_as_def using due(4) by (intro exI [of _ "map (alarm_of w) ps"]) (simp add: alarm_of_def o_def)
  moreover have "set (snd (alarms_tick now als)) = alarm_of w' ` pending L'"
    by (auto simp: due(5) alarms_tick_def L(3) w'(4))
  moreover have "distinct (map al_node (snd (alarms_tick now als)))"
    using L(2) by (simp add: alarms_tick_def distinct_map_filter)
  ultimately show ?thesis
    using w'(1-3) L(4) unfolding wheel_rel_def
    by (intro exI [of _ w'] exI [of _ "map (\<lambda>p. t_handle (nodes w p)) ps"] conjI exI [of _ L']) simp_all
qed

interpretation wheel: timer_service wheel_rel "sleep_await_suspend True" remove_timer "tick True"
  by unfold_locales (blast intro: wheel_rel_sleep wheel_rel_cancel wheel_rel_tick)+

section \<open>Properties\<close>

text \<open>
  C1: For every sequence of sleeps, cancellations and ticks that uses the wheel properly, each tick ends
  and resumes exactly the coroutines whose alarms the list of alarms fires at that point, in the
  order of their deadlines; the alarms left in the list are exactly the timers left in the wheel.
\<close>

theorem wheel_refines_alarms:
  assumes "proper_ops ops 0 []"
  shows "\<exists>hss w t. run_timer_ops (sleep_await_suspend True) remove_timer (tick True) ops (wheel_init ns) = Some (hss, w)
    \<and> list_all2 fires_as hss (fst (alarm_ops ops [])) \<and> wheel_rel w t (snd (alarm_ops ops []))"
  by (rule wheel.run_refines [OF wheel_rel_init assms])

text \<open>Three sleepers, one of them behind a cascade; the second is cancelled.\<close>

definition example_alarms :: "timer_op list" where
  "example_alarms = [SleepOp 0 300 77 8, SleepOp 5 20 78 16, TickOp 10, SleepOp 10 1 79 24, CancelOp 16, TickOp 12]"

theorem wheel_refines_alarms_witness:
  "\<exists>hs1 hs2 w. run_timer_ops (sleep_await_suspend True) remove_timer (tick True) example_alarms (wheel_init sample_nodes)
     = Some ([hs1, hs2], w) \<and> mset hs1 = {#} \<and> mset hs2 = {# 79 #}"
proof -
  have "proper_ops example_alarms 0 []"
    by (simp add: example_alarms_def alarms_tick_def alarms_cancel_def alarms_sleep_def)
  from wheel_refines_alarms [OF this, of sample_nodes] obtain hss w where
    run: "run_timer_ops (sleep_await_suspend True) remove_timer (tick True) example_alarms (wheel_init sample_nodes) = Some (hss, w)"
    and fires: "list_all2 fires_as hss (fst (alarm_ops example_alarms []))"
    by blast
  have "fst (alarm_ops example_alarms []) = [[], [\<lparr> al_node = 24, al_deadline = 11, al_handle = 79 \<rparr>]]"
    by (simp add: example_alarms_def alarms_tick_def alarms_cancel_def alarms_sleep_def)
  then show ?thesis
    using run fires by (auto simp: list_all2_Cons2 dest!: fires_as_mset)
qed

text \<open>
  C26: No sleeper is lost or resumed twice: in such a sequence, up to a tick beyond all deadlines, the
  coroutines resumed and those whose timers were cancelled are together exactly those that slept.
\<close>

theorem sleepers_resumed_once:
  assumes "proper_ops (ops @ [TickOp now]) 0 []" and "\<forall>a \<in> set (snd (alarm_ops ops [])). al_deadline a < now"
  shows "\<exists>hss w. run_timer_ops (sleep_await_suspend True) remove_timer (tick True) (ops @ [TickOp now]) (wheel_init ns)
      = Some (hss, w)
    \<and> mset (concat hss) + image_mset al_handle (mset (cancelled ops [])) = image_mset al_handle (mset (slept ops))"
  using wheel.all_woken [OF wheel_rel_init assms] by simp

theorem sleepers_resumed_once_witness:
  "\<exists>hss w. run_timer_ops (sleep_await_suspend True) remove_timer (tick True) (example_alarms @ [TickOp 301]) (wheel_init sample_nodes)
     = Some (hss, w) \<and> mset (concat hss) + {# 78 #} = {# 77, 78, 79 #}"
proof -
  have "proper_ops (example_alarms @ [TickOp 301]) 0 []"
    and "\<forall>a \<in> set (snd (alarm_ops example_alarms [])). al_deadline a < 301"
    by (simp_all add: example_alarms_def alarms_tick_def alarms_cancel_def alarms_sleep_def)
  from sleepers_resumed_once [OF this, of sample_nodes] show ?thesis
    by (simp add: example_alarms_def alarms_tick_def alarms_cancel_def alarms_sleep_def)
qed

end
