(* ===== verification/Wake_Paths.thy ===== *)
theory Wake_Paths
  imports Runtime Resumptions Co_Mutex_Props Event Timer_Service
begin

text \<open>
  How a coroutine that another component wakes gets back onto a processor. \<open>CoMutex\<close>, \<open>Event\<close>,
  \<open>when_all\<close> and the timers call \<open>schedule\<close> when they run on the coroutine's own scheduler;
  from another core \<open>CoMutex\<close> sends a message to the ring of the scheduler and \<open>Event\<close> dispatches a
  task to its core. All of these keep one contract with the run queue, and what follows from it is
  proved once.
\<close>

section \<open>The contract of a way to wake\<close>

lemma run_queue_next:
  assumes inv: "rq_inv q" and next_h: "rq_next q = h" "h \<noteq> nullptr" and ok: "\<not> rq_fault (fold rq_schedule hs q)"
  shows "h \<in> set (take 16 (ready (fold rq_schedule hs q)))"
proof -
  have "rq_next (fold rq_schedule hs q) = h"
    using next_h by (induction hs arbitrary: q) (simp_all add: rq_schedule_def)
  then show ?thesis
    using next_h by (simp add: ready_def)
qed

text \<open>A handle in the slot in front, or among the first \<open>15 n\<close> of the local queue, is handed out within
  \<open>n\<close> rounds.\<close>

lemma next_handed_out:
  assumes "rq_inv (sc_rq s)" and "run_loop pg (ki # kis) s = Some s'" and "\<not> rq_fault (sc_rq s')"
    and "rq_next (sc_rq s) = h" and "h \<noteq> nullptr"
  shows "h \<in> set (drop (length (rq_taken (sc_rq s))) (rq_taken (sc_rq s')))"
proof -
  obtain s1 where s1: "iteration pg ki s = Some s1" "run_loop pg kis s1 = Some s'"
    using assms(2) by (auto split: option.splits)
  have ok1: "\<not> rq_fault (sc_rq s1)"
    using run_loop_fault_mono [OF s1(2)] assms(3) by blast
  obtain hs1 hs2 where q: "sc_rq s1 = fold rq_schedule hs2 (snd (try_dequeue_batch 16 (fold rq_schedule hs1 (sc_rq s))))"
    using iteration_queue [OF s1(1)] by blast
  let ?q1 = "fold rq_schedule hs1 (sc_rq s)"
  have "rq_fault (snd (try_dequeue_batch 16 ?q1)) = rq_fault ?q1"
    by (simp add: try_dequeue_batch_def split_beta Let_def)
  then have okq: "\<not> rq_fault ?q1" and ok2: "\<not> rq_fault (fold rq_schedule hs2 (snd (try_dequeue_batch 16 ?q1)))"
    using ok1 q rq_fault_fold by metis+
  note f1 = fold_schedule_ready [OF assms(1) okq]
  have "(0::nat) < 16"
    by simp
  note b = batch_ready [OF conjunct1 [OF f1] this]
  note f2 = fold_schedule_ready [OF b(3) ok2]
  have taken1: "rq_taken (sc_rq s1) = rq_taken (sc_rq s) @ take 16 (ready ?q1)"
    using f1 f2 b(4) q by simp
  have "rq_inv (sc_rq s1)"
    using f2 q by simp
  then obtain ts where "rq_taken (sc_rq s') = rq_taken (sc_rq s1) @ ts"
    using run_loop_queue [OF _ s1(2) assms(3)] by blast
  then show ?thesis
    using taken1 run_queue_next [OF assms(1,4,5) okq] by simp
qed

text \<open>So every ready coroutine is handed out within one round per 15 in the local queue.\<close>

lemma ready_runs:
  assumes inv: "rq_inv (sc_rq s)" and run: "run_loop pg kis s = Some s'" and ok: "\<not> rq_fault (sc_rq s')"
    and h: "h \<in> set (ready (sc_rq s))" "h \<noteq> nullptr" and rounds: "length (ready (sc_rq s)) < 15 * length kis + 1"
    and some: "kis \<noteq> []"
  shows "h \<in> set (drop (length (rq_taken (sc_rq s))) (rq_taken (sc_rq s')))"
proof (cases "rq_next (sc_rq s) = h")
  case True
  obtain ki kis' where "kis = ki # kis'"
    using some by (cases kis) auto
  then show ?thesis
    using next_handed_out [OF inv _ ok True h(2)] run by simp
next
  case False
  let ?xs = "lq_contents (rq_local (sc_rq s))"
  have "h \<in> set ?xs"
    using h(1) False by (auto simp: ready_def split: if_splits)
  then obtain i where i: "i < length ?xs" "?xs ! i = h"
    by (auto simp: in_set_conv_nth)
  then have "waiting h i (sc_rq s)"
    by (auto simp: waiting_def)
  moreover have "i < 15 * length kis"
    using i(1) rounds by (simp add: ready_def split: if_splits)
  ultimately show ?thesis
    using run_loop_queue [OF inv run ok, of h i] by auto
qed

lemma fold_schedule_mset:
  assumes "rq_inv q" and "\<not> rq_fault (fold rq_schedule hs q)"
  shows "mset (ready (fold rq_schedule hs q)) = mset (ready q) + mset hs" and "nullptr \<notin> set hs"
  using assms
proof (induction hs arbitrary: q)
  case (Cons h hs)
  {
    case 1
    then have ok: "\<not> rq_fault (rq_schedule h q)"
      using rq_fault_fold [of "rq_schedule h q" hs] by auto
    show ?case
      using 1 Cons.IH(1) [OF schedule_ready(1) [OF 1(1) ok]] schedule_ready(2) [OF 1(1) ok] by simp
  next
    case 2
    then have ok: "\<not> rq_fault (rq_schedule h q)"
      using rq_fault_fold [of "rq_schedule h q" hs] by auto
    then have "h \<noteq> nullptr"
      by (auto simp: rq_schedule_def split: if_splits)
    then show ?case
      using 2 Cons.IH(2) [OF schedule_ready(1) [OF 2(1) ok]] by simp
  }
qed simp_all

locale wake_path =
  fixes path :: "handle \<Rightarrow> ('c, 'e) scheduler \<Rightarrow> ('c, 'e) scheduler option"
    and usable :: "handle \<Rightarrow> ('c, 'e) scheduler \<Rightarrow> bool"
  assumes path_returns: "usable h s \<Longrightarrow> path h s \<noteq> None"
    and path_schedules: "usable h s \<Longrightarrow> path h s = Some s1 \<Longrightarrow> sc_rq s1 = rq_schedule h (sc_rq s)"
begin

lemma woken_ready:
  assumes "usable h s" and "rq_inv (sc_rq s)" and "path h s = Some s1" and "\<not> rq_fault (sc_rq s1)"
  shows "rq_inv (sc_rq s1)" and "mset (ready (sc_rq s1)) = add_mset h (mset (ready (sc_rq s)))"
  using schedule_ready(1,2) [OF assms(2), of h] assms(4) path_schedules [OF assms(1,3)] by simp_all

lemma woken_runs:
  assumes usable: "usable h s" and inv: "rq_inv (sc_rq s)" and path: "path h s = Some s1"
    and run: "run_loop pg kis s1 = Some s2" and ok: "\<not> rq_fault (sc_rq s2)"
    and rounds: "length (ready (sc_rq s)) div 15 < length kis"
  shows "h \<in> set (drop (length (rq_taken (sc_rq s))) (rq_taken (sc_rq s2)))"
proof -
  have ok1: "\<not> rq_fault (sc_rq s1)"
    using run_loop_fault_mono [OF run] ok by blast
  have q: "sc_rq s1 = rq_schedule h (sc_rq s)"
    by (rule path_schedules [OF usable path])
  have okq: "\<not> rq_fault (rq_schedule h (sc_rq s))" and inv1: "rq_inv (sc_rq s1)"
    using ok1 woken_ready(1) [OF usable inv path ok1] q by simp_all
  have taken: "rq_taken (sc_rq s1) = rq_taken (sc_rq s)"
    using schedule_ready(4) [OF inv okq] q by simp
  have "h \<noteq> nullptr"
    using okq by (auto simp: rq_schedule_def split: if_splits)
  moreover have "h \<in> set (ready (sc_rq s1))" "length (ready (sc_rq s1)) = Suc (length (ready (sc_rq s)))"
    using schedule_ready(2) [OF inv okq] q by simp_all
  moreover have "Suc (length (ready (sc_rq s))) < 15 * length kis + 1" "kis \<noteq> []"
    using rounds by (linarith, auto)
  ultimately show ?thesis
    using ready_runs [OF inv1 run ok, of h] taken by simp
qed

end

section \<open>The ways the program wakes\<close>

text \<open>On the scheduler itself.\<close>

interpretation local_path: wake_path "\<lambda>h s. Some (schedule h s)" "\<lambda>_ _. True"
  by unfold_locales (auto simp: schedule_def)



text \<open>A task dispatched to its core that schedules the handle there, as \<open>Event::resume_waiter\<close> does;
  the worker then drains its inbox.\<close>

definition lift_code :: "'c action list \<times> 'e \<Rightarrow> (handle + 'c) action list \<times> 'e" where
  "lift_code r = (map (map_action Inr) (fst r), snd r)"

definition wake_program :: "('c, 'e) program \<Rightarrow> (handle + 'c, 'e) program" where
  "wake_program pg = \<lparr> pg_resume = (\<lambda>h e. lift_code (pg_resume pg h e)), pg_done = pg_done pg,
     pg_task = (\<lambda>c e. case c of Inl h \<Rightarrow> ([Schedule h], e) | Inr d \<Rightarrow> lift_code (pg_task pg d e)),
     pg_multi = (\<lambda>op r f e. lift_code (pg_multi pg op r f e)) \<rparr>"

text \<open>Draining an inbox runs every task that waits in it, among whatever else waits there or is dispatched meanwhile.\<close>

lemma actions_extend_inbox:
  assumes "sq_inv (sc_inbox s)"
  shows "sq_inv (sc_inbox (fold do_action acts s))"
    and "\<exists>ts. sq_contents (sc_inbox (fold do_action acts s)) = sq_contents (sc_inbox s) @ ts"
    and "sc_last_tick (fold do_action acts s) = sc_last_tick s"
proof -
  have "sq_inv (sc_inbox (fold do_action acts s))
    \<and> (\<exists>ts. sq_contents (sc_inbox (fold do_action acts s)) = sq_contents (sc_inbox s) @ ts)
    \<and> sc_last_tick (fold do_action acts s) = sc_last_tick s"
    using assms
  proof (induction acts arbitrary: s)
    case (Cons act acts)
    have "sq_inv (sc_inbox (do_action act s)) \<and> (\<exists>ts. sq_contents (sc_inbox (do_action act s)) = sq_contents (sc_inbox s) @ ts)
      \<and> sc_last_tick (do_action act s) = sc_last_tick s"
    proof (cases act)
      case (Dispatch core t)
      then show ?thesis
        using push_inbox_accepts [OF Cons.prems, of t] Cons.prems
        by (auto simp: do_action_def split_beta Let_def push_inbox_def)
    qed (use Cons.prems in \<open>simp_all add: do_action_def schedule_def\<close>)
    then show ?case
      using Cons.IH [of "do_action act s"] by auto
  qed simp
  then show "sq_inv (sc_inbox (fold do_action acts s))"
    "\<exists>ts. sq_contents (sc_inbox (fold do_action acts s)) = sq_contents (sc_inbox s) @ ts"
    "sc_last_tick (fold do_action acts s) = sc_last_tick s"
    by blast+
qed

definition schedules_only :: "('c, 'e) program \<Rightarrow> 'c \<Rightarrow> handle \<Rightarrow> bool" where
  "schedules_only pg c h \<longleftrightarrow> (\<forall>e. fst (pg_task pg c e) = [Schedule h])"

lemma drain_wakes:
  assumes "process_inbox pg s = Some s'" and "sq_inv (sc_inbox s)"
  shows "sq_inv (sc_inbox s') \<and> sq_contents (sc_inbox s') = [] \<and> sc_last_tick s' = sc_last_tick s
    \<and> (\<exists>hs. sc_rq s' = fold rq_schedule hs (sc_rq s)
         \<and> (\<forall>c h. Some c \<in> set (sq_contents (sc_inbox s)) \<and> schedules_only pg c h \<longrightarrow> h \<in> set hs))"
  using assms
proof (induction pg s s' rule: process_inbox_induct)
  case (step rec pg s s')
  show ?case
  proof (cases "sq_contents (sc_inbox s)")
    case Nil
    then show ?thesis
      using step.hyps step.prems spsc_pop_empty_case [OF step.prems Nil] by (auto intro!: exI [of _ "[]"])
  next
    case (Cons t ts)
    obtain q where pop: "spsc_pop (sc_inbox s) = ((True, Some t), q)" "sq_inv q" "sq_contents q = ts"
      using spsc_pop_head [OF step.prems] Cons by (metis list.distinct(1) list.sel(1,3))
    let ?s1 = "s\<lparr> sc_inbox := q, sc_metrics := metrics_record_inbox_processed (sc_metrics s) \<rparr>"
    let ?s2 = "case t of None \<Rightarrow> ?s1 | Some c \<Rightarrow> run_code (pg_task pg c) ?s1"
    have rec: "rec pg ?s2 = Some s'"
      using step.hyps pop(1) by (simp add: Let_def)
    have s2: "sq_inv (sc_inbox ?s2)" "\<exists>us. sq_contents (sc_inbox ?s2) = ts @ us" "sc_last_tick ?s2 = sc_last_tick s"
      using actions_extend_inbox [of "?s1\<lparr> sc_env := snd (pg_task pg (the t) (sc_env s)) \<rparr>" "fst (pg_task pg (the t) (sc_env s))"] pop(2,3)
      by (cases t; simp add: run_code_def split_beta)+
    have "\<exists>hs. sc_rq ?s2 = fold rq_schedule hs (sc_rq s) \<and> (\<forall>c h. t = Some c \<and> schedules_only pg c h \<longrightarrow> h \<in> set hs)"
    proof (cases "\<exists>c h. t = Some c \<and> schedules_only pg c h")
      case True
      then obtain c h where c: "t = Some c" "schedules_only pg c h"
        by blast
      then have "sc_rq ?s2 = rq_schedule h (sc_rq s)"
        by (simp add: run_code_def split_beta Let_def schedules_only_def do_action_def schedule_def)
      then show ?thesis
        using c by (intro exI [of _ "[h]"]) (auto simp: schedules_only_def)
    next
      case False
      have "\<exists>hs. sc_rq ?s2 = fold rq_schedule hs (sc_rq s)"
      proof (cases t)
        case None
        then show ?thesis
          by (intro exI [of _ "[]"]) simp
      next
        case (Some c)
        then show ?thesis
          using only.actions [of "?s1\<lparr> sc_env := snd (pg_task pg c (sc_env s)) \<rparr>" "fst (pg_task pg c (sc_env s))"]
          by (simp add: only_schedules_def run_code_def split_beta)
      qed
      then show ?thesis
        using False by blast
    qed
    then obtain hs1 where hs1: "sc_rq ?s2 = fold rq_schedule hs1 (sc_rq s)"
      "\<And>c h. t = Some c \<Longrightarrow> schedules_only pg c h \<Longrightarrow> h \<in> set hs1"
      by blast
    obtain hs2 where hs2: "sq_inv (sc_inbox s')" "sq_contents (sc_inbox s') = []" "sc_last_tick s' = sc_last_tick s"
      "sc_rq s' = fold rq_schedule hs2 (sc_rq ?s2)"
      "\<And>c h. Some c \<in> set (sq_contents (sc_inbox ?s2)) \<Longrightarrow> schedules_only pg c h \<Longrightarrow> h \<in> set hs2"
      using step.IH [OF rec s2(1)] s2(3) by auto
    have "h \<in> set (hs1 @ hs2)" if "Some c \<in> set (sq_contents (sc_inbox s))" "schedules_only pg c h" for c h
      using that hs1(2) hs2(5) [of c h] s2(2) Cons by auto
    then show ?thesis
      using hs2(1-4) hs1(1) by (intro conjI exI [of _ "hs1 @ hs2"]) auto
  qed
qed

lemma tick_from_keeps:
  "tick_from n t s = Some s' \<Longrightarrow> sc_inbox s' = sc_inbox s \<and> sc_last_tick s' = sc_last_tick s"
proof (induction n arbitrary: t s)
  case (Suc n)
  have "sc_inbox (fold schedule hs u) = sc_inbox u \<and> sc_last_tick (fold schedule hs u) = sc_last_tick u" for hs and u :: "('a, 'b) scheduler"
    by (induction hs arbitrary: u) (simp_all add: schedule_def)
  then show ?case
    using Suc by (auto split: option.splits)
qed simp

text \<open>The ticks and the inbox of a round can be taken apart from the rest of it.\<close>

lemma gather_first:
  assumes "gather pg ki s = Some s1" and "sq_inv (sc_inbox s)"
  shows "iteration pg ki s = iteration pg ki s1"
    and "\<exists>hs. sc_rq s1 = fold rq_schedule hs (sc_rq s)
      \<and> (\<forall>c h. Some c \<in> set (sq_contents (sc_inbox s)) \<and> schedules_only pg c h \<longrightarrow> h \<in> set hs)"
proof -
  obtain s0 where s0: "run_ticks (ki_now ki) s = Some s0" "process_inbox pg s0 = Some s1"
    using assms(1) by (auto simp: gather_def split: option.splits)
  have keep: "sc_inbox s0 = sc_inbox s" "\<not> sc_last_tick s0 < ki_now ki"
    using s0(1) by (auto simp: run_ticks_def dest: tick_from_keeps split: if_splits)
  have inv: "sq_inv (sc_inbox s0)"
    using assms(2) keep(1) by simp
  obtain hs1 where hs1: "sc_rq s0 = fold rq_schedule hs1 (sc_rq s)"
    using only.run_ticks [OF s0(1)] by (auto simp: only_schedules_def)
  obtain hs2 where hs2: "sq_inv (sc_inbox s1)" "sq_contents (sc_inbox s1) = []" "sc_last_tick s1 = sc_last_tick s0"
    "sc_rq s1 = fold rq_schedule hs2 (sc_rq s0)"
    "\<forall>c h. Some c \<in> set (sq_contents (sc_inbox s0)) \<and> schedules_only pg c h \<longrightarrow> h \<in> set hs2"
    using drain_wakes [OF s0(2) inv] by blast
  have "run_ticks (ki_now ki) s1 = Some s1"
    using keep(2) hs2(3) by (simp add: run_ticks_def)
  moreover have "process_inbox pg s1 = Some s1"
    by (subst process_inbox.simps) (simp add: spsc_pop_empty_case [OF hs2(1,2)])
  ultimately show "iteration pg ki s = iteration pg ki s1"
    using s0 by (simp add: iteration_def)
  show "\<exists>hs. sc_rq s1 = fold rq_schedule hs (sc_rq s)
      \<and> (\<forall>c h. Some c \<in> set (sq_contents (sc_inbox s)) \<and> schedules_only pg c h \<longrightarrow> h \<in> set hs)"
    using hs1 hs2(4,5) keep(1) by (intro exI [of _ "hs1 @ hs2"]) simp
qed

lemma wake_schedules_only: "schedules_only (traced (wake_program pg)) (Inl h) h"
  by (simp add: schedules_only_def wake_program_def)

text \<open>The completion of a request, for the coroutine that awaits it.\<close>

definition io_cqe :: "addr \<Rightarrow> int \<Rightarrow> u32 \<Rightarrow> cqe" where
  "io_cqe ctx res flags = \<lparr> cqe_user_data = ctx OR TAG_IO, cqe_res = res, cqe_flags = flags \<rparr>"

definition awaits :: "addr \<Rightarrow> handle \<Rightarrow> ('c, 'e) scheduler \<Rightarrow> bool" where
  "awaits ctx h s \<longleftrightarrow> h \<noteq> nullptr \<and> (\<exists>c. io_ctx (sc_contexts s) ctx = Some c \<and> ctx_coro c = h \<and> \<not> ctx_cancelled c)"

lemma io_completion_schedules:
  assumes "aligned8 ctx" and "ctx \<noteq> nullptr" and "awaits ctx h s"
  shows "\<exists>s1. poll_one pg (io_cqe ctx res flags) s = Some s1 \<and> sc_rq s1 = rq_schedule h (sc_rq s)"
proof -
  have "poll_dispatch (io_cqe ctx res flags) = CompleteIo ctx res flags"
    unfolding io_cqe_def using assms(1,2) by (intro dispatch_tagged(1)) simp_all
  then show ?thesis
    using assms(3) by (auto simp: poll_one_def awaits_def complete_io_def schedule_def Let_def split_beta)
qed

interpretation io_path: wake_path "\<lambda>_. poll_one pg (io_cqe ctx res flags)"
  "\<lambda>h s. aligned8 ctx \<and> ctx \<noteq> nullptr \<and> awaits ctx h s" for pg ctx res flags
proof unfold_locales
  fix h and s s1 :: "('a, 'b) scheduler"
  assume "aligned8 ctx \<and> ctx \<noteq> nullptr \<and> awaits ctx h s"
  then obtain s2 where "poll_one pg (io_cqe ctx res flags) s = Some s2" "sc_rq s2 = rq_schedule h (sc_rq s)"
    using io_completion_schedules by blast
  then show "poll_one pg (io_cqe ctx res flags) s \<noteq> None"
    "poll_one pg (io_cqe ctx res flags) s = Some s1 \<Longrightarrow> sc_rq s1 = rq_schedule h (sc_rq s)"
    by simp_all
qed

section \<open>Properties\<close>


text \<open>
  C20: A suspended coroutine that \<open>set\<close> resumes on another core runs: once the closure that \<open>set\<close> dispatches is accepted by the
  inbox there, whatever waits in the inbox before it and is dispatched after it, the worker's next round that
  drains the inbox puts the coroutine into the run queue, and it is resumed within one round per 15 coroutines
  that are ready then. So are all waiters of the event on that core.
\<close>

theorem event_wakeup_runs:
  fixes s0 :: "(handle + 'c, 'e tracing) scheduler"
  assumes "event_reach e" and "(a, ResumeDispatched sched h) \<in> set (ev_resumed e)"
    and "sq_inv (sc_inbox s0)" and "push_inbox (Some (Inl h)) s0 = (True, s1)"
    and "s = fold (\<lambda>t u. snd (push_inbox t u)) ts s1"
    and "rq_inv (sc_rq s0)" and "suspended (wake_program pg) h (snd (sc_env s0))"
    and "gather (traced (wake_program pg)) ki s = Some s2" and "run_loop (traced (wake_program pg)) (ki # kis) s = Some s3"
    and "\<not> rq_fault (sc_rq s3)" and "length (ready (sc_rq s2)) \<le> 15 * length (ki # kis)"
  shows "ev_await_pc e a = EResumed \<and> h \<in> set (drop (length (resumed s0)) (resumed s3))"
proof
  let ?pg = "traced (wake_program pg)"
  show "ev_await_pc e a = EResumed"
    using resumed_iff [OF assms(1), of a] assms(2) by force
  have room: "0 < sq_room (sc_inbox s0)"
    using spsc_push_full [OF assms(3), of "Some (Inl h)"] assms(4) by (cases "sq_room (sc_inbox s0)") (auto simp: push_inbox_def)
  have accepted: "sq_inv (sc_inbox s1)" "Some (Inl h) \<in> set (sq_contents (sc_inbox s1))" "sc_rq s1 = sc_rq s0" "sc_env s1 = sc_env s0"
    using push_inbox_accepts [OF assms(3), of "Some (Inl h)"] room assms(4) by (auto simp: push_inbox_def split_beta)
  have later: "sq_inv (sc_inbox (fold (\<lambda>t u. snd (push_inbox t u)) ts u))
    \<and> set (sq_contents (sc_inbox u)) \<subseteq> set (sq_contents (sc_inbox (fold (\<lambda>t u. snd (push_inbox t u)) ts u)))
    \<and> sc_rq (fold (\<lambda>t u. snd (push_inbox t u)) ts u) = sc_rq u \<and> sc_env (fold (\<lambda>t u. snd (push_inbox t u)) ts u) = sc_env u"
    if "sq_inv (sc_inbox u)" for u :: "(handle + 'c, 'e tracing) scheduler"
    using that
  proof (induction ts arbitrary: u)
    case (Cons t ts)
    have "sc_rq (snd (push_inbox t u)) = sc_rq u"
      by (simp add: push_inbox_def split_beta)
    then show ?case
      using Cons.IH [of "snd (push_inbox t u)"] push_inbox_accepts [OF Cons.prems, of t] by auto
  qed simp
  have s: "sq_inv (sc_inbox s)" "Some (Inl h) \<in> set (sq_contents (sc_inbox s))" "sc_rq s = sc_rq s0" "sc_env s = sc_env s0"
    using later [OF accepted(1)] accepted(2-4) unfolding assms(5) by auto
  obtain hs where hs: "sc_rq s2 = fold rq_schedule hs (sc_rq s0)" "h \<in> set hs"
    using gather_first(2) [OF assms(8) s(1)] s(2,3) wake_schedules_only by metis
  have run: "run_loop ?pg (ki # kis) s2 = Some s3"
    using assms(9) gather_first(1) [OF assms(8) s(1)] by simp
  have ok2: "\<not> rq_fault (fold rq_schedule hs (sc_rq s0))"
    using run_loop_fault_mono [OF run] assms(10) hs(1) by auto
  note q = fold_schedule_ready [OF assms(6) ok2, folded hs(1)] fold_schedule_mset [OF assms(6) ok2, folded hs(1)]
  have "h \<in> set (ready (sc_rq s2))" "h \<noteq> nullptr"
    using q(2,3) hs(2) by (metis UnCI set_mset_mset set_mset_union, metis)
  then have taken: "h \<in> set (drop (length (rq_taken (sc_rq s2))) (rq_taken (sc_rq s3)))"
    using ready_runs [OF _ run assms(10), of h] q(1) assms(11) by simp
  have same: "resumed s2 = resumed s0"
    using quiet.gather [OF assms(8)] resumed_same(1) [OF s(4)] by (simp add: resumes_nothing_def)
  have "suspended (wake_program pg) h (snd (sc_env s2))"
    using resumed_grows(2) [OF susp.gather [OF assms(8)]] assms(7) s(4) same resumed_same(1) [OF s(4)] by simp
  then show "h \<in> set (drop (length (resumed s0)) (resumed s3))"
    using taken_resumed [OF conjunct1 [OF q(1)] run assms(10) taken] same by simp
qed

text \<open>
  C21: A coroutine that awaits a request runs after its completion: once its ring polls the completion it is handed out
  within one round per 15 coroutines that were ready before it, and one more. By \<open>taken_resumed\<close> a suspended
  coroutine that is handed out is resumed.
\<close>

theorem io_completion_runs:
  assumes "aligned8 ctx" and "ctx \<noteq> nullptr" and "awaits ctx h s" and "rq_inv (sc_rq s)"
    and "poll_one pg (io_cqe ctx res flags) s = Some s1" and "run_loop pg kis s1 = Some s2"
    and "\<not> rq_fault (sc_rq s2)" and "length (ready (sc_rq s)) div 15 < length kis"
  shows "h \<in> set (drop (length (rq_taken (sc_rq s))) (rq_taken (sc_rq s2)))"
  using io_path.woken_runs [OF _ assms(4-8)] assms(1-3) by blast

section \<open>Sleepers\<close>

text \<open>A late worker catches up tick by tick and schedules what one tick at the end would.\<close>

lemma sc_wheel_fold_schedule [simp]: "sc_wheel (fold schedule hs s) = sc_wheel s"
  by (induction hs arbitrary: s) (simp_all add: schedule_def)

lemma tick_from_alarms:
  assumes "wheel_rel (sc_wheel s) t als" and "unat x + n < 2 ^ 64"
  shows "\<exists>s' hs. tick_from (Suc n) x s = Some s' \<and> sc_rq s' = fold rq_schedule hs (sc_rq s)
    \<and> fires_as hs (fst (alarms_tick (x + of_nat n) als))"
  using assms
proof (induction n arbitrary: x s t als)
  case 0
  obtain w hs where w: "tick True x (sc_wheel s) = Some (w, hs)" "fires_as hs (fst (alarms_tick x als))"
    using wheel.tick_law [OF 0(1)] by blast
  then show ?case
    by (auto simp: sc_rq_fold_schedule)
next
  case (Suc n)
  obtain w hs where w: "tick True x (sc_wheel s) = Some (w, hs)" "fires_as hs (fst (alarms_tick x als))"
    "wheel_rel w (max t x) (snd (alarms_tick x als))"
    using wheel.tick_law [OF Suc.prems(1)] by blast
  let ?s = "fold schedule hs (s\<lparr> sc_wheel := w \<rparr>)"
  have wheel: "sc_wheel ?s = w"
    by simp
  have nowrap: "unat (x + 1) = Suc (unat x)"
    using Suc.prems(2) by (simp add: unat_word_ariths)
  then obtain s' hs' where s': "tick_from (Suc n) (x + 1) ?s = Some s'" "sc_rq s' = fold rq_schedule hs' (sc_rq ?s)"
    "fires_as hs' (fst (alarms_tick (x + 1 + of_nat n) (snd (alarms_tick x als))))"
    using Suc.IH [of ?s "max t x" "snd (alarms_tick x als)" "x + 1"] w(3) Suc.prems(2) unfolding wheel by auto
  have "unat (x + of_nat (Suc n)) = unat x + Suc n"
    using Suc.prems(2) by (simp add: unat_word_ariths unat_of_nat)
  then have "x \<le> x + of_nat (Suc n)"
    by (simp add: word_le_nat_alt)
  then have "fires_as (hs @ hs') (fst (alarms_tick (x + of_nat (Suc n)) als))"
    using fires_as_append [OF _ w(2)] s'(3) by (simp add: algebra_simps)
  then show ?case
    using s'(1,2) w(1) by (intro exI [of _ s'] exI [of _ "hs @ hs'"]) (simp add: sc_rq_fold_schedule)
qed

lemma run_ticks_due:
  assumes "wheel_rel (sc_wheel s) t als" and "sc_last_tick s < now"
  shows "\<exists>s' hs. run_ticks now s = Some s' \<and> sc_last_tick s' = now \<and> sc_rq s' = fold rq_schedule hs (sc_rq s)
    \<and> fires_as hs (filter (\<lambda>a. al_deadline a < now) als)"
proof -
  let ?n = "unat (now - sc_last_tick s) - 1"
  have n: "unat (now - sc_last_tick s) = unat now - unat (sc_last_tick s)"
    using assms(2) by (simp add: unat_sub word_le_nat_alt word_less_nat_alt)
  have lt: "unat (sc_last_tick s) < unat now"
    using assms(2) by (simp add: word_less_nat_alt)
  have x: "unat (sc_last_tick s + 1) = Suc (unat (sc_last_tick s))"
    using unat_Suc_less [OF assms(2)] by simp
  have small: "unat now < 2 ^ 64"
    using unsigned_less [of now] by simp
  have "unat (sc_last_tick s + 1 + of_nat ?n) = unat now"
    using x n lt small by (simp add: unat_word_ariths unat_of_nat)
  then have now: "sc_last_tick s + 1 + of_nat ?n = now"
    by (rule unsigned_word_eqI)
  have "unat (sc_last_tick s + 1) + ?n < 2 ^ 64"
    using x n lt small by simp
  from tick_from_alarms [OF assms(1) this] obtain s' hs where
    s': "tick_from (Suc ?n) (sc_last_tick s + 1) s = Some s'" "sc_rq s' = fold rq_schedule hs (sc_rq s)"
    "fires_as hs (fst (alarms_tick now als))"
    unfolding now by blast
  have "Suc ?n = unat (now - sc_last_tick s)"
    using n lt by simp
  then show ?thesis
    using s' assms(2) by (intro exI [of _ "s'\<lparr> sc_last_tick := now \<rparr>"] exI [of _ hs]) (simp add: run_ticks_def alarms_tick_def)
qed

text \<open>
  C27: However late the worker's loop reaches a millisecond, it schedules every coroutine whose deadline
  has passed by then, each once, in the order of the deadlines and before it takes anything else
  from its queues.
\<close>

theorem catching_up_schedules_due:
  assumes "wheel_rel (sc_wheel s) t als" and "sc_last_tick s < now"
  shows "\<exists>s' hs. run_ticks now s = Some s' \<and> sc_last_tick s' = now \<and> sc_rq s' = fold rq_schedule hs (sc_rq s)
    \<and> fires_as hs (filter (\<lambda>a. al_deadline a < now) als)"
  using run_ticks_due [OF assms] .

text \<open>
  C22: A sleeping coroutine runs: once the loop sees a time beyond its deadline it is handed out within
  one round per 15 coroutines that were ready or asleep, whatever else is scheduled meanwhile.
\<close>

theorem sleeper_runs:
  assumes "wheel_rel (sc_wheel s) t als" and "a \<in> set als" and "al_deadline a < ki_now ki" and "sc_last_tick s < ki_now ki"
    and "rq_inv (sc_rq s)" and "run_loop pg (ki # kis) s = Some s'" and "\<not> rq_fault (sc_rq s')"
    and "length (ready (sc_rq s)) + length als \<le> 15 * length (ki # kis)"
  shows "al_handle a \<in> set (drop (length (rq_taken (sc_rq s))) (rq_taken (sc_rq s')))"
proof -
  let ?due = "filter (\<lambda>a. al_deadline a < ki_now ki) als"
  obtain s1 hs where s1: "run_ticks (ki_now ki) s = Some s1" "sc_last_tick s1 = ki_now ki"
    "sc_rq s1 = fold rq_schedule hs (sc_rq s)" "fires_as hs ?due"
    using run_ticks_due [OF assms(1,4)] by blast
  have "run_ticks (ki_now ki) s1 = Some s1"
    using s1(2) by (simp add: run_ticks_def)
  then have run: "run_loop pg (ki # kis) s1 = Some s'"
    using s1(1) assms(6) by (simp add: iteration_def)
  have "\<not> rq_fault (fold rq_schedule hs (sc_rq s))"
    using run_loop_fault_mono [OF run] assms(7) s1(3) by auto
  note q = fold_schedule_ready [OF assms(5) this] fold_schedule_mset [OF assms(5) this]
  have mem: "al_handle a \<in> set hs"
    using fires_as_set [OF s1(4)] assms(2,3) by auto
  then have "al_handle a \<noteq> nullptr"
    using q(3) by auto
  moreover have "al_handle a \<in> set (ready (sc_rq s1))"
    using mem q(2) s1(3) by (metis UnCI set_mset_mset set_mset_union)
  moreover have "length (ready (sc_rq s1)) \<le> length (ready (sc_rq s)) + length als"
    using q(2) s1(3) fires_as_length [OF s1(4)] length_filter_le [of _ als]
    by (metis add_left_mono mset_append mset_eq_length length_append)
  ultimately show ?thesis
    using ready_runs [OF _ run assms(7), of "al_handle a"] q(1) s1(3) assms(8) by simp
qed

section \<open>Concrete runs\<close>





text \<open>A scheduler whose tasks may also be wake-ups, with another task in its inbox; the waiter of \<open>event_sample\<close>
  that is resumed there.\<close>

definition waker :: "(handle + nat, handle list tracing) scheduler" where
  "waker = \<lparr> sc_id = 2, sc_fd = 3, sc_rq = example_rq,
     sc_inbox = \<lparr> sq_capacity = 2, sq_mask = 1, sq_tail = 0, sq_head = 0, sq_buffer = [None, None] \<rparr>,
     sc_wheel = wheel_init sample_nodes, sc_last_tick = 0,
     sc_contexts = \<lparr> io_ctx = (\<lambda>_. None), io_fault = False \<rparr>, sc_queued = [], sc_submitted = [],
     sc_metrics = metrics_zero, sc_outbox = [], sc_env = ([], []) \<rparr>"

lemma waker_new: "scheduler_new 2 3 sample_nodes ([], []) (2 ^ 1) (2 ^ 1) = Inr waker"
proof -
  have "spsc_new (2 ^ 1) = Inr (sc_inbox waker)"
    by code_simp
  then show ?thesis
    using example_lq_new by (simp add: scheduler_new_def waker_def example_rq_def)
qed

definition busy_waker :: "(handle + nat, handle list tracing) scheduler" where
  "busy_waker = snd (push_inbox (Some (Inr 4)) waker)"

definition woken_waker :: "(handle + nat, handle list tracing) scheduler" where
  "woken_waker = snd (push_inbox (Some (Inl 200)) busy_waker)"

lemma waker_pushes: "push_inbox (Some (Inl 200)) busy_waker = (True, woken_waker)"
proof -
  have "fst (push_inbox (Some (Inl 200)) busy_waker)"
    by code_simp
  then show ?thesis
    by (simp add: woken_waker_def prod_eq_iff)
qed

lemma waker_gathers: "map_option (\<lambda>s. ready (sc_rq s)) (gather (traced (wake_program example_program)) example_input woken_waker)
    = Some [5, 6, 200]"
  by code_simp

lemma waker_run: "map_option summary (run_loop (traced (wake_program example_program)) [example_input] woken_waker)
    = Some ([5, 6, 200, 9, 32], [5, 6, 200], False,
        ([([], None), ([], None), ([], Some 5), ([5], Some 6), ([5, 6], Some 200)], [5, 6, 200]))"
  by code_simp

theorem event_wakeup_runs_witness:
  "\<exists>s3. run_loop (traced (wake_program example_program)) [example_input] woken_waker = Some s3 \<and> 200 \<in> set (resumed s3)"
proof -
  let ?pg = "traced (wake_program example_program)"
  obtain s2 where s2: "gather ?pg example_input woken_waker = Some s2" "ready (sc_rq s2) = [5, 6, 200]"
    using waker_gathers by auto
  obtain s3 where s3: "run_loop ?pg [example_input] woken_waker = Some s3" "\<not> rq_fault (sc_rq s3)"
    using waker_run by (auto simp: summary_def)
  note new = scheduler_new_inv [OF waker_new]
  have "sq_inv (sc_inbox busy_waker)" "rq_inv (sc_rq busy_waker)"
    using push_inbox_accepts(1) [OF new(3), of "Some (Inr 4)"] new(1) by (simp_all add: busy_waker_def push_inbox_def split_beta)
  moreover have "suspended (wake_program example_program) 200 (snd (sc_env busy_waker))"
    by (auto simp: suspended_def wake_program_def example_program_def)
  ultimately have "200 \<in> set (drop (length (resumed busy_waker)) (resumed s3))"
    using event_wakeup_runs [OF event_sample_reach _ _ waker_pushes _ _ _ s2(1) s3, of 20 2 "[]"] s2(2)
    by (simp add: event_sample_eq)
  then show ?thesis
    using s3(1) by (auto dest: in_set_dropD)
qed

text \<open>A coroutine 40 that awaits the request with context 64.\<close>

definition awaiting :: "(nat, handle list) scheduler" where
  "awaiting = example_scheduler\<lparr> sc_contexts :=
     safe_await_suspend 64 40 \<lparr> io_ctx = (\<lambda>_. None)(64 := Some io_context_new), io_fault = False \<rparr> \<rparr>"

lemma awaiting_run: "\<exists>s1 s2. poll_one example_program (io_cqe 64 5 0) awaiting = Some s1
    \<and> run_loop example_program [example_input] s1 = Some s2 \<and> summary s2 = ([40, 32], [40], False, [40])"
proof -
  have "map_option summary (Option.bind (poll_one example_program (io_cqe 64 5 0) awaiting)
      (run_loop example_program [example_input])) = Some ([40, 32], [40], False, [40])"
    by code_simp
  then show ?thesis
    by (auto simp: map_option_case bind_eq_Some_conv split: option.splits)
qed

theorem io_completion_runs_witness:
  "\<exists>s1 s2. poll_one example_program (io_cqe 64 5 0) awaiting = Some s1
     \<and> run_loop example_program [example_input] s1 = Some s2 \<and> 40 \<in> set (rq_taken (sc_rq s2))"
proof -
  obtain s1 s2 where s: "poll_one example_program (io_cqe 64 5 0) awaiting = Some s1"
    "run_loop example_program [example_input] s1 = Some s2" "summary s2 = ([40, 32], [40], False, [40])"
    using awaiting_run by blast
  have "awaits 64 40 awaiting"
    by (simp add: awaits_def awaiting_def safe_await_suspend_def ctx_access_def io_context_new_def)
  then have "40 \<in> set (drop (length (rq_taken (sc_rq awaiting))) (rq_taken (sc_rq s2)))"
    using io_completion_runs [OF _ _ _ _ s(1,2)] s(3) example_rq_inv
    by (simp add: summary_def awaiting_def example_scheduler_def aligned8_def TAG_MASK_def)
  then show ?thesis
    using s(1,2) by (auto dest: in_set_dropD)
qed

text \<open>Coroutine 77 sleeps until 5; the worker looks at its clock at 1 and then at 9.\<close>

definition sleeping :: "(nat, handle list) scheduler" where
  "sleeping = do_action (Sleep 8 77 0 5) example_scheduler"

definition late_input :: kernel_input where
  "late_input = \<lparr> ki_now = 9, ki_idle_now = 9, ki_wait = (\<lambda>_. 0), ki_cqes = [] \<rparr>"

lemma sleeping_alarm: "wheel_rel (sc_wheel sleeping) 0 [\<lparr> al_node = 8, al_deadline = 5, al_handle = 77 \<rparr>]"
  using wheel.sleep_law [OF wheel_rel_init, of 0 5 77 8 sample_nodes]
  by (simp add: sleeping_def do_action_def sleep_await_ready_def example_scheduler_def alarms_sleep_def)

lemma sleeping_run: "map_option summary (run_loop example_program [late_input] sleeping) = Some ([77], [77], False, [77])"
  by code_simp

theorem catching_up_schedules_due_witness:
  "\<exists>s'. run_ticks 9 sleeping = Some s' \<and> sc_rq s' = rq_schedule 77 (sc_rq sleeping)"
proof -
  have "sc_last_tick sleeping < 9"
    by (simp add: sleeping_def do_action_def sleep_await_ready_def example_scheduler_def)
  from catching_up_schedules_due [OF sleeping_alarm this] show ?thesis
    by (auto simp: fires_as_def)
qed

theorem sleeper_runs_witness:
  "\<exists>s'. run_loop example_program [late_input] sleeping = Some s' \<and> 77 \<in> set (rq_taken (sc_rq s'))"
proof -
  obtain s' where s': "run_loop example_program [late_input] sleeping = Some s'" "summary s' = ([77], [77], False, [77])"
    using sleeping_run by auto
  have "sc_rq sleeping = example_rq" and "sc_last_tick sleeping = 0"
    by (simp_all add: sleeping_def do_action_def sleep_await_ready_def example_scheduler_def)
  then have "77 \<in> set (drop (length (rq_taken (sc_rq sleeping))) (rq_taken (sc_rq s')))"
    using sleeper_runs [OF sleeping_alarm _ _ _ _ s'(1)] s'(2) example_rq_inv
    by (simp add: late_input_def summary_def)
  then show ?thesis
    using s'(1) by (auto dest: in_set_dropD)
qed

end
