(* ===== verification/Spec2Isabelle.thy ===== *)
theory Spec2Isabelle
  imports Spsc_Weak Unique_Task Mutex_Weak Event_Weak Task_Direct When_Weak Serializer Io_Buffer Http_Server Worker_Threads Wake_Paths
begin

text \<open>
  NovaIO: a C++ coroutine runtime on \<open>io_uring\<close>. This development models the library under \<open>include/novaio\<close>
  and \<open>src\<close> and the two HTTP servers under \<open>examples\<close>, and proves what makes them correct.

  \<^bold>\<open>The program.\<close> A \<open>Runtime\<close> starts one \<open>Scheduler\<close> per core, each on a thread of its own. A scheduler
  owns a ring of ready coroutines with a slot in front of it (\<open>LocalQueue\<close>, \<open>runnext_\<close>), an inbox of
  closures from other threads (\<open>SpscQueue<UniqueTask>\<close>), a timer wheel (\<open>TimeWheel\<close>) and an \<open>io_uring\<close>
  (\<open>IoEngine\<close>). A round of its loop ticks the wheel up to the clock, runs the closures of the inbox,
  resumes a batch of at most 16 ready coroutines and reaps the completions; with nothing ready it
  submits its requests and waits for as long as \<open>next_timeout\<close> says. Coroutines are \<open>Task\<close>s that await each
  other, requests of the engine (\<open>SafeIoAwaiter\<close>), sleeps, a \<open>CoMutex\<close>, an \<open>Event\<close> or a \<open>when_all\<close>. What wakes
  a coroutine calls \<open>schedule\<close> on its scheduler, or reaches it from another thread by \<open>dispatch_on\<close> (an inbox
  entry and a message to the ring) or by a message that carries the coroutine itself.

  \<^bold>\<open>Theories.\<close> Every definition keeps the name of the code it models where it can; a pointer is a 64-bit word,
  a coroutine handle is the address of its frame, unsigned integers are words of their width, and
  memory that several parties share is a map from addresses.

  \<^item> \<open>Novaio_Prelude\<close>: types, lemmas on masks, words and ring windows, multisets of the values of a map, and the
    locale \<open>fifo_queue\<close>, which states what the scheduler uses of its queues.
  \<^item> \<open>Local_Queue\<close>, \<open>Spsc_Queue\<close> (\<open>concurrent_queues.hpp\<close>): the two rings; both are interpretations of \<open>fifo_queue\<close>
    as long as there is room. \<open>Spsc_Concurrent\<close> cuts \<open>push\<close> and \<open>pop\<close> at their accesses to shared memory and
    covers every interleaving.
  \<^item> \<open>Time_Wheel\<close> (\<open>time_wheel.hpp\<close>, \<open>time_wheel.cpp\<close>): five levels of intrusive doubly linked lists.
    \<open>Wheel_Spec\<close> is the wheel over lists and natural numbers with the placement invariant, \<open>Wheel_Refine\<close> the
    refinement of the pointer code, \<open>Wheel_Props\<close> what \<open>tick\<close> and \<open>next_timeout\<close> deliver. \<open>Timer_Service\<close> states
    the contract as a locale over a plain list of alarms, which the wheel keeps.
  \<^item> \<open>Unique_Task\<close> (\<open>UniqueTask\<close> of \<open>scheduler.hpp\<close>) and \<open>Io_Buffer\<close> (\<open>io_buffer.hpp\<close>): the two move-only owners, for
    all programs over their variables.
  \<^item> \<open>Io_Context\<close> (\<open>io_context.hpp\<close>): the life of the context of a request. \<open>Io_Engine\<close> (\<open>io_engine.hpp\<close>,
    \<open>io_engine.cpp\<close>): the tags in \<open>user_data\<close>, the requests, the ring of provided buffers, \<open>init\<close> and the destructor.
  \<^item> \<open>Metrics\<close> (\<open>metrics.hpp\<close>; records of counters are an instance of \<open>comm_monoid_add\<close>) and \<open>Numa\<close> (the placement of a worker in \<open>scheduler.cpp\<close>).
  \<^item> \<open>Scheduler\<close> (\<open>scheduler.hpp\<close>, \<open>scheduler.cpp\<close>): \<open>iteration\<close> is one round of \<open>run\<close>, \<open>run_loop\<close> any number of them.
    What user code does is a list of actions, given by the parameter \<open>program\<close>; what the kernel does is the
    parameter \<open>kernel_input\<close> of the round. \<open>Scheduler_Rounds\<close> carries a relation between states through
    the phases of a round, as three locales, each extending the one before (\<open>quiet_relation\<close> up to the batch,
    \<open>phase_relation\<close> with it, \<open>round_relation\<close> for all rounds); \<open>Scheduler_Props\<close> has the theorems on the queues.
  \<^item> \<open>Resumptions\<close>: what becomes of the coroutines that were handed out. The program is instrumented (\<open>traced\<close>): it notes each
    piece of user code that runs and the coroutine it resumes, which changes nothing else (\<open>untraced_run\<close>), so
    \<open>resumed\<close> is what the loop of \<open>run\<close> really resumed, and not what it took from its queue.
  \<^item> \<open>Co_Mutex\<close>, \<open>Co_Mutex_Props\<close> (\<open>comutex.hpp\<close>, \<open>comutex.cpp\<close>) and \<open>Event\<close> (\<open>event.hpp\<close>): the two synchronisation
    objects, as steps at their atomic accesses or critical sections, for any number of coroutines; what a load
    returned is an argument of the step.
  \<^item> \<open>Release_Acquire\<close>: a memory with release and acquire accesses, in which threads have views and plain accesses may
    race. \<open>Spsc_Weak\<close>, \<open>Mutex_Weak\<close>, \<open>Event_Weak\<close> and \<open>When_Weak\<close> run the steps of \<open>Spsc_Concurrent\<close>, \<open>Co_Mutex\<close>, \<open>Event\<close>
    and \<open>When_All\<close> on it, with the memory orders as parameters.
  \<^item> \<open>Task\<close> (\<open>task.hpp\<close>): coroutine frames, promises, continuations and exceptions, for bodies that may be infinite.
    \<open>Task_Types\<close> has the typing of bodies and the invariant of the frames, \<open>Task_Direct\<close> the meaning of a body in
    direct style and its equivalence with the machine.
  \<^item> \<open>When_All\<close> (\<open>when_all.hpp\<close>): the counter and the helpers in every order of completion. \<open>Serializer\<close> (\<open>serializer.hpp\<close>).
  \<^item> \<open>Runtime\<close> (\<open>runtime.hpp\<close>, \<open>runtime.cpp\<close>): the schedulers together, \<open>start\<close>, \<open>dispatch_on\<close>, the ring of a thread that is
    no worker. \<open>Workers\<close>: rounds of all workers and dispatches from outside in any order. \<open>Worker_Threads\<close>: the whole
    process, from the start of the threads to the return of \<open>stop\<close>, with a round cut where the worker reads
    \<open>is_running_\<close> and where it blocks, and the messages between the rings as steps of the kernel.
  \<^item> \<open>Http_Server\<close> (\<open>examples/http_server.cpp\<close>, \<open>examples/http_server_multirecv.cpp\<close>): the clients of the library. The coroutine
    of a connection is a body of \<open>Task\<close>; \<open>main\<close> starts the runtime and dispatches the listeners.
  \<^item> \<open>Wake_Paths\<close>: the locale \<open>wake_path\<close> for the ways a coroutine gets back into the run queue, interpreted for
    \<open>schedule\<close>, a ring message and a completion; \<open>drain_wakes\<close> is its counterpart for a task that waits in the inbox among
    others. From them follows that coroutines granted a mutex, resumed by an event, completed by the kernel or
    woken by a timer get their turn.

  \<^bold>\<open>What is shown.\<close> Invariants: the run queue loses and duplicates no coroutine, and each is resumed as often as it was scheduled; the mutex, the event, the
  context of a request, the owners and the wheel keep theirs in every reachable state. Types: no
  well-typed body that awaits its tasks as temporaries resumes or destroys a frame that is gone. Refinement: the local queue is
  a list, the wheel a list of alarms, the machine of frames the direct meaning of the bodies, also of those
  that wait or run for ever. Safety and liveness: mutual exclusion, first-in first-out hand-over, no lost
  wake-up, exactly-once delivery, bounded waiting for every ready coroutine; no worker sleeps over a task in its
  inbox, and \<open>stop\<close> returns. Memory: the orders the code asks for are enough to keep the inbox, \<open>CoMutex\<close>, \<open>Event\<close> and
  \<open>when_all\<close> free of data races and to hand on what was done before; nearly all of them are needed, by
  executions that go wrong without (the first load of \<open>CoMutex\<close> could be relaxed and the exchange of
  \<open>Event::set\<close> release only). Round trips: \<open>user_data\<close> tags, serialized values.
  Termination: the loops over intrusive chains (\<open>cascade\<close>, firing, the reversal of waiters, the walk of
  \<open>set\<close>), the draining of the inbox and of completions are \<open>partial_function\<close>s, and that they return is part
  of the theorems. The last properties and several lemmas show where the code does not do what it
  means to: a second producer on an inbox, \<open>next_timeout\<close> and the upper levels, a closure that dispatches
  to its own core, a waiter of a mutex without a scheduler, the offset in \<open>return_buffer\<close>.

  \<^bold>\<open>Bounds.\<close> The capacities are those of the code (65536 for both queues, proved for every power of two that
  fits the cursors), the batch is 16, and the bounds on waiting count rounds of the loop: at least 15 places
  of each batch go to the local queue. \<open>run_loop\<close> and the finite histories carry no fuel: they follow the list of
  kernel inputs. The wheel is exact for the whole range of 64-bit times. A call of \<open>schedule\<close> that overruns the
  local queue sets \<open>rq_fault\<close>; the theorems on the queue hold for runs without it, and \<open>Local_Queue\<close> shows
  what the code does then.

  \<^bold>\<open>Not modelled.\<close> liburing, libnuma, mimalloc and the kernel are parameters with their documented behaviour
  (\<open>liburing\<close>, \<open>ext_uring\<close> with \<open>ext_law\<close>, the answers of \<open>mmap\<close> and \<open>io_uring_setup\<close>). \<open>Runtime::is_running_\<close> is read and
  written with sequential consistency, and in \<open>Worker_Threads\<close> a dispatch is one step, although several threads
  that dispatch to one core break the inbox (\<open>spsc_two_producers_lose\<close>). The \<open>std::mutex\<close> of \<open>Event\<close> is exclusive and orders
  its critical sections, but is not fair. The memory of coroutine frames is unbounded. Bodies
  await each task as the temporary of its call; a \<open>Task\<close> in a variable is not part of them, and
  \<open>second_await_resumes_finished\<close> shows that awaiting one twice goes wrong. How long a message between two rings
  is under way has no bound: a worker that stays busy does not submit it (\<open>worker_message_waits\<close>). The process of \<open>Worker_Threads\<close> calls \<open>start\<close> once (\<open>start_twice\<close> shows the rest), its rings could be opened
  (\<open>Io_Engine\<close> has the failures of \<open>init\<close>), and their submission queues do not fill up between two submits. Counters with
  \<open>NOVAIO_ENABLE_METRICS\<close> off, printing and the endless sleep of \<open>main\<close> have no result here. The test programs and
  the load generator (\<open>comprehensive_test.cpp\<close>, \<open>test_framework.cpp\<close>, \<open>production_benchmark_test.cpp\<close>), the build files and
  the scripts are not part of the model.
\<close>

end
